(* ===== verification/Aesd_Base.thy ===== *)
theory Aesd_Base
  imports Main "HOL-Library.Word" "HOL-Library.Monad_Syntax" "HOL-Library.Sublist"
begin

text \<open>
  Shared vocabulary of the development: the C integer types at their LP64 widths, the
  convention for undefined behaviour, the collections of simplification rules the
  component theories extend, and the facts on words, modular indices and concatenated
  lists that several components use.

  Conventions. A C pointer that the code compares with \<open>NULL\<close> and then follows to a
  structure is an \<open>option\<close> whose \<open>None\<close> is the null pointer. A model function whose
  code can run into undefined behaviour (a null dereference, an array index out of range,
  a free of a dead block) returns an \<open>option\<close> whose \<open>None\<close> is that undefined
  behaviour, so that \<open>f x = Some y\<close> states both that the execution is defined and what
  it returns.
\<close>

section \<open>C types\<close>

type_synonym byte = "8 word"
type_synonym uint8_t = "8 word"
type_synonym uint32_t = "32 word"
type_synonym size_t = "64 word"
type_synonym ssize_t = "64 word"  \<comment> \<open>signed, read with \<open>sint\<close>\<close>
type_synonym loff_t = "64 word"   \<comment> \<open>signed, read with \<open>sint\<close>\<close>
type_synonym addr = "64 word"

abbreviation (input) NULL :: addr where "NULL \<equiv> 0"

text \<open>The newline that ends a command.\<close>

abbreviation (input) NL :: byte where "NL \<equiv> 10"

section \<open>Error numbers of the kernel\<close>

definition EINTR :: ssize_t where "EINTR = 4"
definition EFAULT :: ssize_t where "EFAULT = 14"
definition ENOMEM :: ssize_t where "ENOMEM = 12"
definition EINVAL :: ssize_t where "EINVAL = 22"
definition ENOTTY :: ssize_t where "ENOTTY = 25"
definition ERESTARTSYS :: ssize_t where "ERESTARTSYS = 512"

named_theorems errno_defs
named_theorems inv_defs

lemmas errno_simps [errno_defs] =
  EINTR_def EFAULT_def ENOMEM_def EINVAL_def ENOTTY_def ERESTARTSYS_def

section \<open>Words\<close>

lemma unat_add_exact:
  fixes a b :: "'a::len word"
  assumes "unat a + unat b < 2 ^ LENGTH('a)"
  shows "unat (a + b) = unat a + unat b"
  using assms by (simp add: unat_word_ariths)

text \<open>The loop counter of a \<open>for (i = 0; i < n; i++)\<close> over an unsigned type.\<close>

lemma unat_succ_below:
  fixes i n :: "'a::len word"
  assumes "i < n"
  shows "unat (i + 1) = Suc (unat i)"
proof -
  have "unat i + unat (1 :: 'a word) < 2 ^ LENGTH('a)"
    using assms unsigned_less [of n, where 'a = nat]
    by (cases "LENGTH('a)") (auto simp: word_less_nat_alt)
  moreover have "unat (1 :: 'a word) = 1" by simp
  ultimately show ?thesis using unat_add_exact [of i 1] by simp
qed

lemma loop_counter_decreases:
  fixes i n :: "'a::len word"
  shows "i < n \<Longrightarrow> unat n - unat (i + 1) < unat n - unat i"
  by (simp add: unat_succ_below word_less_nat_alt)

lemma unat_of_nat_size [simp]: "k < 2 ^ 64 \<Longrightarrow> unat (of_nat k :: size_t) = k"
  by (simp add: unat_of_nat take_bit_nat_eq_self)

lemma of_nat_size_less: "k < 2 ^ 64 \<Longrightarrow> n < 2 ^ 64 \<Longrightarrow>
    ((of_nat k :: size_t) < of_nat n) = (k < n)"
  by (simp add: word_less_nat_alt)

lemma size_succ: "(of_nat k + 1 :: size_t) = of_nat (Suc k)"
  by simp

lemma of_nat_size_eq: "k < 2 ^ 64 \<Longrightarrow> n < 2 ^ 64 \<Longrightarrow>
    ((of_nat k :: size_t) = of_nat n) = (k = n)"
  by (metis unat_of_nat_size)

lemma unat_of_nat_byte [simp]: "k < 256 \<Longrightarrow> unat (of_nat k :: 8 word) = k"
  by (simp add: unat_of_nat take_bit_nat_eq_self)

lemma unat_ucast_32_64 [simp]: "unat (ucast (x :: 32 word) :: 64 word) = unat x"
proof -
  have "unat x < 2 ^ LENGTH(32)" by (rule unsigned_less)
  then show ?thesis by (simp add: unsigned_ucast_eq take_bit_nat_eq_self)
qed

lemma unat_minus_one_size [simp]: "unat (- 1 :: size_t) = 2 ^ 64 - 1"
  by (simp add: unsigned_minus_1_eq_mask mask_eq_exp_minus_1)

lemma of_nat_not_minus_one:
  assumes "n < 2 ^ 63"
  shows "(of_nat n :: 64 word) \<noteq> - 1"
proof
  assume "(of_nat n :: 64 word) = - 1"
  then have "unat (of_nat n :: 64 word) = unat (- 1 :: 64 word)" by (rule arg_cong)
  with assms show False by simp
qed

text \<open>A small unsigned value is also non-negative when read as a signed one.\<close>

lemma sint_small:
  fixes w :: "64 word"
  assumes "unat w < 2 ^ 63"
  shows "sint w = int (unat w)"
proof -
  have u: "uint w = int (unat w)" by simp
  have "int (unat w) < int (2 ^ 63)" using assms by (simp only: of_nat_less_iff)
  with u have lt: "uint w < 2 ^ 63" by (simp only: of_nat_power of_nat_numeral)
  have "sint w = sint (word_of_int (uint w) :: 64 word)" by simp
  also have "\<dots> = (uint w + 2 ^ 63) mod 2 ^ 64 - 2 ^ 63"
    by (simp only: int_word_sint) simp
  also have "\<dots> = uint w"
    using lt by simp
  finally show ?thesis using u by (rule trans)
qed

text \<open>A non-negative difference computed in \<open>int\<close> and converted to a word.\<close>

lemma word_of_int_diff_nat: "b \<le> a \<Longrightarrow> (word_of_int (int a - int b) :: 'a::len word) = of_nat (a - b)"
  by (simp add: of_nat_diff)

section \<open>Lists cut into segments\<close>

text \<open>
  \<open>locate sizes off\<close> finds the segment that position \<open>off\<close> falls into when segments of
  the given sizes are laid end to end, and the position inside that segment.
\<close>

fun locate :: "nat list \<Rightarrow> nat \<Rightarrow> (nat \<times> nat) option" where
  "locate [] off = None"
| "locate (s # ss) off =
     (if off < s then Some (0, off)
      else map_option (\<lambda>(k, j). (Suc k, j)) (locate ss (off - s)))"

lemma locate_None_iff: "locate ss off = None \<longleftrightarrow> sum_list ss \<le> off"
  by (induction ss off rule: locate.induct) auto

lemma locate_Some:
  "locate ss off = Some (k, j) \<Longrightarrow>
     k < length ss \<and> j < ss ! k \<and> off = sum_list (take k ss) + j"
  by (induction ss off arbitrary: k rule: locate.induct) (auto split: if_splits)

lemma locate_at: "k < length ss \<Longrightarrow> j < ss ! k \<Longrightarrow> locate ss (sum_list (take k ss) + j) = Some (k, j)"
proof (induction ss arbitrary: k)
  case (Cons s ss)
  then show ?case by (cases k) auto
qed simp

lemma length_concat_sum: "length (concat xss) = sum_list (map length xss)"
  by (induction xss) auto

lemma drop_concat_take:
  "k < length xss \<Longrightarrow> j \<le> length (xss ! k) \<Longrightarrow>
     drop (sum_list (map length (take k xss)) + j) (concat xss)
       = drop j (xss ! k) @ concat (drop (Suc k) xss)"
proof (induction xss arbitrary: k)
  case Nil
  then show ?case by simp
next
  case (Cons xs xss)
  then show ?case by (cases k) auto
qed

lemma sum_list_bound: "(\<And>x. x \<in> set xs \<Longrightarrow> x \<le> m) \<Longrightarrow> sum_list xs \<le> length xs * (m :: nat)"
  by (induction xs) (auto simp: add_mono)

lemma sum_list_replicate_zero [simp]: "sum_list (replicate n (0 :: 'a::monoid_add)) = 0"
  by (induction n) simp_all

lemma sum_list_rotate:
  fixes f :: "'b \<Rightarrow> 'a::comm_monoid_add"
  shows "(\<Sum>x\<leftarrow>rotate n xs. f x) = (\<Sum>x\<leftarrow>xs. f x)"
proof -
  have "(\<Sum>x\<leftarrow>rotate n xs. f x)
      = (\<Sum>x\<leftarrow>take (n mod length xs) xs. f x) + (\<Sum>x\<leftarrow>drop (n mod length xs) xs. f x)"
    by (simp add: rotate_drop_take add.commute)
  also have "\<dots> = (\<Sum>x\<leftarrow>take (n mod length xs) xs @ drop (n mod length xs) xs. f x)"
    by (simp only: map_append sum_list_append)
  finally show ?thesis by simp
qed

lemma distinct_filter_rotate:
  "distinct (filter P (rotate n xs)) \<Longrightarrow> distinct (filter P xs)"
proof -
  define ys zs where "ys = take (n mod length xs) xs" and "zs = drop (n mod length xs) xs"
  have r: "rotate n xs = zs @ ys" by (simp add: rotate_drop_take ys_def zs_def)
  have xs: "xs = ys @ zs" by (simp add: ys_def zs_def)
  assume "distinct (filter P (rotate n xs))"
  then have "distinct (filter P (zs @ ys))" by (simp only: r)
  then have "distinct (filter P (ys @ zs))" by auto
  then show ?thesis by (simp only: xs [symmetric])
qed

text \<open>The last \<open>n\<close> elements of a list: what a bounded log keeps.\<close>

definition last_n :: "nat \<Rightarrow> 'a list \<Rightarrow> 'a list" where
  "last_n n xs = drop (length xs - n) xs"

lemma last_n_short [simp]: "length xs \<le> n \<Longrightarrow> last_n n xs = xs"
  by (simp add: last_n_def)

lemma length_last_n [simp]: "length (last_n n xs) = min n (length xs)"
  by (simp add: last_n_def)

lemma last_n_last_n_append: "last_n n (last_n n xs @ ys) = last_n n (xs @ ys)"
  by (cases "length xs \<le> n") (simp_all add: last_n_def add.commute)

lemma map_last_n: "map f (last_n n xs) = last_n n (map f xs)"
  by (simp add: last_n_def drop_map)

lemma last_n_Cons_snoc [simp]: "last_n (Suc (length xs)) (x # xs @ [y]) = xs @ [y]"
  by (simp add: last_n_def)

lemma last_n_snoc_full: "length xs = n \<Longrightarrow> 0 < n \<Longrightarrow> last_n n (xs @ [x]) = tl xs @ [x]"
  by (cases xs) auto

end
