(* ===== verification/Bounded_Log.thy ===== *)
theory Bounded_Log
  imports Aesd_Base
begin

text \<open>
  The interface the character driver relies on from its circular buffer: a log of bounded
  length that accepts an entry at its new end and, when it is full, displaces the oldest
  one and hands back the pointer that entry owned, so that the caller can release it.
  \<open>fold_add\<close> runs a sequence of additions and collects what they hand back. The locale's
  lemmas are about such sequences; the circular buffer's theory interprets it.
\<close>

fun fold_add :: "('b \<Rightarrow> 'e \<Rightarrow> ('p \<times> 'b) option) \<Rightarrow> 'b \<Rightarrow> 'e list \<Rightarrow> ('p list \<times> 'b) option" where
  "fold_add add b [] = Some ([], b)"
| "fold_add add b (e # es) =
     do { (p, b') \<leftarrow> add b e;
          (ps, b'') \<leftarrow> fold_add add b' es;
          Some (p # ps, b'') }"

locale bounded_log =
  fixes cap :: nat
    and empty :: 'b
    and add :: "'b \<Rightarrow> 'e \<Rightarrow> ('p \<times> 'b) option"
    and live :: "'b \<Rightarrow> 'e list"
    and wf :: "'b \<Rightarrow> bool"
    and ptr :: "'e \<Rightarrow> 'p"
    and none :: 'p
  assumes cap_pos: "0 < cap"
    and wf_empty: "wf empty"
    and live_empty: "live empty = []"
    and live_bound: "wf b \<Longrightarrow> length (live b) \<le> cap"
    and add_step: "wf b \<Longrightarrow> \<exists>b'. add b e =
          Some (if length (live b) = cap then ptr (hd (live b)) else none, b')
        \<and> wf b' \<and> live b' = last_n cap (live b @ [e])"
begin

text \<open>An addition is always defined, and what it keeps and hands back is determined.\<close>

lemma add_Some:
  assumes "wf b"
  obtains b' where "add b e = Some (if length (live b) = cap then ptr (hd (live b)) else none, b')"
    and "wf b'" and "live b' = last_n cap (live b @ [e])"
  using add_step [OF assms] by blast

text \<open>Nothing is lost in a step: what is handed back and what stays are what was there.\<close>

lemma add_conserves:
  assumes "wf b" and "add b e = Some (p, b')" and "\<forall>x \<in> set (live b). ptr x \<noteq> none"
  shows "filter (\<lambda>q. q \<noteq> none) [p] @ map ptr (live b') = map ptr (live b @ [e])"
proof (cases "length (live b) = cap")
  case True
  then obtain x xs where "live b = x # xs" using cap_pos by (cases "live b") auto
  with True assms add_step [OF assms(1), of e] cap_pos show ?thesis
    by (auto simp: last_n_snoc_full)
next
  case False
  then have "length (live b) < cap" using live_bound [OF assms(1)] by simp
  with False assms add_step [OF assms(1), of e] show ?thesis by auto
qed

text \<open>A sequence of additions keeps exactly the last \<open>cap\<close> entries.\<close>

lemma fold_add_live:
  "wf b \<Longrightarrow> \<exists>ps b'. fold_add add b es = Some (ps, b') \<and> length ps = length es
       \<and> wf b' \<and> live b' = last_n cap (live b @ es)"
proof (induction es arbitrary: b)
  case Nil
  then show ?case using live_bound by simp
next
  case (Cons e es)
  obtain p b1 where b1: "add b e = Some (p, b1)" "wf b1" "live b1 = last_n cap (live b @ [e])"
    using add_step [OF Cons.prems] by blast
  obtain ps b2 where "fold_add add b1 es = Some (ps, b2)" "length ps = length es" "wf b2"
      "live b2 = last_n cap (live b1 @ es)"
    using Cons.IH [OF b1(2)] by blast
  with b1 show ?case by (simp add: last_n_last_n_append)
qed

text \<open>
  Every pointer ever added is, at the end, either still in the log or has been handed back
  for release, exactly once and in the order of addition.
\<close>

lemma fold_add_conserves:
  assumes "wf b" and "fold_add add b es = Some (ps, b')"
    and "\<forall>x \<in> set (live b @ es). ptr x \<noteq> none"
  shows "filter (\<lambda>q. q \<noteq> none) ps @ map ptr (live b') = map ptr (live b @ es)"
  using assms
proof (induction es arbitrary: b ps)
  case Nil
  then show ?case by simp
next
  case (Cons e es)
  obtain p b1 where b1: "add b e = Some (p, b1)" "wf b1" "live b1 = last_n cap (live b @ [e])"
    using add_step [OF Cons.prems(1)] by blast
  with Cons.prems obtain qs where qs: "fold_add add b1 es = Some (qs, b')" "ps = p # qs"
    by (auto split: Option.bind_splits)
  have sub: "set (live b1) \<subseteq> set (live b @ [e])"
    unfolding b1(3) last_n_def by (rule set_drop_subset)
  have "filter (\<lambda>q. q \<noteq> none) qs @ map ptr (live b') = map ptr (live b1 @ es)"
    using Cons.IH [OF b1(2) qs(1)] Cons.prems(3) sub by auto
  moreover have "filter (\<lambda>q. q \<noteq> none) [p] @ map ptr (live b1) = map ptr (live b @ [e])"
    using add_conserves [OF Cons.prems(1) b1(1)] Cons.prems(3) by auto
  ultimately show ?case using qs(2) by (auto split: if_splits)
qed

end

end
