(* ===== verification/Circular_Buffer.thy ===== *)
theory Circular_Buffer
  imports Bounded_Log
begin

text \<open>
  The circular buffer of the character driver, \<^verbatim>\<open>aesd-char-driver/aesd-circular-buffer.c\<close>
  and \<^verbatim>\<open>.h\<close>: its structures, its five functions with their loops, their effect on the
  list of live entries, and the interpretation of \<open>bounded_log\<close> on them.
\<close>

section \<open>Data\<close>

definition AESDCHAR_MAX_WRITE_OPERATIONS_SUPPORTED :: nat where
  "AESDCHAR_MAX_WRITE_OPERATIONS_SUPPORTED = 10"

abbreviation MAXW :: nat where "MAXW \<equiv> AESDCHAR_MAX_WRITE_OPERATIONS_SUPPORTED"

lemmas MAXW_def = AESDCHAR_MAX_WRITE_OPERATIONS_SUPPORTED_def

text \<open>The field \<open>size\<close> of the C structure is \<open>esize\<close> here (\<open>size\<close> is taken in HOL).\<close>

record aesd_buffer_entry =
  buffptr :: addr
  esize :: size_t

record aesd_circular_buffer =
  entry :: "aesd_buffer_entry list"
  in_offs :: uint8_t
  out_offs :: uint8_t
  full :: bool

definition null_entry :: aesd_buffer_entry where
  "null_entry = \<lparr>buffptr = NULL, esize = 0\<rparr>"

text \<open>
  \<open>entry[i]\<close>: reading outside the array is undefined. The offsets are \<open>uint8_t\<close> and
  promoted to \<open>int\<close> before the addition, so \<open>(posn + 1) % 10\<close> does not wrap at 256.
\<close>

definition entry_at :: "aesd_circular_buffer \<Rightarrow> nat \<Rightarrow> aesd_buffer_entry option" where
  "entry_at cb i = (if i < length (entry cb) then Some (entry cb ! i) else None)"

definition next_offs :: "uint8_t \<Rightarrow> uint8_t" where
  "next_offs p = of_nat ((unat p + 1) mod MAXW)"

definition store_entry :: "aesd_circular_buffer \<Rightarrow> nat \<Rightarrow> aesd_buffer_entry \<Rightarrow>
    aesd_circular_buffer option" where
  "store_entry cb i e =
     (if i < length (entry cb) then Some (cb\<lparr>entry := (entry cb)[i := e]\<rparr>) else None)"

section \<open>Operations\<close>

text \<open>\<open>aesd_circular_buffer_init\<close>: \<open>memset\<close> to zero, then the three offset fields.\<close>

definition aesd_circular_buffer_init :: aesd_circular_buffer where
  "aesd_circular_buffer_init =
     \<lparr>entry = replicate MAXW null_entry, in_offs = 0, out_offs = 0, full = False\<rparr>"

text \<open>\<open>get_length_loop cb k i total\<close>: the loop with \<open>k\<close> iterations left, at index \<open>i\<close>.\<close>

fun get_length_loop :: "aesd_circular_buffer \<Rightarrow> nat \<Rightarrow> nat \<Rightarrow> size_t \<Rightarrow> size_t option" where
  "get_length_loop cb 0 i total_size = Some total_size"
| "get_length_loop cb (Suc k) i total_size =
     do { e \<leftarrow> entry_at cb i;
          get_length_loop cb k (Suc i)
            (if buffptr e \<noteq> NULL then total_size + esize e else total_size) }"

definition aesd_circular_buffer_get_length :: "aesd_circular_buffer option \<Rightarrow> size_t option" where
  "aesd_circular_buffer_get_length buffer =
     (case buffer of
        None \<Rightarrow> Some 0
      | Some cb \<Rightarrow> get_length_loop cb MAXW 0 0)"

text \<open>
  The number of entries from the oldest to the newest, computed the same way by both
  search functions: in \<open>int\<close>, then converted to \<open>size_t\<close>.
\<close>

definition num_iterations :: "aesd_circular_buffer \<Rightarrow> size_t" where
  "num_iterations cb =
     (if full cb then of_nat MAXW
      else if in_offs cb > out_offs cb
           then word_of_int (uint (in_offs cb) - uint (out_offs cb))
           else word_of_int ((int MAXW - uint (out_offs cb)) + uint (in_offs cb)))"

definition buffer_empty :: "aesd_circular_buffer \<Rightarrow> bool" where
  "buffer_empty cb \<longleftrightarrow> \<not> full cb \<and> in_offs cb = out_offs cb"

function seekto_loop :: "aesd_circular_buffer \<Rightarrow> size_t \<Rightarrow> size_t \<Rightarrow> size_t \<Rightarrow> uint8_t \<Rightarrow> size_t \<Rightarrow>
    (uint8_t \<times> size_t) option" where
  "seekto_loop cb n write_cmd i posn cumulative =
     (if i < n then
        (if i = write_cmd then Some (posn, cumulative)
         else do { e \<leftarrow> entry_at cb (unat posn);
                   seekto_loop cb n write_cmd (i + 1) (next_offs posn) (cumulative + esize e) })
      else Some (posn, cumulative))"
  by pat_completeness auto
termination
  by (relation "measure (\<lambda>(cb, n, w, i, p, c). unat n - unat i)") (auto simp: loop_counter_decreases)

declare seekto_loop.simps [simp del]

definition aesd_circular_buffer_find_seekto_fpos ::
  "aesd_circular_buffer option \<Rightarrow> uint32_t \<Rightarrow> uint32_t \<Rightarrow> size_t option" where
  "aesd_circular_buffer_find_seekto_fpos buffer write_cmd write_cmd_offset =
     (case buffer of
        None \<Rightarrow> None  \<comment> \<open>\<open>buffer->out_offs\<close> is read before the \<open>NULL\<close> check\<close>
      | Some cb \<Rightarrow>
          (if buffer_empty cb then Some (- 1)
           else if ucast write_cmd > num_iterations cb then Some (- 1)
           else do { (posn, cumulative) \<leftarrow>
                       seekto_loop cb (num_iterations cb) (ucast write_cmd) 0 (out_offs cb) 0;
                     e \<leftarrow> entry_at cb (unat posn);
                     if ucast write_cmd_offset > esize e then Some (- 1)
                     else Some (cumulative + ucast write_cmd_offset) }))"

text \<open>
  The inner loop of the search, over the bytes of one entry: \<open>Some j\<close> when the position is
  reached at byte \<open>j\<close>, and the value of \<open>cumulative\<close> afterwards.
\<close>

function scan_entry :: "size_t \<Rightarrow> size_t \<Rightarrow> size_t \<Rightarrow> size_t \<Rightarrow> size_t option \<times> size_t" where
  "scan_entry sz char_offset j cumulative =
     (if j < sz then
        (if cumulative = char_offset then (Some j, cumulative)
         else scan_entry sz char_offset (j + 1) (cumulative + 1))
      else (None, cumulative))"
  by pat_completeness auto
termination
  by (relation "measure (\<lambda>(sz, c, j, cu). unat sz - unat j)") (auto simp: loop_counter_decreases)

declare scan_entry.simps [simp del]

function find_loop :: "aesd_circular_buffer \<Rightarrow> size_t \<Rightarrow> size_t \<Rightarrow> size_t \<Rightarrow> uint8_t \<Rightarrow> size_t \<Rightarrow>
    (uint8_t \<times> size_t) option option" where
  "find_loop cb n char_offset i posn cumulative =
     (if i < n then
        do { e \<leftarrow> entry_at cb (unat posn);
             case scan_entry (esize e) char_offset 0 cumulative of
               (Some j, _) \<Rightarrow> Some (Some (posn, j))
             | (None, cumulative') \<Rightarrow>
                 find_loop cb n char_offset (i + 1) (next_offs posn) cumulative' }
      else Some None)"
  by pat_completeness auto
termination
  by (relation "measure (\<lambda>(cb, n, co, i, p, c). unat n - unat i)") (auto simp: loop_counter_decreases)

declare find_loop.simps [simp del]

text \<open>
  The result is the returned entry pointer, as the index of the entry (\<open>None\<close> for
  \<open>NULL\<close>), and what \<open>*entry_offset_byte_rtn\<close> holds afterwards.
\<close>

definition aesd_circular_buffer_find_entry_offset_for_fpos ::
  "aesd_circular_buffer option \<Rightarrow> size_t \<Rightarrow> size_t option \<Rightarrow>
     (uint8_t option \<times> size_t option) option" where
  "aesd_circular_buffer_find_entry_offset_for_fpos buffer char_offset entry_offset_byte_rtn =
     (case buffer of
        None \<Rightarrow> None  \<comment> \<open>\<open>buffer->out_offs\<close> is read before the \<open>NULL\<close> check\<close>
      | Some cb \<Rightarrow>
          (if entry_offset_byte_rtn = None then Some (None, None)
           else if buffer_empty cb then Some (None, entry_offset_byte_rtn)
           else do { r \<leftarrow> find_loop cb (num_iterations cb) char_offset 0 (out_offs cb) 0;
                     case r of
                       Some (posn, j) \<Rightarrow> Some (Some posn, Some j)
                     | None \<Rightarrow> Some (None, Some 0) }))"

text \<open>
  The result is the returned pointer (the storage of the displaced entry, to be freed by
  the caller, or \<open>NULL\<close>) and the buffer afterwards.
\<close>

definition aesd_circular_buffer_add_entry ::
  "aesd_circular_buffer option \<Rightarrow> aesd_buffer_entry option \<Rightarrow>
     (addr \<times> aesd_circular_buffer option) option" where
  "aesd_circular_buffer_add_entry buffer add_entry =
     (case (buffer, add_entry) of
        (Some cb, Some e) \<Rightarrow>
          do { (buffptr_to_free, cb1) \<leftarrow>
                 (if full cb
                  then do { old \<leftarrow> entry_at cb (unat (out_offs cb));
                            Some (buffptr old, cb\<lparr>out_offs := next_offs (out_offs cb)\<rparr>) }
                  else Some (NULL, cb));
               cb2 \<leftarrow> store_entry cb1 (unat (in_offs cb1)) e;
               let cb3 = cb2\<lparr>in_offs := next_offs (in_offs cb2)\<rparr>;
                   cb4 = (if in_offs cb3 = out_offs cb3 then cb3\<lparr>full := True\<rparr> else cb3)
               in Some (buffptr_to_free, Some cb4) }
      | _ \<Rightarrow> Some (NULL, buffer))"

section \<open>Abstraction: the list of live entries\<close>

text \<open>
  \<open>slot cb k\<close> is the \<open>k\<close>-th entry counted from \<open>out_offs\<close> with wrap-around,
  \<open>cb_count\<close> the number of entries in use, \<open>cb_live\<close> the entries in use from the oldest
  to the newest. \<open>cb_wf\<close> is the invariant of the structure: offsets in range, \<open>full\<close>
  only with equal offsets, and every entry not in use is the zero entry of \<open>init\<close>.
\<close>

definition slot :: "aesd_circular_buffer \<Rightarrow> nat \<Rightarrow> aesd_buffer_entry" where
  "slot cb k = entry cb ! ((unat (out_offs cb) + k) mod MAXW)"

definition cb_count :: "aesd_circular_buffer \<Rightarrow> nat" where
  "cb_count cb =
     (if full cb then MAXW else (unat (in_offs cb) + (MAXW - unat (out_offs cb))) mod MAXW)"

definition cb_live :: "aesd_circular_buffer \<Rightarrow> aesd_buffer_entry list" where
  "cb_live cb = map (slot cb) [0..<cb_count cb]"

definition cb_wf :: "aesd_circular_buffer \<Rightarrow> bool" where
  [inv_defs]: "cb_wf cb \<longleftrightarrow> length (entry cb) = MAXW
     \<and> unat (in_offs cb) < MAXW \<and> unat (out_offs cb) < MAXW
     \<and> (full cb \<longrightarrow> in_offs cb = out_offs cb)
     \<and> (\<forall>k \<in> {cb_count cb..<MAXW}. slot cb k = null_entry)"

definition cb_sizes :: "aesd_circular_buffer \<Rightarrow> nat list" where
  "cb_sizes cb = map (\<lambda>e. unat (esize e)) (cb_live cb)"

definition cb_total :: "aesd_circular_buffer \<Rightarrow> nat" where
  "cb_total cb = sum_list (cb_sizes cb)"

lemma cb_wfD:
  assumes "cb_wf cb"
  shows "length (entry cb) = 10" "unat (in_offs cb) < 10" "unat (out_offs cb) < 10"
    "full cb \<Longrightarrow> in_offs cb = out_offs cb"
  using assms by (auto simp: cb_wf_def MAXW_def)

lemma unat_next_offs [simp]: "unat (next_offs p) = (unat p + 1) mod 10"
  by (simp add: next_offs_def MAXW_def)

lemma cb_count_le: "cb_count cb \<le> 10"
  by (simp add: cb_count_def MAXW_def less_imp_le)

lemma length_cb_live [simp]: "length (cb_live cb) = cb_count cb"
  by (simp add: cb_live_def)

lemma length_cb_sizes [simp]: "length (cb_sizes cb) = cb_count cb"
  by (simp add: cb_sizes_def)

lemma nth_cb_live: "k < cb_count cb \<Longrightarrow> cb_live cb ! k = slot cb k"
  by (simp add: cb_live_def)

lemma nth_cb_sizes: "k < cb_count cb \<Longrightarrow> cb_sizes cb ! k = unat (esize (slot cb k))"
  by (simp add: cb_sizes_def nth_cb_live)

lemma cb_count_bounds:
  assumes "cb_wf cb"
  shows "(unat (out_offs cb) + cb_count cb) mod 10 = unat (in_offs cb)"
    and "cb_count cb = 10 \<longleftrightarrow> full cb"
    and "cb_count cb = 0 \<longleftrightarrow> buffer_empty cb"
proof -
  note w = cb_wfD [OF assms]
  show "(unat (out_offs cb) + cb_count cb) mod 10 = unat (in_offs cb)"
    using w by (auto simp: cb_count_def MAXW_def mod_simps)
  show "cb_count cb = 10 \<longleftrightarrow> full cb"
    by (simp add: cb_count_def MAXW_def) (metis mod_less_divisor nat_neq_iff zero_less_numeral)
  have "(unat (in_offs cb) + (10 - unat (out_offs cb))) mod 10 = 0
      \<longleftrightarrow> unat (in_offs cb) = unat (out_offs cb)"
    using w(2,3) by presburger
  then show "cb_count cb = 0 \<longleftrightarrow> buffer_empty cb"
    by (auto simp: cb_count_def MAXW_def buffer_empty_def word_unat_eq_iff)
qed

lemma ring_distance_ahead: "b < a \<Longrightarrow> a < 10 \<Longrightarrow> (a + (10 - b)) mod 10 = a - (b :: nat)"
  by (simp add: mod_if)

text \<open>The iteration count of the two searches is the number of live entries.\<close>

lemma num_iterations_eq:
  assumes "cb_wf cb" and "\<not> buffer_empty cb"
  shows "num_iterations cb = of_nat (cb_count cb)"
proof (cases "full cb")
  case True
  then show ?thesis by (simp add: num_iterations_def cb_count_def)
next
  case False
  note w = cb_wfD [OF assms(1)]
  have ne: "unat (in_offs cb) \<noteq> unat (out_offs cb)"
    using False assms(2) by (auto simp: buffer_empty_def word_unat_eq_iff)
  have u: "uint (in_offs cb) = int (unat (in_offs cb))"
    "uint (out_offs cb) = int (unat (out_offs cb))" by simp_all
  show ?thesis
  proof (cases "in_offs cb > out_offs cb")
    case True
    then have lt: "unat (out_offs cb) < unat (in_offs cb)" by (simp add: word_less_nat_alt)
    then have "(unat (in_offs cb) + (10 - unat (out_offs cb))) mod 10
        = unat (in_offs cb) - unat (out_offs cb)"
      by (rule ring_distance_ahead) (rule w(2))
    then have "cb_count cb = unat (in_offs cb) - unat (out_offs cb)"
      using False by (simp add: cb_count_def MAXW_def)
    with True False lt show ?thesis
      by (simp only: num_iterations_def u word_of_int_diff_nat less_imp_le if_True if_False)
  next
    case nlt: False
    then have "unat (in_offs cb) < unat (out_offs cb)" using ne by (simp add: word_less_nat_alt)
    with w have "cb_count cb = 10 - unat (out_offs cb) + unat (in_offs cb)"
      using False by (simp add: cb_count_def MAXW_def)
    then have c: "cb_count cb = (unat (in_offs cb) + 10) - unat (out_offs cb)"
      using w(3) by simp
    have "int MAXW - int (unat (out_offs cb)) + int (unat (in_offs cb))
        = int (unat (in_offs cb) + 10) - int (unat (out_offs cb))"
      by (simp add: MAXW_def)
    then have "num_iterations cb
        = word_of_int (int (unat (in_offs cb) + 10) - int (unat (out_offs cb)))"
      using nlt False by (simp only: num_iterations_def u if_False)
    with c w(3) show ?thesis
      by (simp only: word_of_int_diff_nat trans_le_add2 less_imp_le)
  qed
qed

lemma entry_at_slot:
  assumes "cb_wf cb" and "unat posn = (unat (out_offs cb) + k) mod 10"
  shows "entry_at cb (unat posn) = Some (slot cb k)"
  using cb_wfD [OF assms(1)] assms(2) by (simp add: entry_at_def slot_def MAXW_def)

lemma next_offs_slot:
  "unat posn = (unat (out_offs cb) + k) mod 10 \<Longrightarrow>
     unat (next_offs posn) = (unat (out_offs cb) + Suc k) mod 10"
  by (simp add: mod_Suc_eq)

section \<open>The loops compute over the live entries\<close>

lemma get_length_loop_sum:
  "i + k \<le> length (entry cb) \<Longrightarrow> get_length_loop cb k i t
     = Some (t + (\<Sum>e\<leftarrow>take k (drop i (entry cb)). if buffptr e \<noteq> NULL then esize e else 0))"
proof (induction k arbitrary: i t)
  case 0
  then show ?case by simp
next
  case (Suc k)
  then have "drop i (entry cb) = entry cb ! i # drop (Suc i) (entry cb)"
    by (simp add: Cons_nth_drop_Suc)
  with Suc show ?case by (simp add: entry_at_def add.assoc)
qed

text \<open>The slots in ring order are a rotation of the array.\<close>

lemma slots_rotate:
  assumes "cb_wf cb"
  shows "map (slot cb) [0..<10] = rotate (unat (out_offs cb)) (entry cb)"
  using cb_wfD [OF assms]
  by (intro nth_equalityI) (auto simp: slot_def MAXW_def nth_rotate)

lemma slots_live_dead:
  assumes "cb_wf cb"
  shows "map (slot cb) [0..<10] = cb_live cb @ replicate (10 - cb_count cb) null_entry"
proof -
  have "[0..<10] = [0..<cb_count cb] @ [cb_count cb..<10]"
    using cb_count_le [of cb] by (metis le_add_diff_inverse upt_add_eq_append zero_le)
  moreover have "map (slot cb) [cb_count cb..<10] = replicate (10 - cb_count cb) null_entry"
    using assms by (intro nth_equalityI) (auto simp: cb_wf_def MAXW_def)
  ultimately show ?thesis by (simp add: cb_live_def)
qed

text \<open>Summing over the array in storage order or over the live entries is the same.\<close>

lemma sum_entries_live:
  fixes f :: "aesd_buffer_entry \<Rightarrow> 'a::comm_monoid_add"
  assumes "cb_wf cb" and "f null_entry = 0"
  shows "(\<Sum>e\<leftarrow>entry cb. f e) = (\<Sum>e\<leftarrow>cb_live cb. f e)"
proof -
  have "(\<Sum>e\<leftarrow>entry cb. f e) = (\<Sum>e\<leftarrow>rotate (unat (out_offs cb)) (entry cb). f e)"
    by (simp add: sum_list_rotate)
  also have "\<dots> = (\<Sum>e\<leftarrow>cb_live cb. f e) + (\<Sum>e\<leftarrow>replicate (10 - cb_count cb) null_entry. f e)"
    by (simp flip: slots_rotate [OF assms(1)] add: slots_live_dead [OF assms(1)])
  also have "(\<Sum>e\<leftarrow>replicate (10 - cb_count cb) null_entry. f e) = 0"
    using assms(2) by (simp add: map_replicate_const sum_list_replicate_zero)
  finally show ?thesis by simp
qed

lemma get_length_live:
  assumes "cb_wf cb" and "\<forall>e \<in> set (cb_live cb). buffptr e \<noteq> NULL"
  shows "aesd_circular_buffer_get_length (Some cb) = Some (\<Sum>e\<leftarrow>cb_live cb. esize e)"
proof -
  let ?f = "\<lambda>e. if buffptr e \<noteq> NULL then esize e else 0"
  have "aesd_circular_buffer_get_length (Some cb) = Some (\<Sum>e\<leftarrow>entry cb. ?f e)"
    using get_length_loop_sum [of 0 10 cb 0] cb_wfD(1) [OF assms(1)]
    by (simp add: aesd_circular_buffer_get_length_def MAXW_def)
  also have "(\<Sum>e\<leftarrow>entry cb. ?f e) = (\<Sum>e\<leftarrow>cb_live cb. ?f e)"
    by (rule sum_entries_live [OF assms(1)]) (simp add: null_entry_def)
  also have "(\<Sum>e\<leftarrow>cb_live cb. ?f e) = (\<Sum>e\<leftarrow>cb_live cb. esize e)"
    using assms(2) by (intro arg_cong [where f = sum_list] map_cong) auto
  finally show ?thesis .
qed

lemma scan_entry_spec:
  "unat cum + (unat sz - unat j) < 2 ^ 64 \<Longrightarrow>
   scan_entry sz off j cum =
     (if unat cum \<le> unat off \<and> unat off < unat cum + (unat sz - unat j)
      then (Some (j + (off - cum)), off)
      else (None, if j < sz then cum + (sz - j) else cum))"
proof (induction sz off j cum rule: scan_entry.induct)
  case (1 sz off j cum)
  show ?case
  proof (cases "j < sz")
    case False
    then show ?thesis by (subst scan_entry.simps) (simp add: word_less_nat_alt)
  next
    case lt: True
    show ?thesis
    proof (cases "cum = off")
      case True
      with lt show ?thesis by (subst scan_entry.simps) (simp add: word_less_nat_alt)
    next
      case False
      have j1: "unat (j + 1) = Suc (unat j)" by (rule unat_succ_below [OF lt])
      have c1: "unat (cum + 1) = Suc (unat cum)"
        using "1.prems" lt by (subst unat_add_exact) (auto simp: word_less_nat_alt)
      have ne: "unat cum \<noteq> unat off" using False by (simp add: word_unat_eq_iff)
      have last: "\<not> j + 1 < sz \<Longrightarrow> j + 1 = sz"
        using lt j1 by (simp add: word_less_nat_alt word_unat_eq_iff)
      have "scan_entry sz off j cum = scan_entry sz off (j + 1) (cum + 1)"
        using lt False by (subst scan_entry.simps) simp
      also have "\<dots> = (if unat (cum + 1) \<le> unat off
              \<and> unat off < unat (cum + 1) + (unat sz - unat (j + 1))
            then (Some ((j + 1) + (off - (cum + 1))), off)
            else (None, if j + 1 < sz then (cum + 1) + (sz - (j + 1)) else cum + 1))"
        using "1.IH" [OF lt False] "1.prems" j1 c1 lt by (simp add: word_less_nat_alt)
      finally show ?thesis
        using lt ne j1 c1 last by (auto simp: word_less_nat_alt algebra_simps)
    qed
  qed
qed

text \<open>
  The outer loop, from its \<open>k\<close>-th iteration on: it finds what \<open>locate\<close> finds in the sizes
  of the remaining entries.
\<close>

definition sizes_from :: "aesd_circular_buffer \<Rightarrow> nat \<Rightarrow> nat list" where
  "sizes_from cb k = map (\<lambda>m. unat (esize (slot cb m))) [k..<cb_count cb]"

lemma sizes_from_0: "sizes_from cb 0 = cb_sizes cb"
  by (simp add: sizes_from_def cb_sizes_def cb_live_def)

lemma sizes_from_Cons:
  "k < cb_count cb \<Longrightarrow> sizes_from cb k = unat (esize (slot cb k)) # sizes_from cb (Suc k)"
  by (simp add: sizes_from_def upt_conv_Cons)

lemma sizes_from_end: "cb_count cb \<le> k \<Longrightarrow> sizes_from cb k = []"
  by (simp add: sizes_from_def)

definition ring_pos :: "aesd_circular_buffer \<Rightarrow> nat \<Rightarrow> uint8_t" where
  "ring_pos cb k = of_nat ((unat (out_offs cb) + k) mod 10)"

lemma unat_ring_pos [simp]: "unat (ring_pos cb k) = (unat (out_offs cb) + k) mod 10"
  by (simp add: ring_pos_def)

lemma next_ring_pos: "next_offs (ring_pos cb k) = ring_pos cb (Suc k)"
  by (simp add: word_unat_eq_iff mod_Suc_eq)

lemma ring_pos_0: "cb_wf cb \<Longrightarrow> ring_pos cb 0 = out_offs cb"
  using cb_wfD(3) [of cb] by (simp add: word_unat_eq_iff)

lemma entry_at_ring_pos: "cb_wf cb \<Longrightarrow> entry_at cb (unat (ring_pos cb k)) = Some (slot cb k)"
  by (rule entry_at_slot) simp_all

definition loop_result :: "aesd_circular_buffer \<Rightarrow> nat \<Rightarrow> (nat \<times> nat) option \<Rightarrow>
    (uint8_t \<times> size_t) option" where
  "loop_result cb k r = map_option (\<lambda>(q, j). (ring_pos cb (k + q), of_nat j)) r"

lemma find_loop_locate:
  assumes "cb_wf cb" and "k \<le> cb_count cb"
    and "unat cum \<le> unat off" and "unat cum + sum_list (sizes_from cb k) < 2 ^ 64"
  shows "find_loop cb (of_nat (cb_count cb)) off (of_nat k) (ring_pos cb k) cum
     = Some (loop_result cb k (locate (sizes_from cb k) (unat off - unat cum)))"
  using assms(2-4)
proof (induction "cb_count cb - k" arbitrary: k cum)
  case 0
  then have "k = cb_count cb" by simp
  then show ?case
    by (subst find_loop.simps) (simp add: sizes_from_end loop_result_def)
next
  case (Suc d)
  then have lt: "k < cb_count cb" by simp
  have lt': "(of_nat k :: size_t) < of_nat (cb_count cb)"
    using lt cb_count_le [of cb] by (simp add: of_nat_size_less)
  let ?s = "esize (slot cb k)"
  note sizes = sizes_from_Cons [OF lt]
  have sum: "unat cum + (unat ?s + sum_list (sizes_from cb (Suc k))) < 2 ^ 64"
    using Suc.prems(3) by (simp add: sizes)
  have u: "unat (cum + ?s) = unat cum + unat ?s"
    using sum by (intro unat_add_exact) simp
  have scan: "scan_entry ?s off 0 cum =
      (if unat off - unat cum < unat ?s then (Some (off - cum), off) else (None, cum + ?s))"
    using scan_entry_spec [of cum ?s 0 off] Suc.prems(2) sum
    by (auto simp: word_less_nat_alt word_unat_eq_iff u)
  show ?case
  proof (cases "unat off - unat cum < unat ?s")
    case True
    moreover have "off - cum = of_nat (unat off - unat cum)"
      using Suc.prems(2) by (simp add: of_nat_diff)
    ultimately show ?thesis
      using lt' scan assms(1)
      by (subst find_loop.simps) (simp add: entry_at_ring_pos sizes loop_result_def del: unat_ring_pos)
  next
    case False
    have "find_loop cb (of_nat (cb_count cb)) off (of_nat k) (ring_pos cb k) cum
        = find_loop cb (of_nat (cb_count cb)) off (of_nat (Suc k)) (ring_pos cb (Suc k)) (cum + ?s)"
      using False lt' scan assms(1)
      by (subst find_loop.simps) (simp add: entry_at_ring_pos next_ring_pos size_succ
            del: unat_ring_pos of_nat_Suc)
    also have "\<dots> = Some (loop_result cb (Suc k)
        (locate (sizes_from cb (Suc k)) (unat off - unat (cum + ?s))))"
      using Suc.hyps(2) lt False Suc.prems(2) sum u
      by (intro Suc.hyps(1)) simp_all
    finally show ?thesis
      using False u by (simp add: sizes loop_result_def option.map_comp comp_def split_def)
  qed
qed

lemma find_entry_locate:
  assumes wf: "cb_wf cb" and tot: "cb_total cb < 2 ^ 64"
  shows "aesd_circular_buffer_find_entry_offset_for_fpos (Some cb) off (Some v) =
     Some (case locate (cb_sizes cb) (unat off) of
             Some (q, j) \<Rightarrow> (Some (ring_pos cb q), Some (of_nat j))
           | None \<Rightarrow> (None, Some (if buffer_empty cb then v else 0)))"
proof (cases "buffer_empty cb")
  case True
  then have "cb_sizes cb = []" using cb_count_bounds(3) [OF wf] by (simp flip: length_0_conv)
  with True show ?thesis by (simp add: aesd_circular_buffer_find_entry_offset_for_fpos_def)
next
  case False
  have "find_loop cb (of_nat (cb_count cb)) off (of_nat 0) (ring_pos cb 0) 0
      = Some (loop_result cb 0 (locate (cb_sizes cb) (unat off)))"
    using find_loop_locate [OF wf, of 0 0 off] tot by (simp add: sizes_from_0 cb_total_def)
  with False show ?thesis
    by (auto simp: aesd_circular_buffer_find_entry_offset_for_fpos_def ring_pos_0 [OF wf]
        num_iterations_eq [OF wf] loop_result_def split: option.splits)
qed

lemma seekto_loop_sum:
  assumes "cb_wf cb" and "k \<le> w" and "w \<le> cb_count cb"
  shows "seekto_loop cb (of_nat (cb_count cb)) (of_nat w) (of_nat k) (ring_pos cb k) cum
     = Some (ring_pos cb w, cum + (\<Sum>m\<leftarrow>[k..<w]. esize (slot cb m)))"
  using assms(2)
proof (induction "w - k" arbitrary: k cum)
  case 0
  then show ?case by (subst seekto_loop.simps) simp
next
  case (Suc d)
  then have lt: "k < w" by simp
  have n: "w < 2 ^ 64" "cb_count cb < 2 ^ 64" using assms(3) cb_count_le [of cb] by simp_all
  have "(of_nat k :: size_t) < of_nat (cb_count cb)" "(of_nat k :: size_t) \<noteq> of_nat w"
    using lt assms(3) n by (simp_all add: of_nat_size_less of_nat_size_eq)
  then have "seekto_loop cb (of_nat (cb_count cb)) (of_nat w) (of_nat k) (ring_pos cb k) cum
      = seekto_loop cb (of_nat (cb_count cb)) (of_nat w) (of_nat (Suc k)) (ring_pos cb (Suc k))
          (cum + esize (slot cb k))"
    using assms(1)
    by (subst seekto_loop.simps) (simp add: entry_at_ring_pos next_ring_pos size_succ
            del: unat_ring_pos of_nat_Suc)
  also have "\<dots> = Some (ring_pos cb w,
      cum + esize (slot cb k) + (\<Sum>m\<leftarrow>[Suc k..<w]. esize (slot cb m)))"
    using Suc lt by (intro Suc.hyps(1)) simp_all
  finally show ?case using lt by (simp add: upt_conv_Cons add.assoc)
qed

lemma sum_slots_take:
  assumes "w \<le> cb_count cb"
  shows "(\<Sum>m\<leftarrow>[0..<w]. unat (esize (slot cb m))) = sum_list (take w (cb_sizes cb))"
proof -
  have "take w (cb_sizes cb) = map (\<lambda>m. unat (esize (slot cb m))) [0..<w]"
    using assms by (simp add: cb_sizes_def cb_live_def take_map)
  then show ?thesis by simp
qed

lemma of_nat_sum_list_unat: "(\<Sum>x\<leftarrow>xs. (f x :: size_t)) = of_nat (\<Sum>x\<leftarrow>xs. unat (f x))"
  by (induction xs) simp_all

lemma take_sum_le: "sum_list (take w (xs :: nat list)) \<le> sum_list xs"
  by (metis append_take_drop_id le_add1 sum_list_append)

lemma find_seekto_spec:
  assumes "cb_wf cb" and "\<not> buffer_empty cb"
  shows "aesd_circular_buffer_find_seekto_fpos (Some cb) wc off =
     Some (if unat wc \<le> cb_count cb \<and> unat off \<le> unat (esize (slot cb (unat wc)))
           then of_nat (sum_list (take (unat wc) (cb_sizes cb)) + unat off) else - 1)"
proof -
  let ?w = "ucast wc :: size_t"
  have w: "?w = of_nat (unat wc)" by (simp add: word_unat_eq_iff)
  have n: "num_iterations cb = of_nat (cb_count cb)" "cb_count cb < 2 ^ 64"
    using num_iterations_eq [OF assms] cb_count_le [of cb] by simp_all
  have gt: "?w > num_iterations cb \<longleftrightarrow> \<not> unat wc \<le> cb_count cb"
    using n by (simp add: word_less_nat_alt not_le)
  show ?thesis
  proof (cases "unat wc \<le> cb_count cb")
    case False
    with gt assms(2) show ?thesis by (simp add: aesd_circular_buffer_find_seekto_fpos_def)
  next
    case True
    have "seekto_loop cb (num_iterations cb) ?w 0 (out_offs cb) 0
        = Some (ring_pos cb (unat wc), \<Sum>m\<leftarrow>[0..<unat wc]. esize (slot cb m))"
      using seekto_loop_sum [OF assms(1) le0 True, of 0]
      unfolding w n(1) by (simp add: ring_pos_0 [OF assms(1)])
    moreover have "(\<Sum>m\<leftarrow>[0..<unat wc]. esize (slot cb m))
        = of_nat (sum_list (take (unat wc) (cb_sizes cb)))"
      by (simp only: of_nat_sum_list_unat sum_slots_take [OF True])
    ultimately show ?thesis
      using True gt assms(2) entry_at_ring_pos [OF assms(1), of "unat wc"]
      by (simp add: aesd_circular_buffer_find_seekto_fpos_def word_less_nat_alt not_le
          del: unat_ring_pos)
  qed
qed

section \<open>Adding an entry\<close>

definition displaced :: "aesd_circular_buffer \<Rightarrow> addr" where
  "displaced cb = (if full cb then buffptr (slot cb 0) else NULL)"

definition cb_added :: "aesd_circular_buffer \<Rightarrow> aesd_buffer_entry \<Rightarrow> aesd_circular_buffer" where
  "cb_added cb e =
     (let out' = (if full cb then next_offs (out_offs cb) else out_offs cb);
          in' = next_offs (in_offs cb)
      in \<lparr>entry = (entry cb)[unat (in_offs cb) := e], in_offs = in', out_offs = out',
          full = (full cb \<or> in' = out')\<rparr>)"

lemma add_entry_eq:
  assumes "cb_wf cb"
  shows "aesd_circular_buffer_add_entry (Some cb) (Some e)
     = Some (displaced cb, Some (cb_added cb e))"
proof -
  note w = cb_wfD [OF assms]
  have "entry_at cb (unat (out_offs cb)) = Some (slot cb 0)"
    using entry_at_slot [OF assms, of "out_offs cb" 0] w(3) by simp
  then show ?thesis
    using w by (auto simp: aesd_circular_buffer_add_entry_def store_entry_def Let_def
        displaced_def cb_added_def)
qed

lemma ring_write_other:
  "a < 10 \<Longrightarrow> c < 10 \<Longrightarrow> k < 10 \<Longrightarrow> k \<noteq> c \<Longrightarrow> (a + k) mod 10 \<noteq> (a + c) mod (10 :: nat)"
  by (auto simp: mod_if split: if_splits)

lemma ring_wraps: "a < 10 \<Longrightarrow> c < 10 \<Longrightarrow> (a + Suc c) mod 10 = a \<longleftrightarrow> Suc c = (10 :: nat)"
  by (auto simp: mod_if split: if_splits)

lemma ring_distance: "a < 10 \<Longrightarrow> c < 10 \<Longrightarrow> ((a + c) mod 10 + (10 - a)) mod 10 = (c :: nat)"
  by (auto simp: mod_if split: if_splits)

lemma ring_shift: "a < 10 \<Longrightarrow> (Suc a mod 10 + k) mod 10 = (a + Suc k) mod (10 :: nat)"
  by (simp add: mod_simps)

lemma cb_added_slots:
  assumes "cb_wf cb" and "\<not> full cb" and "k < 10"
  shows "slot (cb_added cb e) k = (if k = cb_count cb then e else slot cb k)"
proof -
  note w = cb_wfD [OF assms(1)] and c = cb_count_bounds [OF assms(1)]
  have "cb_count cb < 10" using c(2) cb_count_le [of cb] assms(2) by linarith
  then show ?thesis
    using assms(2,3) w c(1) ring_write_other [of "unat (out_offs cb)" "cb_count cb" k]
    by (auto simp: slot_def cb_added_def Let_def MAXW_def)
qed

lemma cb_added_count:
  assumes "cb_wf cb"
  shows "cb_count (cb_added cb e) = (if full cb then 10 else Suc (cb_count cb))"
proof (cases "full cb")
  case True
  then show ?thesis by (simp add: cb_count_def cb_added_def Let_def MAXW_def)
next
  case False
  note w = cb_wfD [OF assms(1)] and c = cb_count_bounds [OF assms(1)]
  have "cb_count cb < 10" using c(2) cb_count_le [of cb] False by linarith
  let ?a = "unat (out_offs cb)" and ?c = "cb_count cb"
  have i: "unat (in_offs cb) = (?a + ?c) mod 10" using c(1) by simp
  have eq: "next_offs (in_offs cb) = out_offs cb \<longleftrightarrow> (?a + Suc ?c) mod 10 = ?a"
    by (simp add: word_unat_eq_iff i mod_Suc_eq)
  have "(?a + Suc ?c) mod 10 = ?a \<longleftrightarrow> Suc ?c = 10"
    using w(3) \<open>?c < 10\<close> by (rule ring_wraps)
  moreover have "((?a + Suc ?c) mod 10 + (10 - ?a)) mod 10 = Suc ?c" if "Suc ?c \<noteq> 10"
    using w(3) \<open>?c < 10\<close> that by (intro ring_distance) simp_all
  moreover have "cb_count (cb_added cb e) = (if next_offs (in_offs cb) = out_offs cb then 10
      else (unat (next_offs (in_offs cb)) + (10 - ?a)) mod 10)"
    using False by (simp add: cb_count_def [of "cb_added cb e"]) (simp add: cb_added_def MAXW_def Let_def)
  moreover have "unat (next_offs (in_offs cb)) = (?a + Suc ?c) mod 10"
    by (simp add: i mod_Suc_eq)
  ultimately show ?thesis using False eq by simp
qed

lemma cb_added_live:
  assumes "cb_wf cb"
  shows "cb_live (cb_added cb e) = last_n 10 (cb_live cb @ [e])"
proof (cases "full cb")
  case False
  note c = cb_count_bounds [OF assms]
  have lt: "cb_count cb < 10" using c(2) cb_count_le [of cb] False by linarith
  have "cb_live (cb_added cb e) = cb_live cb @ [e]"
    using False lt
    by (simp add: cb_live_def cb_added_count [OF assms] cb_added_slots [OF assms] cong: map_cong)
  with lt show ?thesis by simp
next
  case True
  note w = cb_wfD [OF assms]
  have ten: "cb_count cb = 10" using True by (simp add: cb_count_def MAXW_def)
  have "slot (cb_added cb e) k = (if k = 9 then e else slot cb (Suc k))" if "k < 10" for k
    using that True w ring_write_other [of "unat (out_offs cb)" 0 "Suc k"]
    by (auto simp: slot_def cb_added_def Let_def MAXW_def ring_shift)
  then have "cb_live (cb_added cb e) = tl (cb_live cb) @ [e]"
    using True ten
    by (intro nth_equalityI) (auto simp: cb_added_count [OF assms] nth_cb_live nth_append nth_tl)
  with ten show ?thesis by (simp add: last_n_snoc_full)
qed

lemma cb_added_wf:
  assumes "cb_wf cb"
  shows "cb_wf (cb_added cb e)"
proof -
  note w = cb_wfD [OF assms] and n = cb_added_count [OF assms]
  have "slot (cb_added cb e) k = null_entry" if "k \<in> {cb_count (cb_added cb e)..<10}" for k
    using that assms cb_added_slots [OF assms, of k e]
    by (cases "full cb") (auto simp: n cb_wf_def MAXW_def)
  then show ?thesis
    using w by (auto simp: cb_wf_def cb_added_def Let_def MAXW_def)
qed

lemma cb_init_wf: "cb_wf aesd_circular_buffer_init" "cb_live aesd_circular_buffer_init = []"
  by (auto simp: cb_wf_def cb_live_def cb_count_def slot_def aesd_circular_buffer_init_def MAXW_def)

section \<open>The buffer is a bounded log\<close>

definition cb_add :: "aesd_circular_buffer \<Rightarrow> aesd_buffer_entry \<Rightarrow>
    (addr \<times> aesd_circular_buffer) option" where
  "cb_add cb e =
     do { (p, cb') \<leftarrow> aesd_circular_buffer_add_entry (Some cb) (Some e);
          b \<leftarrow> cb';
          Some (p, b) }"

interpretation cbl: bounded_log MAXW aesd_circular_buffer_init cb_add cb_live cb_wf buffptr NULL
proof (unfold_locales, goal_cases)
  case 1
  show ?case by (simp add: MAXW_def)
next
  case 2
  show ?case by (rule cb_init_wf)
next
  case 3
  show ?case by (rule cb_init_wf)
next
  case (4 b)
  show ?case using cb_count_le [of b] by (simp add: MAXW_def)
next
  case (5 b e)
  have "displaced b = (if length (cb_live b) = MAXW then buffptr (hd (cb_live b)) else NULL)"
    using cb_count_bounds(2) [OF 5]
    by (auto simp: displaced_def MAXW_def cb_live_def hd_map)
  with 5 show ?case
    by (simp add: cb_add_def add_entry_eq cb_added_wf cb_added_live MAXW_def)
qed

section \<open>Properties of the circular buffer\<close>

text \<open>Eleven entries with distinct pointers, one more than the buffer holds.\<close>

definition sample_entries :: "nat \<Rightarrow> aesd_buffer_entry list" where
  "sample_entries n = map (\<lambda>k. \<lparr>buffptr = of_nat (4096 * Suc k), esize = 3\<rparr>) [0..<n]"

text \<open>C1: whatever is added to an initialised buffer, in any number, every addition is
  defined, the structure stays well formed, and the entries in use are the last ten added,
  oldest first.\<close>

theorem ring_keeps_last_ten:
  "\<exists>ps b. fold_add cb_add aesd_circular_buffer_init es = Some (ps, b) \<and> length ps = length es
     \<and> cb_wf b \<and> cb_live b = last_n 10 es"
  using cbl.fold_add_live [OF cb_init_wf(1), of es] by (simp add: cb_init_wf MAXW_def)

text \<open>C8: the pointers \<open>aesd_circular_buffer_add_entry\<close> hands back to be freed, followed by
  those still in the buffer, are the pointers added, each once and in order: nothing is
  leaked and nothing is handed back twice or while it is in use.\<close>

theorem ring_hands_back_each_pointer_once:
  assumes "\<forall>e \<in> set es. buffptr e \<noteq> NULL"
  shows "\<exists>ps b. fold_add cb_add aesd_circular_buffer_init es = Some (ps, b)
     \<and> filter (\<lambda>p. p \<noteq> NULL) ps @ map buffptr (cb_live b) = map buffptr es"
  using cbl.fold_add_live [OF cb_init_wf(1), of es] assms
    cbl.fold_add_conserves [OF cb_init_wf(1), of es] by (fastforce simp: cb_init_wf)

theorem ring_hands_back_each_pointer_once_witness:
  "\<exists>ps b. fold_add cb_add aesd_circular_buffer_init (sample_entries 11) = Some (ps, b)
     \<and> filter (\<lambda>p. p \<noteq> NULL) ps @ map buffptr (cb_live b) = map buffptr (sample_entries 11)"
  by (rule ring_hands_back_each_pointer_once) (simp add: sample_entries_def upt_rec)

text \<open>C5: the position that \<open>aesd_circular_buffer_find_seekto_fpos\<close> computes for a byte of an
  entry is the one at which \<open>aesd_circular_buffer_find_entry_offset_for_fpos\<close> finds that
  entry and that byte.\<close>

theorem seekto_then_find:
  assumes "cb_wf cb" and "cb_total cb < 2 ^ 64"
    and "unat write_cmd < cb_count cb" and "unat off < unat (esize (slot cb (unat write_cmd)))"
  shows "\<exists>p. aesd_circular_buffer_find_seekto_fpos (Some cb) write_cmd off = Some p
     \<and> unat p = sum_list (take (unat write_cmd) (cb_sizes cb)) + unat off
     \<and> aesd_circular_buffer_find_entry_offset_for_fpos (Some cb) p (Some v)
         = Some (Some (ring_pos cb (unat write_cmd)), Some (ucast off))"
proof -
  let ?w = "unat write_cmd"
  let ?n = "sum_list (take ?w (cb_sizes cb)) + unat off"
  have ne: "\<not> buffer_empty cb" using assms(1,3) cb_count_bounds(3) by fastforce
  have w: "?w < length (cb_sizes cb)" "unat off < cb_sizes cb ! ?w"
    using assms(3,4) by (simp_all add: nth_cb_sizes)
  then have "\<not> sum_list (cb_sizes cb) \<le> ?n"
    using locate_at [OF w] locate_None_iff [of "cb_sizes cb" ?n] by simp
  then have "?n < 2 ^ 64" using assms(2) by (simp add: cb_total_def)
  then have u: "unat (of_nat ?n :: size_t) = ?n" by (rule unat_of_nat_size)
  moreover have "(of_nat (unat off) :: size_t) = ucast off" by (simp add: word_unat_eq_iff)
  ultimately show ?thesis
    using find_seekto_spec [OF assms(1) ne, of write_cmd off] assms(3,4)
      find_entry_locate [OF assms(1,2), of "of_nat ?n" v] locate_at [OF w]
    by (intro exI [of _ "of_nat ?n"]) (simp del: of_nat_add)
qed

text \<open>A buffer that has wrapped around: ten entries of three bytes, the oldest in slot 1.\<close>

definition wrapped_buffer :: aesd_circular_buffer where
  "wrapped_buffer = \<lparr>entry = map (\<lambda>p. \<lparr>buffptr = p, esize = 3\<rparr>)
       [40960, 4096, 8192, 12288, 16384, 20480, 24576, 28672, 32768, 36864],
     in_offs = 1, out_offs = 1, full = True\<rparr>"

lemma slots_10: "[0..<10] = [0, 1, 2, 3, 4, 5, 6, 7, 8, 9]"
  by (simp add: upt_rec)

lemma wrapped_buffer_count: "cb_count wrapped_buffer = 10"
  by (simp add: cb_count_def wrapped_buffer_def MAXW_def)

lemma wrapped_buffer_wf: "cb_wf wrapped_buffer"
  by (simp add: cb_wf_def wrapped_buffer_count MAXW_def) (simp add: wrapped_buffer_def)

lemma wrapped_buffer_live: "cb_live wrapped_buffer = map (\<lambda>p. \<lparr>buffptr = p, esize = 3\<rparr>)
    [4096, 8192, 12288, 16384, 20480, 24576, 28672, 32768, 36864, 40960]"
  unfolding cb_live_def wrapped_buffer_count by (simp add: slots_10 slot_def wrapped_buffer_def MAXW_def)

lemma wrapped_buffer_sizes: "cb_sizes wrapped_buffer = [3, 3, 3, 3, 3, 3, 3, 3, 3, 3]"
  by (simp add: cb_sizes_def wrapped_buffer_live)

theorem seekto_then_find_witness:
  "\<exists>p. aesd_circular_buffer_find_seekto_fpos (Some wrapped_buffer) 4 2 = Some p
     \<and> unat p = 14
     \<and> aesd_circular_buffer_find_entry_offset_for_fpos (Some wrapped_buffer) p (Some 0)
         = Some (Some 5, Some 2)"
proof -
  have "slot wrapped_buffer 4 = \<lparr>buffptr = 20480, esize = 3\<rparr>"
    by (simp add: slot_def wrapped_buffer_def MAXW_def)
  moreover have "ring_pos wrapped_buffer 4 = 5" by (simp add: ring_pos_def wrapped_buffer_def)
  ultimately show ?thesis
    using seekto_then_find [OF wrapped_buffer_wf, of 4 2 0]
    by (simp add: cb_total_def wrapped_buffer_sizes wrapped_buffer_count)
qed

text \<open>C15: the sum \<open>aesd_circular_buffer_get_length\<close> returns is the number of bytes of the entries in
  use: the slots not in use add nothing.\<close>

theorem get_length_is_total:
  assumes "cb_wf cb" and "cb_total cb < 2 ^ 64" and "\<forall>e \<in> set (cb_live cb). buffptr e \<noteq> NULL"
  shows "\<exists>n. aesd_circular_buffer_get_length (Some cb) = Some n \<and> unat n = cb_total cb"
  using get_length_live [OF assms(1,3)] assms(2)
  by (simp add: of_nat_sum_list_unat cb_total_def cb_sizes_def)

theorem get_length_is_total_witness:
  "\<exists>n. aesd_circular_buffer_get_length (Some wrapped_buffer) = Some n \<and> unat n = 30"
  using get_length_is_total [OF wrapped_buffer_wf]
  by (simp add: cb_total_def wrapped_buffer_sizes wrapped_buffer_live)

text \<open>C16: at a position the buffer does not hold,
  \<open>aesd_circular_buffer_find_entry_offset_for_fpos\<close> returns \<open>NULL\<close>; unless the buffer is
  empty it nevertheless overwrites \<open>*entry_offset_byte_rtn\<close> with 0.\<close>

theorem find_entry_absent:
  assumes "cb_wf cb" and "cb_total cb < 2 ^ 64" and "cb_total cb \<le> unat off"
  shows "aesd_circular_buffer_find_entry_offset_for_fpos (Some cb) off (Some v)
     = Some (None, Some (if cb_count cb = 0 then v else 0))"
  using find_entry_locate [OF assms(1,2), of off v] assms(3) cb_count_bounds(3) [OF assms(1)]
  by (simp add: locate_None_iff [THEN iffD2] cb_total_def)

theorem find_entry_absent_witness:
  "aesd_circular_buffer_find_entry_offset_for_fpos (Some wrapped_buffer) 30 (Some 7)
     = Some (None, Some 0)"
  using find_entry_absent [OF wrapped_buffer_wf, of 30 7]
  by (simp add: cb_total_def wrapped_buffer_sizes wrapped_buffer_count)

end
