(* ===== verification/Kernel_Memory.thy ===== *)
theory Kernel_Memory
  imports Aesd_Base
begin

text \<open>
  The part of the Linux kernel the character driver calls and that is not in this
  repository: \<open>kmalloc\<close>, \<open>krealloc\<close>, \<open>kfree\<close>. It is a parameter of the driver's
  model, a record of functions on the heap of allocated blocks; \<open>kernel_ok\<close> states what
  the kernel documents of them. The accesses the driver makes itself (\<open>memcpy\<close>, reading
  through a pointer) are definitions here: an access outside an allocated block, and a free
  of a pointer that is not a live block, is undefined (\<open>None\<close>).
\<close>

section \<open>The heap\<close>

text \<open>Allocated blocks by start address. \<open>kmalloc(0)\<close> returns \<open>ZERO_SIZE_PTR\<close>.\<close>

type_synonym kheap = "addr \<rightharpoonup> byte list"

abbreviation (input) ZERO_SIZE_PTR :: addr where "ZERO_SIZE_PTR \<equiv> 16"

definition no_block :: "addr \<Rightarrow> bool" where
  "no_block p \<longleftrightarrow> p = NULL \<or> p = ZERO_SIZE_PTR"

definition heap_ok :: "kheap \<Rightarrow> bool" where
  [inv_defs]: "heap_ok h \<longleftrightarrow> h NULL = None \<and> h ZERO_SIZE_PTR = None"

text \<open>The bytes a pointer can be followed to.\<close>

definition block :: "kheap \<Rightarrow> addr \<Rightarrow> byte list option" where
  "block h p = (if p = NULL then None else if p = ZERO_SIZE_PTR then Some [] else h p)"

definition read_block :: "kheap \<Rightarrow> addr \<Rightarrow> nat \<Rightarrow> nat \<Rightarrow> byte list option" where
  "read_block h p off n =
     do { b \<leftarrow> block h p;
          if off + n \<le> length b then Some (take n (drop off b)) else None }"

definition write_block :: "kheap \<Rightarrow> addr \<Rightarrow> nat \<Rightarrow> byte list \<Rightarrow> kheap option" where
  "write_block h p off d =
     do { b \<leftarrow> block h p;
          if off + length d \<le> length b
          then Some (if no_block p then h
                     else h(p \<mapsto> take off b @ d @ drop (off + length d) b))
          else None }"

section \<open>The allocator\<close>

record kernel =
  kmalloc :: "kheap \<Rightarrow> size_t \<Rightarrow> addr \<times> kheap"
  krealloc :: "kheap \<Rightarrow> addr \<Rightarrow> size_t \<Rightarrow> addr \<times> kheap"
  kfree :: "kheap \<Rightarrow> addr \<Rightarrow> kheap"

text \<open>No allocation is larger than this: the kernel refuses sizes above \<open>INT_MAX\<close>.\<close>

definition KMALLOC_MAX :: nat where "KMALLOC_MAX = 2 ^ 31"

text \<open>A pointer that may be passed to \<open>kfree\<close> or \<open>krealloc\<close>.\<close>

definition freeable :: "kheap \<Rightarrow> addr \<Rightarrow> bool" where
  "freeable h p \<longleftrightarrow> no_block p \<or> h p \<noteq> None"

text \<open>\<open>allocates h p h' n\<close>: \<open>p\<close> is a block of \<open>n\<close> bytes that is new in \<open>h\<close>.\<close>

definition allocates :: "kheap \<Rightarrow> addr \<Rightarrow> kheap \<Rightarrow> nat \<Rightarrow> bool" where
  "allocates h p h' n \<longleftrightarrow> \<not> no_block p \<and> h p = None \<and> n \<le> KMALLOC_MAX
     \<and> (\<exists>b. length b = n \<and> h' = h(p \<mapsto> b))"

definition kmalloc_ok :: "kernel \<Rightarrow> bool" where
  "kmalloc_ok K \<longleftrightarrow> (\<forall>h. kmalloc K h 0 = (ZERO_SIZE_PTR, h)) \<and>
     (\<forall>h n p h'. 0 < n \<longrightarrow> kmalloc K h n = (p, h') \<longrightarrow>
        (p = NULL \<and> h' = h) \<or> allocates h p h' (unat n))"

text \<open>
  \<open>krealloc\<close> keeps the old contents up to the smaller size, may move the block, frees it
  when the new size is 0, and leaves it alone when it fails.
\<close>

definition krealloc_ok :: "kernel \<Rightarrow> bool" where
  "krealloc_ok K \<longleftrightarrow>
     (\<forall>h p. freeable h p \<longrightarrow> krealloc K h p 0 = (ZERO_SIZE_PTR, if no_block p then h else h(p := None))) \<and>
     (\<forall>h p n q h'. 0 < n \<longrightarrow> freeable h p \<longrightarrow> krealloc K h p n = (q, h') \<longrightarrow>
        (q = NULL \<and> h' = h) \<or>
        (let h0 = (if no_block p then h else h(p := None));
             old = (if no_block p then [] else the (h p))
         in allocates h0 q h' (unat n)
            \<and> take (min (length old) (unat n)) (the (h' q)) = take (unat n) old))"

definition kfree_ok :: "kernel \<Rightarrow> bool" where
  "kfree_ok K \<longleftrightarrow>
     (\<forall>h p. freeable h p \<longrightarrow> kfree K h p = (if no_block p then h else h(p := None)))"

definition kernel_ok :: "kernel \<Rightarrow> bool" where
  "kernel_ok K \<longleftrightarrow> kmalloc_ok K \<and> krealloc_ok K \<and> kfree_ok K"

text \<open>Calls as the driver makes them: the pointer handed over must be live.\<close>

definition do_kfree :: "kernel \<Rightarrow> kheap \<Rightarrow> addr \<Rightarrow> kheap option" where
  "do_kfree K h p = (if freeable h p then Some (kfree K h p) else None)"

definition do_krealloc :: "kernel \<Rightarrow> kheap \<Rightarrow> addr \<Rightarrow> size_t \<Rightarrow> (addr \<times> kheap) option" where
  "do_krealloc K h p n = (if freeable h p then Some (krealloc K h p n) else None)"

section \<open>Facts\<close>

lemma no_block_simps [simp]: "no_block 0" "no_block 16"
  by (simp_all add: no_block_def)

lemma heap_ok_no_block: "heap_ok h \<Longrightarrow> no_block p \<Longrightarrow> h p = None"
  by (auto simp: heap_ok_def no_block_def)

lemma block_live: "\<not> no_block p \<Longrightarrow> block h p = h p"
  by (auto simp: block_def no_block_def)

lemma heap_ok_update: "heap_ok h \<Longrightarrow> \<not> no_block p \<Longrightarrow> heap_ok (h(p \<mapsto> b))"
  by (auto simp: heap_ok_def no_block_def)

lemma heap_ok_delete: "heap_ok h \<Longrightarrow> heap_ok (h(p := None))"
  by (auto simp: heap_ok_def)

lemma kmalloc_cases:
  assumes "kernel_ok K" and "heap_ok h" and "kmalloc K h n = (p, h')"
  obtains (fail) "p = NULL" "h' = h"
  | (zero) "n = 0" "p = ZERO_SIZE_PTR" "h' = h"
  | (block) b where "0 < n" "\<not> no_block p" "h p = None" "length b = unat n"
      "unat n \<le> KMALLOC_MAX" "h' = h(p \<mapsto> b)"
proof (cases "n = 0")
  case True
  with assms zero show ?thesis by (auto simp: kernel_ok_def kmalloc_ok_def)
next
  case False
  then have "0 < n" by (simp add: word_gt_0)
  with assms have "(p = NULL \<and> h' = h) \<or> allocates h p h' (unat n)"
    unfolding kernel_ok_def kmalloc_ok_def by blast
  with fail block \<open>0 < n\<close> show ?thesis by (auto simp: allocates_def)
qed

text \<open>
  The driver only ever grows a block, so the contents survive: \<open>old\<close> is what the pointer
  held before.
\<close>

definition contents :: "kheap \<Rightarrow> addr \<Rightarrow> byte list" where
  "contents h p = (if no_block p then [] else the (h p))"

definition dropped :: "kheap \<Rightarrow> addr \<Rightarrow> kheap" where
  "dropped h p = (if no_block p then h else h(p := None))"

lemma krealloc_cases:
  assumes "kernel_ok K" and "freeable h p" and "krealloc K h p n = (q, h')"
    and "length (contents h p) \<le> unat n"
  obtains (fail) "q = NULL" "h' = h" "0 < n"
  | (zero) "n = 0" "q = ZERO_SIZE_PTR" "h' = dropped h p"
  | (block) c where "0 < n" "\<not> no_block q" "dropped h p q = None" "unat n \<le> KMALLOC_MAX"
      "length (contents h p @ c) = unat n" "h' = (dropped h p)(q \<mapsto> contents h p @ c)"
proof (cases "n = 0")
  case True
  with assms zero show ?thesis by (auto simp: kernel_ok_def krealloc_ok_def dropped_def)
next
  case False
  then have pos: "0 < n" by (simp add: word_gt_0)
  with assms(1-3) consider "q = NULL \<and> h' = h"
    | "allocates (dropped h p) q h' (unat n)"
      "take (min (length (contents h p)) (unat n)) (the (h' q)) = take (unat n) (contents h p)"
    unfolding kernel_ok_def krealloc_ok_def Let_def contents_def dropped_def by blast
  then show ?thesis
  proof cases
    case 1
    with fail pos show ?thesis by blast
  next
    case 2
    then obtain b where b: "\<not> no_block q" "dropped h p q = None" "unat n \<le> KMALLOC_MAX"
        "length b = unat n" "h' = (dropped h p)(q \<mapsto> b)"
      by (auto simp: allocates_def)
    with 2(2) assms(4) have "take (length (contents h p)) b = contents h p" by simp
    then have "b = contents h p @ drop (length (contents h p)) b"
      by (metis append_take_drop_id)
    with b pos show ?thesis by (metis block)
  qed
qed

lemma do_kfree_live: "kernel_ok K \<Longrightarrow> h p \<noteq> None \<Longrightarrow> \<not> no_block p \<Longrightarrow>
    do_kfree K h p = Some (h(p := None))"
  by (simp add: do_kfree_def kernel_ok_def kfree_ok_def freeable_def)

lemma do_kfree_no_block: "kernel_ok K \<Longrightarrow> no_block p \<Longrightarrow> do_kfree K h p = Some h"
  by (simp add: do_kfree_def kernel_ok_def kfree_ok_def freeable_def)

section \<open>A concrete allocator\<close>

text \<open>
  An allocator that satisfies the contract: a fixed arena of addresses, first fit, in-place
  \<open>krealloc\<close> for a live block. Used to evaluate the model on concrete inputs.
\<close>

definition arena :: "addr list" where
  "arena = map (\<lambda>k. of_nat (4096 * Suc k)) [0..<32]"

definition arena_alloc :: "kheap \<Rightarrow> nat \<Rightarrow> byte list \<Rightarrow> addr \<times> kheap" where
  "arena_alloc h n b =
     (if n > KMALLOC_MAX then (NULL, h)
      else case find (\<lambda>a. h a = None) arena of
             None \<Rightarrow> (NULL, h)
           | Some a \<Rightarrow> (a, h(a \<mapsto> b)))"

definition grown :: "byte list \<Rightarrow> nat \<Rightarrow> byte list" where
  "grown old n = take n old @ replicate (n - length old) 165"

definition arena_kernel :: kernel where
  "arena_kernel =
     \<lparr>kmalloc = (\<lambda>h n. if n = 0 then (ZERO_SIZE_PTR, h)
                      else arena_alloc h (unat n) (replicate (unat n) 165)),
      krealloc = (\<lambda>h p n. if n = 0 then (ZERO_SIZE_PTR, dropped h p)
                        else if no_block p
                             then arena_alloc h (unat n) (replicate (unat n) 165)
                        else if unat n > KMALLOC_MAX then (NULL, h)
                        else (p, h(p \<mapsto> grown (contents h p) (unat n)))),
      kfree = (\<lambda>h p. dropped h p)\<rparr>"

lemma arena_no_block: "a \<in> set arena \<Longrightarrow> \<not> no_block a"
proof -
  have "list_all (\<lambda>a. \<not> no_block a) arena"
    unfolding arena_def no_block_def by (simp add: upt_rec)
  then show "a \<in> set arena \<Longrightarrow> \<not> no_block a" by (simp add: list_all_iff)
qed

lemma arena_alloc_cases:
  assumes "arena_alloc h n b = (p, h')" and "length b = n"
  shows "(p = NULL \<and> h' = h) \<or> (allocates h p h' n \<and> h' p = Some b)"
proof -
  have "a \<in> set arena \<and> h a = None" if "find (\<lambda>a. h a = None) arena = Some a" for a
    using that by (auto simp: find_Some_iff)
  with assms arena_no_block show ?thesis
    by (auto simp: arena_alloc_def allocates_def split: if_splits option.splits)
qed

lemma arena_kernel_ok: "kernel_ok arena_kernel"
proof -
  have "(p = NULL \<and> h' = h) \<or> allocates h p h' (unat n)"
    if "0 < n" "kmalloc arena_kernel h n = (p, h')" for h n p h'
    using that arena_alloc_cases [of h "unat n" "replicate (unat n) 165" p h']
    by (auto simp: arena_kernel_def word_gt_0 split: if_splits)
  then have m: "kmalloc_ok arena_kernel"
    unfolding kmalloc_ok_def by (auto simp: arena_kernel_def)
  have "(q = NULL \<and> h' = h) \<or>
      (allocates (dropped h p) q h' (unat n)
         \<and> take (min (length (contents h p)) (unat n)) (the (h' q)) = take (unat n) (contents h p))"
    if "0 < n" "freeable h p" "krealloc arena_kernel h p n = (q, h')" for h p n q h'
  proof (cases "no_block p")
    case True
    with that have "arena_alloc h (unat n) (replicate (unat n) 165) = (q, h')"
      by (auto simp: arena_kernel_def word_gt_0 split: if_splits)
    with True arena_alloc_cases [of h "unat n" "replicate (unat n) 165" q h'] show ?thesis
      by (auto simp: dropped_def contents_def)
  next
    case False
    with that consider "q = NULL" "h' = h"
      | "q = p" "unat n \<le> KMALLOC_MAX" "h' = h(p \<mapsto> grown (contents h p) (unat n))"
      by (auto simp: arena_kernel_def word_gt_0 split: if_splits)
    then show ?thesis
    proof cases
      case 2
      have len: "length (grown (contents h p) (unat n)) = unat n"
        by (simp add: grown_def)
      have tk: "take (min (length (contents h p)) (unat n)) (grown (contents h p) (unat n))
          = take (unat n) (contents h p)"
        by (simp add: grown_def min_def)
      from False 2 len tk show ?thesis
        by (auto simp: allocates_def dropped_def intro: exI [of _ "grown (contents h p) (unat n)"])
    qed simp
  qed
  then have r: "krealloc_ok arena_kernel"
    by (auto simp: krealloc_ok_def Let_def arena_kernel_def dropped_def contents_def
        simp del: fun_upd_apply)
  have f: "kfree_ok arena_kernel" by (simp add: kfree_ok_def arena_kernel_def dropped_def)
  from m r f show ?thesis by (simp add: kernel_ok_def)
qed

end
