(* ===== verification/Char_Driver.thy ===== *)
theory Char_Driver
  imports Circular_Buffer Kernel_Memory
begin

text \<open>
  The handlers of the character driver, \<^verbatim>\<open>aesd-char-driver/main.c\<close>, with the structures
  of \<^verbatim>\<open>aesdchar.h\<close> and \<^verbatim>\<open>aesd_ioctl.h\<close>. A handler takes the module's state, the open
  file, its arguments and what the kernel answers in this call (was the wait for the mutex
  interrupted, how many bytes could not be copied from or to user memory), and returns its
  value and the state afterwards.
\<close>

section \<open>Data\<close>

text \<open>\<open>filp->private_data\<close>: there is one device, \<open>aesd_device\<close>.\<close>

datatype dev_ptr = NullDev | AesdDevice

record kfile =
  private_data :: dev_ptr
  f_pos :: loff_t

record aesd_dev =
  buffer :: aesd_circular_buffer
  new_entry :: aesd_buffer_entry
  lock :: bool        \<comment> \<open>the mutex is held\<close>
  cdev_live :: bool   \<comment> \<open>\<open>cdev\<close> has been added and not deleted\<close>

text \<open>The heap of the kernel, the globals of the module, and the device number region.\<close>

record driver =
  heap :: kheap
  device :: aesd_dev
  aesd_major :: nat
  region :: bool

record aesd_seekto =
  write_cmd :: uint32_t
  write_cmd_offset :: uint32_t

text \<open>A handler returns, or sleeps on a mutex that is not released.\<close>

datatype outcome = Returns ssize_t | Blocks

definition AESD_IOC_MAGIC :: uint32_t where "AESD_IOC_MAGIC = 0x16"

text \<open>\<open>_IOWR(AESD_IOC_MAGIC, 1, struct aesd_seekto)\<close>: direction 3, size 8, type, number.\<close>

definition AESDCHAR_IOCSEEKTO :: uint32_t where
  "AESDCHAR_IOCSEEKTO = 3 * 2 ^ 30 + 8 * 2 ^ 16 + AESD_IOC_MAGIC * 2 ^ 8 + 1"

definition SEEK_SET :: int where "SEEK_SET = 0"
definition SEEK_CUR :: int where "SEEK_CUR = 1"
definition SEEK_END :: int where "SEEK_END = 2"

definition upd_dev :: "(aesd_dev \<Rightarrow> aesd_dev) \<Rightarrow> driver \<Rightarrow> driver" where
  "upd_dev f d = d\<lparr>device := f (device d)\<rparr>"

definition mutex_locked :: "driver \<Rightarrow> driver" where
  "mutex_locked d = upd_dev (\<lambda>v. v\<lparr>lock := True\<rparr>) d"

definition mutex_unlock :: "driver \<Rightarrow> driver" where
  "mutex_unlock d = upd_dev (\<lambda>v. v\<lparr>lock := False\<rparr>) d"

section \<open>open, release\<close>

definition aesd_open :: "kfile \<Rightarrow> outcome \<times> kfile" where
  "aesd_open filp = (Returns 0, filp\<lparr>private_data := AesdDevice\<rparr>)"

definition aesd_release :: "kfile \<Rightarrow> outcome \<times> kfile" where
  "aesd_release filp = (Returns 0, filp\<lparr>private_data := NullDev\<rparr>)"

section \<open>read\<close>

text \<open>
  The result is the returned value, the bytes stored in the user's buffer, \<open>*f_pos\<close>
  afterwards, and the module's state. \<open>copy_status\<close> is what \<open>copy_to_user\<close> answers, the
  number of bytes it could not copy. \<open>*f_pos\<close> is read by the debug print before the null
  checks.
\<close>

definition aesd_read :: "bool \<Rightarrow> size_t \<Rightarrow> kfile option \<Rightarrow> bool \<Rightarrow> size_t \<Rightarrow> loff_t option \<Rightarrow>
    driver \<Rightarrow> (outcome \<times> byte list \<times> loff_t \<times> driver) option" where
  "aesd_read interrupted copy_status filp buf_given count fpos d =
     (case fpos of
        None \<Rightarrow> None
      | Some pos \<Rightarrow>
     (case filp of
        None \<Rightarrow> Some (Returns (- EINVAL), [], pos, d)
      | Some fl \<Rightarrow>
          if \<not> buf_given then Some (Returns (- EINVAL), [], pos, d)
          else if private_data fl = NullDev then Some (Returns (- EINVAL), [], pos, d)
          else if interrupted then Some (Returns (- ERESTARTSYS), [], pos, d)
          else if lock (device d) then Some (Blocks, [], pos, d)
          else do {
            let d1 = mutex_locked d;
            (entryp, off) \<leftarrow> aesd_circular_buffer_find_entry_offset_for_fpos
                              (Some (buffer (device d1))) pos (Some 0);
            case entryp of
              None \<Rightarrow> Some (Returns 0, [], pos, mutex_unlock d1)
            | Some posn \<Rightarrow> do {
                e \<leftarrow> entry_at (buffer (device d1)) (unat posn);
                j \<leftarrow> off;
                let num_copy_bytes = min count (esize e - j);
                data \<leftarrow> read_block (heap d1) (buffptr e) (unat j) (unat num_copy_bytes);
                if copy_status = 0
                then Some (Returns num_copy_bytes, data, pos + num_copy_bytes, mutex_unlock d1)
                else Some (Returns 0, take (unat num_copy_bytes - unat copy_status) data, pos, d1)
                       \<comment> \<open>\<open>return 0\<close> with the mutex held\<close>
              }
          }))"

section \<open>write\<close>

text \<open>The scan for a newline, stopping at the first.\<close>

fun has_newline :: "byte list \<Rightarrow> bool" where
  "has_newline [] = False"
| "has_newline (c # cs) = (if c = NL then True else has_newline cs)"

text \<open>
  The critical section of \<open>aesd_write\<close>, in two parts. \<open>append_pending\<close>: \<open>krealloc\<close> of the
  pending entry, then \<open>memcpy\<close> of the new bytes behind its old ones; when \<open>krealloc\<close>
  fails, \<open>new_entry.buffptr\<close> has been overwritten with \<open>NULL\<close> (and its size has not).
\<close>

definition append_pending :: "kernel \<Rightarrow> addr \<Rightarrow> size_t \<Rightarrow> driver \<Rightarrow> (bool \<times> driver) option" where
  "append_pending K kbuf count d =
     do { let ne = new_entry (device d);
          (p, h1) \<leftarrow> do_krealloc K (heap d) (buffptr ne) (esize ne + count);
          let d1 = upd_dev (\<lambda>v. v\<lparr>new_entry := ne\<lparr>buffptr := p\<rparr>\<rparr>) (d\<lparr>heap := h1\<rparr>);
          if p = NULL
          then do { h2 \<leftarrow> do_kfree K h1 kbuf;
                    Some (False, d1\<lparr>heap := h2\<rparr>) }
          else do { kdata \<leftarrow> read_block h1 kbuf 0 (unat count);
                    h2 \<leftarrow> write_block h1 p (unat (esize ne)) kdata;
                    Some (True, upd_dev (\<lambda>v. v\<lparr>new_entry := \<lparr>buffptr = p, esize = esize ne + count\<rparr>\<rparr>)
                                  (d1\<lparr>heap := h2\<rparr>)) } }"

text \<open>
  \<open>commit_entry\<close>: the pending entry goes into the circular buffer, the storage of the
  displaced entry is freed, the pending entry is reset.
\<close>

definition commit_entry :: "kernel \<Rightarrow> driver \<Rightarrow> driver option" where
  "commit_entry K d =
     do { (buffptr_to_free, cb) \<leftarrow> aesd_circular_buffer_add_entry
                                     (Some (buffer (device d))) (Some (new_entry (device d)));
          b \<leftarrow> cb;
          h \<leftarrow> (if buffptr_to_free \<noteq> NULL then do_kfree K (heap d) buffptr_to_free
               else Some (heap d));
          Some (upd_dev (\<lambda>v. v\<lparr>buffer := b, new_entry := null_entry\<rparr>) (d\<lparr>heap := h\<rparr>)) }"

definition aesd_write :: "kernel \<Rightarrow> size_t \<Rightarrow> kfile option \<Rightarrow> byte list option \<Rightarrow> size_t \<Rightarrow>
    loff_t option \<Rightarrow> driver \<Rightarrow> (outcome \<times> driver) option" where
  "aesd_write K copy_status filp buf count fpos d =
     (case (filp, buf, fpos) of
        (Some fl, Some user_bytes, Some _) \<Rightarrow>
          (case kmalloc K (heap d) count of (kbuf, h1) \<Rightarrow>
             if kbuf = NULL then Some (Returns (- ENOMEM), d)
             else if copy_status \<noteq> 0 then Some (Returns (- EFAULT), d\<lparr>heap := h1\<rparr>)
             else do {
               h2 \<leftarrow> write_block h1 kbuf 0 (take (unat count) user_bytes);
               kdata \<leftarrow> read_block h2 kbuf 0 (unat count);
               let d2 = d\<lparr>heap := h2\<rparr>;
               let write_to_cb = has_newline kdata;
               if private_data fl = NullDev then Some (Returns (- EINVAL), d2)
               else if lock (device d2) then Some (Blocks, d2)
               else do {
                 (appended, d3) \<leftarrow> append_pending K kbuf count (mutex_locked d2);
                 if \<not> appended then Some (Returns (- ENOMEM), mutex_unlock d3)
                 else do {
                   d4 \<leftarrow> (if write_to_cb then commit_entry K d3 else Some d3);
                   Some (Returns count, mutex_unlock d4)
                 }
               }
             })
      | _ \<Rightarrow> Some (Returns (- EINVAL), d))"

section \<open>llseek, ioctl\<close>

definition aesd_llseek :: "bool \<Rightarrow> kfile option \<Rightarrow> loff_t \<Rightarrow> int \<Rightarrow> driver \<Rightarrow>
    (outcome \<times> kfile option \<times> driver) option" where
  "aesd_llseek interrupted filp offset whence d =
     (case filp of
        None \<Rightarrow> Some (Returns (- EINVAL), filp, d)
      | Some fl \<Rightarrow>
          if private_data fl = NullDev then Some (Returns (- EINVAL), filp, d)
          else if interrupted then Some (Returns (- ERESTARTSYS), filp, d)
          else if lock (device d) then Some (Blocks, filp, d)
          else do {
            total_size \<leftarrow> aesd_circular_buffer_get_length (Some (buffer (device (mutex_locked d))));
            let d1 = mutex_unlock (mutex_locked d);
            if whence \<notin> {SEEK_SET, SEEK_CUR, SEEK_END} then Some (Returns (- EINVAL), filp, d1)
            else do {
              let new_f_pos = (if whence = SEEK_SET then offset
                               else if whence = SEEK_CUR then f_pos fl + offset
                               else total_size + offset);
              if sint new_f_pos < 0 \<or> new_f_pos > total_size
              then Some (Returns (- EINVAL), filp, d1)
              else Some (Returns new_f_pos, Some (fl\<lparr>f_pos := new_f_pos\<rparr>), d1)
            }
          })"

definition aesd_ioctl :: "bool \<Rightarrow> size_t \<Rightarrow> kfile option \<Rightarrow> uint32_t \<Rightarrow> aesd_seekto \<Rightarrow> driver \<Rightarrow>
    (outcome \<times> kfile option \<times> driver) option" where
  "aesd_ioctl interrupted copy_status filp cmd arg d =
     (if cmd \<noteq> AESDCHAR_IOCSEEKTO then Some (Returns (- ENOTTY), filp, d)
      else case filp of
        None \<Rightarrow> Some (Returns (- EINVAL), filp, d)
      | Some fl \<Rightarrow>
          if private_data fl = NullDev then Some (Returns (- EINVAL), filp, d)
          else if copy_status \<noteq> 0 then Some (Returns (- EFAULT), filp, d)
          else if interrupted then Some (Returns (- ERESTARTSYS), filp, d)
          else if lock (device d) then Some (Blocks, filp, d)
          else do {
            new_f_pos \<leftarrow> aesd_circular_buffer_find_seekto_fpos
                           (Some (buffer (device (mutex_locked d)))) (write_cmd arg) (write_cmd_offset arg);
            let d1 = mutex_unlock (mutex_locked d);
            if new_f_pos = - 1 then Some (Returns (- EINVAL), filp, d1)
            else Some (Returns 0, Some (fl\<lparr>f_pos := new_f_pos\<rparr>), d1)
          })"

section \<open>Module init and exit\<close>

text \<open>\<open>cdev_err\<close> is what \<open>cdev_add\<close> returns.\<close>

definition aesd_setup_cdev :: "int \<Rightarrow> driver \<Rightarrow> int \<times> driver" where
  "aesd_setup_cdev cdev_err d =
     (cdev_err, upd_dev (\<lambda>v. v\<lparr>cdev_live := (cdev_err = 0)\<rparr>) d)"

definition zero_dev :: aesd_dev where
  "zero_dev = \<lparr>buffer = \<lparr>entry = replicate MAXW null_entry, in_offs = 0, out_offs = 0, full = False\<rparr>,
     new_entry = null_entry, lock = False, cdev_live = False\<rparr>"

text \<open>\<open>alloc_result\<close> and \<open>major\<close> are what \<open>alloc_chrdev_region\<close> answers.\<close>

definition aesd_init_module :: "int \<Rightarrow> nat \<Rightarrow> int \<Rightarrow> driver \<Rightarrow> int \<times> driver" where
  "aesd_init_module alloc_result major cdev_err d =
     (let d1 = d\<lparr>aesd_major := major\<rparr>
      in if alloc_result < 0 then (alloc_result, d1)
         else let d2 = d1\<lparr>region := True, device := zero_dev\<rparr>;
                  d3 = upd_dev (\<lambda>v. v\<lparr>buffer := aesd_circular_buffer_init\<rparr>) d2;
                  d4 = upd_dev (\<lambda>v. v\<lparr>new_entry := \<lparr>buffptr = NULL, esize = 0\<rparr>\<rparr>) d3;
                  d5 = mutex_unlock d4;
                  (result, d6) = aesd_setup_cdev cdev_err d5
              in (result, if result \<noteq> 0 then d6\<lparr>region := False\<rparr> else d6))"

text \<open>\<open>AESD_CIRCULAR_BUFFER_FOREACH\<close> with the body of the exit function.\<close>

fun free_entries :: "kernel \<Rightarrow> nat list \<Rightarrow> kheap \<Rightarrow> aesd_circular_buffer \<Rightarrow>
    (kheap \<times> aesd_circular_buffer) option" where
  "free_entries K [] h cb = Some (h, cb)"
| "free_entries K (index # is) h cb =
     do { e \<leftarrow> entry_at cb index;
          if buffptr e \<noteq> NULL
          then do { h' \<leftarrow> do_kfree K h (buffptr e);
                    cb' \<leftarrow> store_entry cb index (e\<lparr>buffptr := NULL\<rparr>);
                    free_entries K is h' cb' }
          else free_entries K is h cb }"

definition aesd_cleanup_module :: "kernel \<Rightarrow> driver \<Rightarrow> driver option" where
  "aesd_cleanup_module K d =
     do { let d1 = upd_dev (\<lambda>v. v\<lparr>cdev_live := False\<rparr>) d;
          (h1, cb1) \<leftarrow> free_entries K [0..<MAXW] (heap d1) (buffer (device d1));
          h2 \<leftarrow> (if buffptr (new_entry (device d1)) \<noteq> NULL
                then do_kfree K h1 (buffptr (new_entry (device d1))) else Some h1);
          Some (upd_dev (\<lambda>v. v\<lparr>buffer := cb1\<rparr>) (d1\<lparr>heap := h2, region := False\<rparr>)) }"

end
