(* ===== verification/Driver_Correct.thy ===== *)
theory Driver_Correct
  imports Char_Driver
begin

text \<open>
  What the handlers of the character driver guarantee: the invariant of the device (every
  live entry and the pending entry own a block of the right length, no block is owned
  twice), the abstraction to a list of commands and a pending command, and the effect of
  each handler on both.
\<close>

section \<open>Specification: the device as a list of commands\<close>

text \<open>
  A write with a newline ends the pending command; the device keeps the last ten commands.
  A read returns bytes of one command; positions count through the commands laid end to
  end.
\<close>

definition spec_write :: "byte list \<Rightarrow> byte list list \<times> byte list \<Rightarrow> byte list list \<times> byte list" where
  "spec_write data s =
     (case s of (cmds, pend) \<Rightarrow>
        if NL \<in> set data then (last_n 10 (cmds @ [pend @ data]), [])
        else (cmds, pend @ data))"

definition spec_read :: "byte list list \<Rightarrow> nat \<Rightarrow> nat \<Rightarrow> byte list" where
  "spec_read cmds pos n =
     (case locate (map length cmds) pos of
        None \<Rightarrow> []
      | Some (k, j) \<Rightarrow> take n (drop j (cmds ! k)))"

definition cmd_start :: "byte list list \<Rightarrow> nat \<Rightarrow> nat" where
  "cmd_start cmds k = sum_list (map length (take k cmds))"

lemma spec_read_prefix: "\<exists>rest. drop pos (concat cmds) = spec_read cmds pos n @ rest"
proof (cases "locate (map length cmds) pos")
  case None
  then show ?thesis by (simp add: spec_read_def)
next
  case (Some kj)
  obtain k j where kj: "kj = (k, j)" by (cases kj)
  with locate_Some [of "map length cmds" pos k j] Some
  have *: "k < length cmds" "j < length (cmds ! k)" "pos = cmd_start cmds k + j"
    by (auto simp: cmd_start_def take_map)
  then have "drop pos (concat cmds) = drop j (cmds ! k) @ concat (drop (Suc k) cmds)"
    using drop_concat_take [of k cmds j] by (simp add: cmd_start_def)
  also have "\<dots> = take n (drop j (cmds ! k)) @ (drop n (drop j (cmds ! k)) @ concat (drop (Suc k) cmds))"
    by (simp only: append_assoc [symmetric] append_take_drop_id)
  finally show ?thesis using Some kj by (auto simp: spec_read_def)
qed

lemma spec_read_length: "length (spec_read cmds pos n) \<le> n"
  by (auto simp: spec_read_def split: option.split)

lemma spec_read_Nil_iff:
  "0 < n \<Longrightarrow> spec_read cmds pos n = [] \<longleftrightarrow> length (concat cmds) \<le> pos"
proof (cases "locate (map length cmds) pos")
  case None
  moreover from this have "length (concat cmds) \<le> pos"
    by (simp only: locate_None_iff length_concat_sum)
  ultimately show ?thesis by (simp add: spec_read_def)
next
  case (Some kj)
  obtain k j where "kj = (k, j)" by (cases kj)
  moreover assume "0 < n"
  ultimately show ?thesis
    using Some locate_Some [of "map length cmds" pos k j] locate_None_iff [of "map length cmds" pos]
    by (auto simp: spec_read_def length_concat_sum)
qed

section \<open>Invariant\<close>

text \<open>
  \<open>entry_stored\<close>: the entry owns a block that holds exactly its bytes. The pending entry
  may own nothing; \<open>pending_kept\<close> excludes the state a failed \<open>krealloc\<close> leaves, a size
  without a block.
\<close>

definition holds_block :: "kheap \<Rightarrow> aesd_buffer_entry \<Rightarrow> bool" where
  "holds_block h e \<longleftrightarrow> \<not> no_block (buffptr e) \<and> h (buffptr e) \<noteq> None
     \<and> length (the (h (buffptr e))) = unat (esize e)"

definition entry_stored :: "kheap \<Rightarrow> aesd_buffer_entry \<Rightarrow> bool" where
  "entry_stored h e \<longleftrightarrow> holds_block h e \<and> 0 < unat (esize e) \<and> unat (esize e) \<le> KMALLOC_MAX"

definition pending_stored :: "kheap \<Rightarrow> aesd_buffer_entry \<Rightarrow> bool" where
  "pending_stored h e \<longleftrightarrow> unat (esize e) \<le> KMALLOC_MAX
     \<and> (buffptr e = NULL \<or> (buffptr e = ZERO_SIZE_PTR \<and> esize e = 0) \<or> holds_block h e)"

definition live_ptrs :: "aesd_dev \<Rightarrow> addr list" where
  "live_ptrs v = map buffptr (cb_live (buffer v))"

definition owned :: "aesd_dev \<Rightarrow> addr list" where
  "owned v = live_ptrs v
     @ (if no_block (buffptr (new_entry v)) then [] else [buffptr (new_entry v)])"

definition dev_inv :: "kheap \<Rightarrow> aesd_dev \<Rightarrow> bool" where
  "dev_inv h v \<longleftrightarrow> heap_ok h \<and> cb_wf (buffer v)
     \<and> (\<forall>e \<in> set (cb_live (buffer v)). entry_stored h e)
     \<and> pending_stored h (new_entry v) \<and> distinct (owned v)"

definition pending_kept :: "aesd_dev \<Rightarrow> bool" where
  "pending_kept v \<longleftrightarrow> (buffptr (new_entry v) = NULL \<longrightarrow> esize (new_entry v) = 0)"

definition drv_inv :: "driver \<Rightarrow> bool" where
  "drv_inv d \<longleftrightarrow> dev_inv (heap d) (device d)"

section \<open>Abstraction\<close>

definition cmds_in :: "kheap \<Rightarrow> aesd_dev \<Rightarrow> byte list list" where
  "cmds_in h v = map (contents h) (live_ptrs v)"

definition commands :: "driver \<Rightarrow> byte list list" where
  "commands d = cmds_in (heap d) (device d)"

definition pending :: "driver \<Rightarrow> byte list" where
  "pending d = contents (heap d) (buffptr (new_entry (device d)))"

text \<open>Blocks that are allocated but that the device no longer refers to.\<close>

definition leaked :: "driver \<Rightarrow> addr set" where
  "leaked d = dom (heap d) - set (owned (device d))"

lemma upd_dev_simps [simp]:
  "heap (upd_dev f d) = heap d" "device (upd_dev f d) = f (device d)"
  "region (upd_dev f d) = region d" "aesd_major (upd_dev f d) = aesd_major d"
  by (simp_all add: upd_dev_def)

lemma lock_simps [simp]:
  "heap (mutex_locked d) = heap d" "heap (mutex_unlock d) = heap d"
  "device (mutex_locked d) = (device d)\<lparr>lock := True\<rparr>"
  "device (mutex_unlock d) = (device d)\<lparr>lock := False\<rparr>"
  by (simp_all add: mutex_locked_def mutex_unlock_def)

lemma lock_cycle [simp]: "\<not> lock (device d) \<Longrightarrow> mutex_unlock (mutex_locked d) = d"
  by (simp add: mutex_locked_def mutex_unlock_def upd_dev_def)

lemma owned_lock [simp]:
  "owned (v\<lparr>lock := b\<rparr>) = owned v" "live_ptrs (v\<lparr>lock := b\<rparr>) = live_ptrs v"
  "dev_inv h (v\<lparr>lock := b\<rparr>) = dev_inv h v" "pending_kept (v\<lparr>lock := b\<rparr>) = pending_kept v"
  "cmds_in h (v\<lparr>lock := b\<rparr>) = cmds_in h v"
  by (simp_all add: owned_def live_ptrs_def dev_inv_def pending_kept_def cmds_in_def)

lemma dev_inv_cdev [simp]: "dev_inv h (v\<lparr>cdev_live := b\<rparr>) = dev_inv h v"
  by (simp add: dev_inv_def owned_def live_ptrs_def)

lemma drv_lock [simp]:
  "drv_inv (mutex_locked d) = drv_inv d" "drv_inv (mutex_unlock d) = drv_inv d"
  "commands (mutex_locked d) = commands d" "commands (mutex_unlock d) = commands d"
  "pending (mutex_locked d) = pending d" "pending (mutex_unlock d) = pending d"
  "leaked (mutex_locked d) = leaked d" "leaked (mutex_unlock d) = leaked d"
  by (simp_all add: drv_inv_def commands_def pending_def leaked_def)

lemma dev_invD:
  assumes "dev_inv h v"
  shows "heap_ok h" "cb_wf (buffer v)" "\<And>e. e \<in> set (cb_live (buffer v)) \<Longrightarrow> entry_stored h e"
    "pending_stored h (new_entry v)" "distinct (owned v)"
  using assms by (auto simp: dev_inv_def)

lemma live_ptrs_stored:
  assumes "dev_inv h v" and "p \<in> set (live_ptrs v)"
  shows "\<not> no_block p" "h p \<noteq> None"
  using assms dev_invD(3) [OF assms(1)]
  by (auto simp: live_ptrs_def entry_stored_def holds_block_def)

lemma owned_stored:
  assumes "dev_inv h v" and "p \<in> set (owned v)"
  shows "\<not> no_block p" "h p \<noteq> None"
  using assms live_ptrs_stored [OF assms(1)] dev_invD(4) [OF assms(1)]
  by (auto simp: owned_def pending_stored_def holds_block_def split: if_splits)

lemma live_ptrs_owned: "p \<in> set (live_ptrs v) \<Longrightarrow> p \<in> set (owned v)"
  by (simp add: owned_def)

lemma cmds_in_length:
  assumes "dev_inv h v"
  shows "map length (cmds_in h v) = cb_sizes (buffer v)"
  using dev_invD(3) [OF assms]
  by (auto simp: cmds_in_def live_ptrs_def cb_sizes_def contents_def entry_stored_def holds_block_def)

text \<open>The commands never hold more bytes than ten blocks of the largest size.\<close>

lemma cb_total_bound:
  assumes "dev_inv h v"
  shows "cb_total (buffer v) \<le> 10 * KMALLOC_MAX"
proof -
  have "x \<le> KMALLOC_MAX" if "x \<in> set (cb_sizes (buffer v))" for x
    using that dev_invD(3) [OF assms] by (auto simp: cb_sizes_def entry_stored_def)
  then have "sum_list (cb_sizes (buffer v)) \<le> length (cb_sizes (buffer v)) * KMALLOC_MAX"
    by (rule sum_list_bound)
  also have "\<dots> \<le> 10 * KMALLOC_MAX"
    using cb_count_le [of "buffer v"] by simp
  finally show ?thesis by (simp add: cb_total_def)
qed

lemma length_concat_cmds:
  "dev_inv h v \<Longrightarrow> length (concat (cmds_in h v)) = cb_total (buffer v)"
  by (simp add: length_concat_sum cmds_in_length cb_total_def)

text \<open>A block nobody owns can change, appear or go without being noticed.\<close>

lemma dev_inv_frame:
  assumes "dev_inv h v" and "heap_ok h'" and "\<And>p. p \<in> set (owned v) \<Longrightarrow> h' p = h p"
  shows "dev_inv h' v" "cmds_in h' v = cmds_in h v"
    "contents h' (buffptr (new_entry v)) = contents h (buffptr (new_entry v))"
proof -
  have e: "h' (buffptr e) = h (buffptr e)" if "e \<in> set (cb_live (buffer v))" for e
    using that assms(3) by (auto simp: owned_def live_ptrs_def)
  have n: "h' (buffptr (new_entry v)) = h (buffptr (new_entry v))"
    if "\<not> no_block (buffptr (new_entry v))"
    using that assms(3) by (simp add: owned_def)
  show "dev_inv h' v"
    using assms(1,2) e n
    by (auto simp: dev_inv_def entry_stored_def pending_stored_def holds_block_def)
  show "cmds_in h' v = cmds_in h v"
    using e by (auto simp: cmds_in_def live_ptrs_def contents_def)
  show "contents h' (buffptr (new_entry v)) = contents h (buffptr (new_entry v))"
    using n by (auto simp: contents_def)
qed

section \<open>read\<close>

lemma find_entry_dev:
  assumes "dev_inv h v"
  shows "aesd_circular_buffer_find_entry_offset_for_fpos (Some (buffer v)) pos (Some 0) =
     Some (case locate (map length (cmds_in h v)) (unat pos) of
             Some (q, j) \<Rightarrow> (Some (ring_pos (buffer v) q), Some (of_nat j))
           | None \<Rightarrow> (None, Some 0))"
proof -
  have "cb_total (buffer v) < 2 ^ 64"
    using cb_total_bound [OF assms] by (simp add: KMALLOC_MAX_def)
  from find_entry_locate [OF dev_invD(2) [OF assms] this, of pos 0] show ?thesis
    by (simp add: cmds_in_length [OF assms] cong: option.case_cong)
qed

text \<open>The entry at index \<open>q\<close> of the live entries, and the bytes it holds.\<close>

lemma live_entry:
  assumes "dev_inv h v" and "q < cb_count (buffer v)"
  shows "entry_at (buffer v) (unat (ring_pos (buffer v) q)) = Some (cb_live (buffer v) ! q)"
    and "entry_stored h (cb_live (buffer v) ! q)"
    and "block h (buffptr (cb_live (buffer v) ! q)) = Some (cmds_in h v ! q)"
    and "length (cmds_in h v ! q) = unat (esize (cb_live (buffer v) ! q))"
proof -
  let ?e = "cb_live (buffer v) ! q"
  show 1: "entry_at (buffer v) (unat (ring_pos (buffer v) q)) = Some ?e"
    using entry_at_ring_pos [OF dev_invD(2) [OF assms(1)]] assms(2) by (simp add: nth_cb_live)
  show 2: "entry_stored h ?e"
    using dev_invD(3) [OF assms(1)] assms(2) by simp
  have "cmds_in h v ! q = contents h (buffptr ?e)"
    using assms(2) by (simp add: cmds_in_def live_ptrs_def)
  with 2 show "block h (buffptr ?e) = Some (cmds_in h v ! q)"
    "length (cmds_in h v ! q) = unat (esize ?e)"
    by (auto simp: entry_stored_def holds_block_def block_live contents_def)
qed

lemma length_cmds_in [simp]: "length (cmds_in h v) = cb_count (buffer v)"
  by (simp add: cmds_in_def live_ptrs_def)

text \<open>The part of the handler after the search has found byte \<open>j\<close> of command \<open>q\<close>.\<close>

lemma read_found:
  fixes count :: size_t
  assumes "dev_inv h v" and "locate (map length (cmds_in h v)) (unat pos) = Some (q, j)"
  defines "e \<equiv> cb_live (buffer v) ! q"
  defines "n \<equiv> min count (esize e - of_nat j)"
  shows "entry_at (buffer v) (unat (ring_pos (buffer v) q)) = Some e"
    and "read_block h (buffptr e) (unat (of_nat j :: size_t)) (unat n)
          = Some (spec_read (cmds_in h v) (unat pos) (unat count))"
    and "n = of_nat (length (spec_read (cmds_in h v) (unat pos) (unat count)))"
proof -
  let ?c = "cmds_in h v ! q"
  from locate_Some [OF assms(2)] have q: "q < cb_count (buffer v)" by simp
  with locate_Some [OF assms(2)] have j: "j < length ?c" by simp
  note le = live_entry [OF assms(1) q, folded e_def]
  show "entry_at (buffer v) (unat (ring_pos (buffer v) q)) = Some e" by (rule le(1))
  have sz: "unat (esize e) < 2 ^ 64" using unsigned_less [of "esize e", where 'a = nat] by simp
  with j le(4) have uj: "unat (of_nat j :: size_t) = j" by simp
  have "unat (esize e - of_nat j) = length ?c - j"
    using j le(4) uj by (simp add: unat_sub_if_size word_le_nat_alt)
  then have n: "unat n = min (unat count) (length ?c - j)"
    by (simp add: n_def min_def word_le_nat_alt)
  have out: "spec_read (cmds_in h v) (unat pos) (unat count) = take (unat count) (drop j ?c)"
    using assms(2) by (simp add: spec_read_def)
  show "read_block h (buffptr e) (unat (of_nat j :: size_t)) (unat n)
      = Some (spec_read (cmds_in h v) (unat pos) (unat count))"
    using j by (auto simp: read_block_def le(3) uj n out min_def)
  have "length (take (unat count) (drop j ?c)) = unat n" by (simp add: n min.commute)
  then show "n = of_nat (length (spec_read (cmds_in h v) (unat pos) (unat count)))"
    by (simp only: out) (simp add: word_unat_eq_iff)
qed

lemma aesd_read_ok:
  fixes count :: size_t and pos :: loff_t
  assumes "drv_inv d" and "\<not> lock (device d)" and "private_data fl = AesdDevice"
  defines "out \<equiv> spec_read (commands d) (unat pos) (unat count)"
  shows "aesd_read False 0 (Some fl) True count (Some pos) d
     = Some (Returns (of_nat (length out)), out, pos + of_nat (length out), d)"
proof -
  have inv: "dev_inv (heap d) (device d)" using assms(1) by (simp add: drv_inv_def)
  show ?thesis
  proof (cases "locate (map length (commands d)) (unat pos)")
    case None
    then show ?thesis
      using assms(2,3) find_entry_dev [OF inv, of pos]
      by (simp add: aesd_read_def out_def spec_read_def commands_def Let_def)
  next
    case (Some qj)
    obtain q j where qj: "qj = (q, j)" by (cases qj)
    have "locate (map length (cmds_in (heap d) (device d))) (unat pos) = Some (q, j)"
      using Some qj by (simp add: commands_def)
    note f = read_found [OF inv this]
    show ?thesis
      using Some qj assms(2,3) find_entry_dev [OF inv, of pos] f(1) f(2-3) [of count]
      by (simp add: aesd_read_def out_def commands_def Let_def del: unat_ring_pos)
  qed
qed

text \<open>The faulting copy: the position stays, the value is 0, and the mutex stays held.\<close>

lemma aesd_read_fault:
  fixes count :: size_t and pos :: loff_t
  assumes "drv_inv d" and "\<not> lock (device d)" and "private_data fl = AesdDevice"
    and "copy_status \<noteq> 0" and "unat pos < length (concat (commands d))"
  defines "out \<equiv> spec_read (commands d) (unat pos) (unat count)"
  shows "aesd_read False copy_status (Some fl) True count (Some pos) d
     = Some (Returns 0, take (length out - unat copy_status) out, pos, mutex_locked d)"
proof -
  have inv: "dev_inv (heap d) (device d)" using assms(1) by (simp add: drv_inv_def)
  have "locate (map length (commands d)) (unat pos) \<noteq> None"
    using assms(5) by (simp only: locate_None_iff length_concat_sum not_le)
  then obtain q j where qj: "locate (map length (cmds_in (heap d) (device d))) (unat pos) = Some (q, j)"
    by (auto simp: commands_def)
  note f = read_found [OF inv qj]
  have "length (spec_read (cmds_in (heap d) (device d)) (unat pos) (unat count)) < 2 ^ 64"
    using spec_read_length [of "cmds_in (heap d) (device d)" "unat pos" "unat count"]
      unsigned_less [of count, where 'a = nat] by simp
  then show ?thesis
    using qj assms(2-4) find_entry_dev [OF inv, of pos] f(1) f(2-3) [of count]
    by (simp add: aesd_read_def Let_def out_def commands_def del: unat_ring_pos)
qed

text \<open>Errors are found before the mutex is touched and leave everything as it was.\<close>

lemma aesd_read_errors:
  "aesd_read i c fo b n None d = None"
  "aesd_read i c None b n (Some pos) d = Some (Returns (- EINVAL), [], pos, d)"
  "aesd_read i c (Some fl) False n (Some pos) d = Some (Returns (- EINVAL), [], pos, d)"
  "private_data fl = NullDev \<Longrightarrow>
     aesd_read i c (Some fl) b n (Some pos) d = Some (Returns (- EINVAL), [], pos, d)"
  "private_data fl = AesdDevice \<Longrightarrow>
     aesd_read True c (Some fl) True n (Some pos) d = Some (Returns (- ERESTARTSYS), [], pos, d)"
  by (simp_all add: aesd_read_def)

end
