(* ===== verification/Driver_Write.thy ===== *)
theory Driver_Write
  imports Driver_Correct
begin

text \<open>
  The write handler: its critical section step by step, the invariant, the refinement of
  the list specification, and what becomes of the kernel memory it allocates.
\<close>

section \<open>The pending entry grows\<close>

lemma has_newline_iff [simp]: "has_newline cs = (NL \<in> set cs)"
  by (induction cs) auto

text \<open>\<open>kbuf_holds\<close>: the temporary buffer holds the user's bytes and is nobody's block.\<close>

definition kbuf_holds :: "kheap \<Rightarrow> aesd_dev \<Rightarrow> addr \<Rightarrow> byte list \<Rightarrow> bool" where
  "kbuf_holds h v kbuf data \<longleftrightarrow>
     (if data = [] then kbuf = ZERO_SIZE_PTR
      else \<not> no_block kbuf \<and> h kbuf = Some data \<and> kbuf \<notin> set (owned v))
     \<and> length data \<le> KMALLOC_MAX"

lemma kbuf_block: "kbuf_holds h v kbuf data \<Longrightarrow> block h kbuf = Some data"
  by (auto simp: kbuf_holds_def block_live block_def no_block_def split: if_splits)

lemma kbuf_freeable: "kbuf_holds h v kbuf data \<Longrightarrow> freeable h kbuf"
  by (auto simp: kbuf_holds_def freeable_def split: if_splits)

text \<open>The size of the pending entry and the length of what its pointer holds.\<close>

lemma pending_length:
  assumes "pending_stored h e" and "buffptr e \<noteq> NULL"
  shows "length (contents h (buffptr e)) = unat (esize e)"
  using assms by (auto simp: pending_stored_def contents_def holds_block_def)

lemma pending_null_contents: "contents h 0 = []"
  by (simp add: contents_def)

lemma pending_freeable: "pending_stored h e \<Longrightarrow> freeable h (buffptr e)"
  by (auto simp: pending_stored_def freeable_def holds_block_def)

lemma dropped_other: "p \<noteq> q \<Longrightarrow> dropped h q p = h p"
  by (simp add: dropped_def)

lemma heap_ok_dropped: "heap_ok h \<Longrightarrow> heap_ok (dropped h p)"
  by (simp add: dropped_def heap_ok_delete)

lemma live_not_pending:
  assumes "dev_inv h v" and "p \<in> set (live_ptrs v)"
  shows "p \<noteq> buffptr (new_entry v)"
  using dev_invD(5) [OF assms(1)] live_ptrs_stored(1) [OF assms] assms(2)
  by (auto simp: owned_def split: if_splits)

text \<open>Replacing the pending entry: what has to hold of its new block.\<close>

lemma dev_inv_new_pending:
  assumes inv: "dev_inv h v" and ok: "heap_ok h'"
    and live: "\<And>p. p \<in> set (live_ptrs v) \<Longrightarrow> h' p = h p"
    and pend: "pending_stored h' e" and fresh: "\<not> no_block (buffptr e) \<Longrightarrow> buffptr e \<notin> set (live_ptrs v)"
  shows "dev_inv h' (v\<lparr>new_entry := e\<rparr>)" "cmds_in h' (v\<lparr>new_entry := e\<rparr>) = cmds_in h v"
proof -
  have st: "entry_stored h' x" if "x \<in> set (cb_live (buffer v))" for x
    using that dev_invD(3) [OF inv that] live
    by (auto simp: entry_stored_def holds_block_def live_ptrs_def)
  have "distinct (live_ptrs v)" using dev_invD(5) [OF inv] by (simp add: owned_def)
  with fresh have "distinct (owned (v\<lparr>new_entry := e\<rparr>))"
    by (auto simp: owned_def live_ptrs_def)
  with st ok pend dev_invD(2) [OF inv] show "dev_inv h' (v\<lparr>new_entry := e\<rparr>)"
    by (auto simp: dev_inv_def)
  show "cmds_in h' (v\<lparr>new_entry := e\<rparr>) = cmds_in h v"
    using live by (auto simp: cmds_in_def live_ptrs_def contents_def)
qed

text \<open>
  \<open>append_pending\<close> is never undefined. It fails only when \<open>krealloc\<close> does; then the
  pending pointer is \<open>NULL\<close> and the temporary buffer is freed. Otherwise the pending entry
  is the old one followed by the new bytes.
\<close>

lemma append_pending_cases:
  assumes K: "kernel_ok K" and inv: "drv_inv d"
    and kbuf: "kbuf_holds (heap d) (device d) kbuf data" and len: "unat count = length data"
  obtains (nomem) d' where "append_pending K kbuf count d = Some (False, d')"
      "d' = upd_dev (\<lambda>v. v\<lparr>new_entry := (new_entry v)\<lparr>buffptr := NULL\<rparr>\<rparr>)
              (d\<lparr>heap := dropped (heap d) kbuf\<rparr>)"
  | (appended) p old h' where
      "append_pending K kbuf count d = Some (True, upd_dev (\<lambda>v. v\<lparr>new_entry :=
          \<lparr>buffptr = p, esize = esize (new_entry v) + count\<rparr>\<rparr>) (d\<lparr>heap := h'\<rparr>))"
      "unat (esize (new_entry (device d)) + count) = unat (esize (new_entry (device d))) + length data"
      "length old = unat (esize (new_entry (device d)))"
      "buffptr (new_entry (device d)) \<noteq> NULL \<Longrightarrow> old = pending d"
      "if old @ data = [] then p = ZERO_SIZE_PTR \<and> h' = dropped (heap d) (buffptr (new_entry (device d)))
       else \<not> no_block p \<and> dropped (heap d) (buffptr (new_entry (device d))) p = None
          \<and> h' = (dropped (heap d) (buffptr (new_entry (device d))))(p \<mapsto> old @ data)"
      "length (old @ data) \<le> KMALLOC_MAX"
proof -
  let ?v = "device d"
  let ?h = "heap d"
  let ?ne = "new_entry ?v"
  let ?pp = "buffptr ?ne"
  let ?hd = "dropped ?h ?pp"
  have di: "dev_inv ?h ?v" using inv by (simp add: drv_inv_def)
  note ps = dev_invD(4) [OF di]
  have "unat (esize ?ne) \<le> KMALLOC_MAX" "length data \<le> KMALLOC_MAX"
    using ps kbuf by (auto simp: pending_stored_def kbuf_holds_def)
  then have sum: "unat (esize ?ne + count) = unat (esize ?ne) + length data"
    using len by (subst unat_add_exact) (auto simp: KMALLOC_MAX_def)
  have cl: "length (contents ?h ?pp) \<le> unat (esize ?ne + count)"
    using pending_length [OF ps] sum by (cases "?pp = NULL") (auto simp: pending_null_contents)
  have fr: "freeable ?h ?pp" by (rule pending_freeable [OF ps])
  obtain q h1 where k: "krealloc K ?h ?pp (esize ?ne + count) = (q, h1)" by fastforce
  then have kr: "do_krealloc K ?h ?pp (esize ?ne + count) = Some (q, h1)"
    using fr by (simp add: do_krealloc_def)
  have kb0: "block ?hd kbuf = Some data"
  proof (cases "data = []")
    case False
    with kbuf have "kbuf \<notin> set (owned ?v)" "\<not> no_block kbuf" by (auto simp: kbuf_holds_def)
    then have "no_block ?pp \<or> kbuf \<noteq> ?pp" by (auto simp: owned_def split: if_splits)
    with kbuf_block [OF kbuf] \<open>\<not> no_block kbuf\<close> show ?thesis
      by (auto simp: block_live dropped_def)
  qed (use kbuf in \<open>simp add: kbuf_holds_def block_def\<close>)
  from K fr k cl show thesis
  proof (cases rule: krealloc_cases)
    case fail
    have "do_kfree K ?h kbuf = Some (dropped ?h kbuf)"
      using kbuf_freeable [OF kbuf] K by (simp add: do_kfree_def kernel_ok_def kfree_ok_def dropped_def)
    with fail kr nomem show thesis
      by (simp add: append_pending_def Let_def upd_dev_def)
  next
    case zero
    then have e0: "esize ?ne = 0" "data = []" using sum by (auto simp: unat_eq_zero)
    then have "?pp \<noteq> NULL \<Longrightarrow> pending d = []"
      using pending_length [OF ps] by (simp add: pending_def)
    moreover have "append_pending K kbuf count d = Some (True, upd_dev (\<lambda>v. v\<lparr>new_entry :=
          \<lparr>buffptr = q, esize = esize (new_entry v) + count\<rparr>\<rparr>) (d\<lparr>heap := ?hd\<rparr>))"
      using zero kr e0 kbuf len
      by (simp add: append_pending_def Let_def upd_dev_def read_block_def write_block_def
          kbuf_holds_def block_def)
    ultimately show thesis
      using appended [of q ?hd "[]"] zero e0 sum by simp
  next
    case (block c)
    let ?b = "contents ?h ?pp @ c"
    define old where "old = take (unat (esize ?ne)) ?b"
    have lb: "length ?b = unat (esize ?ne) + length data" using block sum by simp
    then have lo: "length old = unat (esize ?ne)" by (simp add: old_def)
    have kq: "block h1 kbuf = Some data"
    proof (cases "data = []")
      case False
      with kbuf have nb: "\<not> no_block kbuf" by (auto simp: kbuf_holds_def)
      with kb0 block have "kbuf \<noteq> q" by (auto simp: block_live)
      with kb0 nb block show ?thesis by (simp add: block_live)
    qed (use kb0 kbuf in \<open>simp add: kbuf_holds_def block_def\<close>)
    have old: "old = pending d" if "?pp \<noteq> NULL"
      using pending_length [OF ps that] by (simp add: pending_def old_def)
    have qb: "Kernel_Memory.block h1 q = Some ?b" "\<not> no_block q"
      using block by (simp_all add: block_live)
    have "write_block h1 q (unat (esize ?ne)) data = Some (h1(q \<mapsto> old @ data))"
      using qb lb by (simp add: write_block_def old_def)
    moreover have "read_block h1 kbuf 0 (unat count) = Some data"
      using kq len by (simp add: read_block_def)
    moreover have "q \<noteq> NULL" using qb(2) by auto
    ultimately have "append_pending K kbuf count d = Some (True, upd_dev (\<lambda>v. v\<lparr>new_entry :=
          \<lparr>buffptr = q, esize = esize (new_entry v) + count\<rparr>\<rparr>) (d\<lparr>heap := ?hd(q \<mapsto> old @ data)\<rparr>))"
      using kr block by (simp add: append_pending_def Let_def upd_dev_def)
    moreover have "old @ data \<noteq> []"
    proof -
      have "0 < unat (esize ?ne + count)" using block(1) by (simp add: word_less_nat_alt)
      moreover have "length (old @ data) = unat (esize ?ne + count)" using lo sum by simp
      ultimately show ?thesis by (metis length_greater_0_conv)
    qed
    ultimately show thesis
      using old lo sum block by (intro appended [of q "?hd(q \<mapsto> old @ data)" old]) auto
  qed
qed

text \<open>After a successful append, the device owns the grown block instead of the old one.\<close>

lemma dom_dropped: "dom (dropped h p) = (if no_block p then dom h else dom h - {p})"
  by (simp add: dropped_def)

lemma append_keeps_inv:
  fixes d :: driver
  assumes inv: "drv_inv d"
    and shape: "if data = [] then p = ZERO_SIZE_PTR \<and> h' = dropped (heap d) (buffptr (new_entry (device d)))
       else \<not> no_block p \<and> dropped (heap d) (buffptr (new_entry (device d))) p = None
          \<and> h' = (dropped (heap d) (buffptr (new_entry (device d))))(p \<mapsto> data)"
    and len: "length data = unat sz" "length data \<le> KMALLOC_MAX"
  defines "d' \<equiv> upd_dev (\<lambda>v. v\<lparr>new_entry := \<lparr>buffptr = p, esize = sz\<rparr>\<rparr>) (d\<lparr>heap := h'\<rparr>)"
  shows "drv_inv d'" "commands d' = commands d" "pending d' = data" "leaked d' = leaked d"
    "pending_kept (device d')"
proof -
  let ?v = "device d"
  let ?pp = "buffptr (new_entry ?v)"
  let ?e = "\<lparr>buffptr = p, esize = sz\<rparr>"
  have di: "dev_inv (heap d) ?v" using inv by (simp add: drv_inv_def)
  have live: "h' x = heap d x" if "x \<in> set (live_ptrs ?v)" for x
    using that live_not_pending [OF di that] live_ptrs_stored [OF di that] shape
    by (auto simp: dropped_other split: if_splits)
  have ok: "heap_ok h'"
    using dev_invD(1) [OF di] shape by (auto simp: heap_ok_dropped heap_ok_update split: if_splits)
  have pend: "pending_stored h' ?e"
    using shape len by (auto simp: pending_stored_def holds_block_def unat_eq_zero split: if_splits)
  have fresh: "p \<notin> set (live_ptrs ?v)" if "\<not> no_block p"
  proof
    assume p: "p \<in> set (live_ptrs ?v)"
    have "dropped (heap d) ?pp p = heap d p"
      using live_not_pending [OF di p] by (simp add: dropped_other)
    with live_ptrs_stored(2) [OF di p] shape that show False by (auto split: if_splits)
  qed
  note n = dev_inv_new_pending [OF di ok live pend, simplified, OF fresh]
  from n(1) show "drv_inv d'" by (simp add: drv_inv_def d'_def)
  from n(2) show "commands d' = commands d" by (simp add: commands_def d'_def)
  show "pending d' = data"
    using shape by (auto simp: pending_def d'_def contents_def split: if_splits)
  show "pending_kept (device d')"
    using shape by (auto simp: pending_kept_def d'_def split: if_splits)
  have nb: "\<not> no_block ?pp \<Longrightarrow> ?pp \<notin> set (live_ptrs ?v)"
    using live_not_pending [OF di] by blast
  show "leaked d' = leaked d"
  proof (cases "data = []")
    case True
    with shape nb show ?thesis
      by (auto simp: leaked_def d'_def owned_def live_ptrs_def dom_dropped)
  next
    case False
    with shape nb fresh show ?thesis
      by (auto simp: leaked_def d'_def owned_def live_ptrs_def dom_dropped dropped_def split: if_splits)
  qed
qed

section \<open>Committing the pending entry\<close>

lemma add_entry_step:
  assumes "cb_wf cb"
  obtains b where "aesd_circular_buffer_add_entry (Some cb) (Some e)
      = Some (if cb_count cb = 10 then buffptr (hd (cb_live cb)) else NULL, Some b)"
    and "cb_wf b" and "cb_live b = last_n 10 (cb_live cb @ [e])"
proof -
  obtain b where "cb_add cb e = Some (if length (cb_live cb) = MAXW then buffptr (hd (cb_live cb)) else NULL, b)"
    "cb_wf b" "cb_live b = last_n MAXW (cb_live cb @ [e])"
    using cbl.add_Some [OF assms] by blast
  then show thesis
    using that [of b] by (auto simp: cb_add_def MAXW_def split: Option.bind_splits)
qed

text \<open>
  The device after a commit: the live pointers are the last ten of the old ones and the
  pending one, and exactly the displaced pointer, if there is one, has been freed.
\<close>

lemma commit_entry_ok:
  assumes K: "kernel_ok K" and inv: "drv_inv d" and st: "entry_stored (heap d) (new_entry (device d))"
  obtains d' where "commit_entry K d = Some d'" "drv_inv d'"
    "commands d' = last_n 10 (commands d @ [pending d])" "pending d' = []"
    "leaked d' = leaked d" "pending_kept (device d')" "lock (device d') = lock (device d)"
proof -
  let ?v = "device d" and ?h = "heap d"
  let ?ne = "new_entry ?v"
  let ?live = "cb_live (buffer ?v)"
  let ?q = "buffptr ?ne"
  have di: "dev_inv ?h ?v" using inv by (simp add: drv_inv_def)
  obtain b where b: "aesd_circular_buffer_add_entry (Some (buffer ?v)) (Some ?ne)
      = Some (if cb_count (buffer ?v) = 10 then buffptr (hd ?live) else NULL, Some b)"
    "cb_wf b" "cb_live b = last_n 10 (?live @ [?ne])"
    by (rule add_entry_step [OF dev_invD(2) [OF di]])
  let ?v' = "?v\<lparr>buffer := b, new_entry := null_entry\<rparr>"
  have q: "\<not> no_block ?q" using st by (simp add: entry_stored_def holds_block_def)
  then have ow: "owned ?v = live_ptrs ?v @ [?q]" by (simp add: owned_def)
  have ow': "owned ?v' = last_n 10 (owned ?v)"
    using ow by (simp add: owned_def live_ptrs_def null_entry_def b(3) map_last_n)
  have dis: "distinct (owned ?v)" by (rule dev_invD(5) [OF di])
  have "\<exists>h'. commit_entry K d = Some (upd_dev (\<lambda>v. v\<lparr>buffer := b, new_entry := null_entry\<rparr>) (d\<lparr>heap := h'\<rparr>))
      \<and> heap_ok h' \<and> (\<forall>p \<in> set (owned ?v'). h' p = ?h p)
      \<and> dom h' - set (owned ?v') = dom ?h - set (owned ?v)"
  proof (cases "cb_count (buffer ?v) = 10")
    case True
    then obtain x xs where x: "?live = x # xs" "length xs = 9"
      using length_cb_live [of "buffer ?v"] by (cases ?live) auto
    let ?h' = "?h(buffptr x := None)"
    have px: "buffptr x \<in> set (owned ?v)" using ow x by (simp add: live_ptrs_def)
    then have "do_kfree K ?h (buffptr x) = Some ?h'"
      using owned_stored [OF di px] K by (simp add: do_kfree_live)
    moreover have "buffptr x \<noteq> NULL" using owned_stored(1) [OF di px] by auto
    ultimately have "commit_entry K d
        = Some (upd_dev (\<lambda>v. v\<lparr>buffer := b, new_entry := null_entry\<rparr>) (d\<lparr>heap := ?h'\<rparr>))"
      using b(1) True x by (simp add: commit_entry_def Let_def)
    moreover have "owned ?v = buffptr x # owned ?v'"
      using ow ow' x by (simp add: live_ptrs_def last_n_def)
    ultimately show ?thesis
      using dis dev_invD(1) [OF di] by (intro exI [of _ ?h']) (auto simp: heap_ok_delete)
  next
    case False
    then have "length (owned ?v) \<le> 10"
      using cb_count_le [of "buffer ?v"] by (simp add: ow live_ptrs_def)
    then have "owned ?v' = owned ?v" using ow' by simp
    with False b(1) dev_invD(1) [OF di] show ?thesis
      by (intro exI [of _ ?h]) (simp add: commit_entry_def Let_def)
  qed
  then obtain h' where h': "commit_entry K d
        = Some (upd_dev (\<lambda>v. v\<lparr>buffer := b, new_entry := null_entry\<rparr>) (d\<lparr>heap := h'\<rparr>))"
      "heap_ok h'" "\<And>p. p \<in> set (owned ?v') \<Longrightarrow> h' p = ?h p"
      "dom h' - set (owned ?v') = dom ?h - set (owned ?v)" by auto
  let ?d' = "upd_dev (\<lambda>v. v\<lparr>buffer := b, new_entry := null_entry\<rparr>) (d\<lparr>heap := h'\<rparr>)"
  have lp: "live_ptrs ?v' = last_n 10 (live_ptrs ?v @ [?q])"
    by (simp add: live_ptrs_def b(3) map_last_n)
  have sub: "set (cb_live b) \<subseteq> set (?live @ [?ne])"
    unfolding b(3) last_n_def by (rule set_drop_subset)
  have "entry_stored h' e" if "e \<in> set (cb_live b)" for e
  proof -
    have "buffptr e \<in> set (owned ?v')" using that by (simp add: owned_def live_ptrs_def)
    moreover have "entry_stored ?h e"
      using that sub dev_invD(3) [OF di] st by auto
    ultimately show ?thesis using h'(3) by (simp add: entry_stored_def holds_block_def)
  qed
  moreover have "distinct (owned ?v')"
    using dis ow' by (simp add: last_n_def)
  ultimately have "drv_inv ?d'"
    using h'(2) b(2) by (auto simp: drv_inv_def dev_inv_def pending_stored_def null_entry_def)
  moreover have "commands ?d' = last_n 10 (commands d @ [pending d])"
  proof -
    have "commands ?d' = map (contents h') (live_ptrs ?v')" by (simp add: commands_def cmds_in_def)
    also have "\<dots> = map (contents ?h) (live_ptrs ?v')"
      using h'(3) live_ptrs_owned [of _ ?v'] by (auto simp: contents_def)
    also have "\<dots> = last_n 10 (map (contents ?h) (live_ptrs ?v @ [?q]))"
      by (simp only: lp map_last_n)
    finally show ?thesis by (simp add: commands_def cmds_in_def pending_def)
  qed
  moreover have "pending ?d' = []" "pending_kept (device ?d')" "lock (device ?d') = lock (device d)"
    by (simp_all add: pending_def contents_def null_entry_def pending_kept_def)
  moreover have "leaked ?d' = leaked d" using h'(4) by (simp add: leaked_def)
  ultimately show thesis using that h'(1) by blast
qed

section \<open>The whole handler\<close>

text \<open>
  Up to the critical section: the temporary buffer holds the user's bytes, is a block
  nobody else refers to, and has become a leaked block if the handler stops here.
\<close>

lemma kbuf_filled:
  assumes K: "kernel_ok K" and inv: "drv_inv d" and km: "kmalloc K (heap d) count = (kbuf, h1)"
    and "kbuf \<noteq> NULL" and len: "length data = unat count"
  obtains h2 where "write_block h1 kbuf 0 (take (unat count) data) = Some h2"
    "read_block h2 kbuf 0 (unat count) = Some data"
    "kbuf_holds h2 (device d) kbuf data" "drv_inv (d\<lparr>heap := h2\<rparr>)"
    "commands (d\<lparr>heap := h2\<rparr>) = commands d" "pending (d\<lparr>heap := h2\<rparr>) = pending d"
    "leaked (d\<lparr>heap := h2\<rparr>) = (if data = [] then leaked d else insert kbuf (leaked d))"
    "dropped h2 kbuf = heap d" "data \<noteq> [] \<longrightarrow> heap d kbuf = None"
proof -
  have di: "dev_inv (heap d) (device d)" using inv by (simp add: drv_inv_def)
  note ok = dev_invD(1) [OF di]
  from K ok km show thesis
  proof (cases rule: kmalloc_cases)
    case fail
    with assms(4) show thesis by simp
  next
    case zero
    with len inv show thesis
      by (intro that [of "heap d"])
         (auto simp: write_block_def read_block_def block_def kbuf_holds_def dropped_def)
  next
    case (block b)
    let ?h = "(heap d)(kbuf \<mapsto> data)"
    have ne: "data \<noteq> []" using block(1) len by (auto simp: word_less_nat_alt)
    have no: "kbuf \<notin> set (owned (device d))" using owned_stored(2) [OF di] block(3) by blast
    have frame: "?h p = heap d p" if "p \<in> set (owned (device d))" for p
      using no that by auto
    note fr = dev_inv_frame [where h' = ?h, OF di heap_ok_update [OF ok block(2)] frame]
    show thesis
    proof (rule that [of ?h])
      show "write_block h1 kbuf 0 (take (unat count) data) = Some ?h"
        using block len by (simp add: write_block_def block_live)
      show "read_block ?h kbuf 0 (unat count) = Some data"
        using block len by (simp add: read_block_def block_live)
      show "kbuf_holds ?h (device d) kbuf data"
        using block ne no len by (simp add: kbuf_holds_def)
      show "drv_inv (d\<lparr>heap := ?h\<rparr>)" using fr(1) by (simp add: drv_inv_def)
      show "commands (d\<lparr>heap := ?h\<rparr>) = commands d" using fr(2) by (simp add: commands_def)
      show "pending (d\<lparr>heap := ?h\<rparr>) = pending d" using fr(3) by (simp add: pending_def)
      show "leaked (d\<lparr>heap := ?h\<rparr>) = (if data = [] then leaked d else insert kbuf (leaked d))"
        using no ne by (auto simp: leaked_def)
      show "dropped ?h kbuf = heap d" using block by (auto simp: dropped_def)
      show "data \<noteq> [] \<longrightarrow> heap d kbuf = None" using block(3) by simp
    qed
  qed
qed

text \<open>
  A failed \<open>krealloc\<close>: the device loses its pending block (which is leaked) and keeps the
  pending size.
\<close>

lemma pending_lost:
  assumes inv: "drv_inv d"
  defines "d' \<equiv> upd_dev (\<lambda>v. v\<lparr>new_entry := (new_entry v)\<lparr>buffptr := NULL\<rparr>\<rparr>) d"
  shows "drv_inv d'" "commands d' = commands d" "pending d' = []"
    "leaked d' = leaked d \<union> set (owned (device d)) - set (live_ptrs (device d))"
proof -
  let ?v = "device d"
  have di: "dev_inv (heap d) ?v" using inv by (simp add: drv_inv_def)
  have p: "pending_stored (heap d) ((new_entry ?v)\<lparr>buffptr := NULL\<rparr>)"
    using dev_invD(4) [OF di] by (simp add: pending_stored_def)
  note n = dev_inv_new_pending [OF di dev_invD(1) [OF di] refl p, simplified]
  from n show "drv_inv d'" "commands d' = commands d"
    by (simp_all add: drv_inv_def commands_def d'_def)
  show "pending d' = []" by (simp add: pending_def d'_def contents_def)
  have "set (owned ?v) \<subseteq> dom (heap d)" using owned_stored(2) [OF di] by auto
  then show "leaked d' = leaked d \<union> set (owned ?v) - set (live_ptrs ?v)"
    by (auto simp: leaked_def d'_def owned_def live_ptrs_def)
qed

lemma aesd_write_cases:
  fixes d :: driver and count :: size_t
  assumes K: "kernel_ok K" and inv: "drv_inv d" and free: "\<not> lock (device d)"
    and priv: "private_data fl = AesdDevice" and len: "length data = unat count"
  obtains
    (kbuf_nomem) "aesd_write K cs (Some fl) (Some data) count (Some pos) d = Some (Returns (- ENOMEM), d)"
  | (fault) d' where "cs \<noteq> 0"
      "aesd_write K cs (Some fl) (Some data) count (Some pos) d = Some (Returns (- EFAULT), d')"
      "d' = d\<lparr>heap := heap d'\<rparr>" "drv_inv d'" "commands d' = commands d" "pending d' = pending d"
  | (pending_nomem) "cs = 0"
      "aesd_write K cs (Some fl) (Some data) count (Some pos) d
        = Some (Returns (- ENOMEM), upd_dev (\<lambda>v. v\<lparr>new_entry := (new_entry v)\<lparr>buffptr := NULL\<rparr>\<rparr>) d)"
  | (written) d' kbuf old where "cs = 0"
      "aesd_write K cs (Some fl) (Some data) count (Some pos) d = Some (Returns count, d')"
      "drv_inv d'" "pending_kept (device d')" "\<not> lock (device d')"
      "(commands d', pending d') = spec_write data (commands d, old)"
      "length old = unat (esize (new_entry (device d)))"
      "pending_kept (device d) \<longrightarrow> old = pending d"
      "leaked d' = (if data = [] then leaked d else insert kbuf (leaked d))"
      "data \<noteq> [] \<longrightarrow> heap d kbuf = None"
proof -
  let ?W = "aesd_write K cs (Some fl) (Some data) count (Some pos) d"
  obtain kbuf h1 where km: "kmalloc K (heap d) count = (kbuf, h1)" by fastforce
  have di: "dev_inv (heap d) (device d)" using inv by (simp add: drv_inv_def)
  show thesis
  proof (cases "kbuf = NULL")
    case True
    with km kbuf_nomem show thesis by (simp add: aesd_write_def)
  next
    case kb: False
    obtain h2 where h2: "write_block h1 kbuf 0 (take (unat count) data) = Some h2"
      "read_block h2 kbuf 0 (unat count) = Some data"
      "kbuf_holds h2 (device d) kbuf data" "drv_inv (d\<lparr>heap := h2\<rparr>)"
      "commands (d\<lparr>heap := h2\<rparr>) = commands d" "pending (d\<lparr>heap := h2\<rparr>) = pending d"
      "leaked (d\<lparr>heap := h2\<rparr>) = (if data = [] then leaked d else insert kbuf (leaked d))"
      "dropped h2 kbuf = heap d" "data \<noteq> [] \<longrightarrow> heap d kbuf = None"
      by (rule kbuf_filled [OF K inv km kb len])
    show thesis
    proof (cases "cs = 0")
      case False
      have w: "?W = Some (Returns (- EFAULT), d\<lparr>heap := h1\<rparr>)"
        using km kb False by (simp add: aesd_write_def)
      have "drv_inv (d\<lparr>heap := h1\<rparr>) \<and> commands (d\<lparr>heap := h1\<rparr>) = commands d
          \<and> pending (d\<lparr>heap := h1\<rparr>) = pending d"
        using K dev_invD(1) [OF di] km
      proof (cases rule: kmalloc_cases)
        case (block b)
        have frame: "\<And>p. p \<in> set (owned (device d)) \<Longrightarrow> h1 p = heap d p"
          using owned_stored(2) [OF di] block by force
        have "heap_ok h1" using block heap_ok_update [OF dev_invD(1) [OF di] block(2)] by simp
        from dev_inv_frame [OF di this frame] show ?thesis
          by (simp add: drv_inv_def commands_def pending_def)
      qed (use inv in simp_all)
      with w False show thesis by (intro fault [of "d\<lparr>heap := h1\<rparr>"]) simp_all
    next
      case cs: True
      let ?d2 = "mutex_locked (d\<lparr>heap := h2\<rparr>)"
      have i2: "drv_inv ?d2" using h2(4) by simp
      have k2: "kbuf_holds (heap ?d2) (device ?d2) kbuf data"
        using h2(3) by (simp add: kbuf_holds_def)
      have W: "?W = do { (appended, d3) \<leftarrow> append_pending K kbuf count ?d2;
             if \<not> appended then Some (Returns (- ENOMEM), mutex_unlock d3)
             else do { d4 \<leftarrow> (if NL \<in> set data then commit_entry K d3 else Some d3);
                       Some (Returns count, mutex_unlock d4) } }"
        using km kb cs h2(1,2) priv free by (simp add: aesd_write_def Let_def)
      from K i2 k2 len [symmetric] show thesis
      proof (cases rule: append_pending_cases)
        case (nomem d')
        have "mutex_unlock d' = upd_dev (\<lambda>v. v\<lparr>new_entry := (new_entry v)\<lparr>buffptr := NULL\<rparr>\<rparr>) d"
          using nomem(2) h2(8) free
          by (simp add: mutex_unlock_def mutex_locked_def upd_dev_def)
        with W nomem(1) cs show thesis by (intro pending_nomem) simp_all
      next
        case (appended p old h')
        let ?sz = "esize (new_entry (device ?d2)) + count"
        define d3 where
          "d3 = upd_dev (\<lambda>v. v\<lparr>new_entry := \<lparr>buffptr = p, esize = ?sz\<rparr>\<rparr>) (?d2\<lparr>heap := h'\<rparr>)"
        have len3: "length (old @ data) = unat ?sz" using appended(2,3) by simp
        note a = append_keeps_inv [OF i2 appended(5) len3 appended(6), folded d3_def]
        have ap: "append_pending K kbuf count ?d2 = Some (True, d3)"
          using appended(1) by (simp add: d3_def upd_dev_def)
        have lkd: "leaked d3 = (if data = [] then leaked d else insert kbuf (leaked d))"
          using a(4) h2(7) by (simp add: leaked_def)
        have lold: "length old = unat (esize (new_entry (device d)))" using appended(3) by simp
        have old: "old = pending d" if "pending_kept (device d)"
        proof (cases "buffptr (new_entry (device d)) = NULL")
          case True
          with that have "old = []" using appended(3) by (simp add: pending_kept_def)
          with True show ?thesis by (simp add: pending_def contents_def)
        next
          case False
          with appended(4) h2(6) show ?thesis by simp
        qed
        show thesis
        proof (cases "NL \<in> set data")
          case False
          with W ap have "?W = Some (Returns count, mutex_unlock d3)" by simp
          with False cs a h2(5) lkd h2(9) old lold show thesis
            by (intro written [of "mutex_unlock d3" old kbuf]) (auto simp: spec_write_def)
        next
          case True
          then have ne: "old @ data \<noteq> []" by auto
          then have pos: "0 < unat ?sz" using len3 by (metis length_greater_0_conv)
          from ne have st: "entry_stored (heap d3) (new_entry (device d3))"
            using appended(5,6) len3 pos by (simp add: entry_stored_def holds_block_def d3_def)
          obtain d4 where d4: "commit_entry K d3 = Some d4" "drv_inv d4"
            "commands d4 = last_n 10 (commands d3 @ [pending d3])" "pending d4 = []"
            "leaked d4 = leaked d3" "pending_kept (device d4)"
            by (rule commit_entry_ok [OF K a(1) st])
          with W ap True have "?W = Some (Returns count, mutex_unlock d4)" by simp
          with True cs a d4 h2(5) lkd h2(9) old lold show thesis
            by (intro written [of "mutex_unlock d4" old kbuf]) (auto simp: spec_write_def)
        qed
      qed
    qed
  qed
qed

end
