(* ===== verification/Driver_Seek.thy ===== *)
theory Driver_Seek
  imports Driver_Write
begin

text \<open>
  The position handlers \<open>aesd_llseek\<close> and \<open>aesd_ioctl\<close>, the life of the module
  (\<open>aesd_init_module\<close>, \<open>aesd_cleanup_module\<close>), and the reachable states of the driver
  under any sequence of calls.
\<close>

section \<open>llseek\<close>

definition total_bytes :: "driver \<Rightarrow> nat" where
  "total_bytes d = length (concat (commands d))"

lemma total_bytes_eq: "drv_inv d \<Longrightarrow> total_bytes d = cb_total (buffer (device d))"
  by (simp add: total_bytes_def commands_def drv_inv_def length_concat_cmds)

lemma total_bytes_bound:
  assumes "drv_inv d"
  shows "total_bytes d < 2 ^ 35"
proof -
  have "total_bytes d \<le> 10 * KMALLOC_MAX"
    using cb_total_bound assms total_bytes_eq [OF assms] by (simp add: drv_inv_def)
  then show ?thesis by (simp add: KMALLOC_MAX_def)
qed

lemma get_length_dev:
  assumes "drv_inv d"
  shows "aesd_circular_buffer_get_length (Some (buffer (device d))) = Some (of_nat (total_bytes d))"
proof -
  have di: "dev_inv (heap d) (device d)" using assms by (simp add: drv_inv_def)
  have "\<forall>e \<in> set (cb_live (buffer (device d))). \<not> no_block (buffptr e)"
    using live_ptrs_stored(1) [OF di] by (simp add: live_ptrs_def)
  then have "\<forall>e \<in> set (cb_live (buffer (device d))). buffptr e \<noteq> NULL"
    by (metis no_block_simps(1))
  from get_length_live [OF dev_invD(2) [OF di] this] show ?thesis
    by (simp only: of_nat_sum_list_unat total_bytes_eq [OF assms] cb_total_def cb_sizes_def)
qed

definition llseek_target :: "driver \<Rightarrow> kfile \<Rightarrow> loff_t \<Rightarrow> int \<Rightarrow> loff_t" where
  "llseek_target d fl offset whence =
     (if whence = SEEK_SET then offset
      else if whence = SEEK_CUR then f_pos fl + offset
      else of_nat (total_bytes d) + offset)"

lemma aesd_llseek_ok:
  fixes offset :: loff_t
  assumes "drv_inv d" and "\<not> lock (device d)" and "private_data fl = AesdDevice"
    and "whence \<in> {SEEK_SET, SEEK_CUR, SEEK_END}"
  defines "p \<equiv> llseek_target d fl offset whence"
  shows "aesd_llseek False (Some fl) offset whence d =
     Some (if 0 \<le> sint p \<and> unat p \<le> total_bytes d
           then (Returns p, Some (fl\<lparr>f_pos := p\<rparr>), d)
           else (Returns (- EINVAL), Some fl, d))"
proof -
  have t: "unat (of_nat (total_bytes d) :: size_t) = total_bytes d"
    using total_bytes_bound [OF assms(1)] by simp
  have g: "aesd_circular_buffer_get_length (Some (buffer (device (mutex_locked d))))
      = Some (of_nat (total_bytes d))"
    using get_length_dev [OF assms(1)] by simp
  have "(p > of_nat (total_bytes d)) = (\<not> unat p \<le> total_bytes d)"
    using t by (simp add: word_less_nat_alt not_le)
  then show ?thesis
    using assms(2-4) g
    by (auto simp: aesd_llseek_def p_def llseek_target_def Let_def not_less)
qed

section \<open>ioctl\<close>

lemma aesd_ioctl_ok:
  fixes arg :: aesd_seekto
  assumes "drv_inv d" and "\<not> lock (device d)" and "private_data fl = AesdDevice"
  defines "r \<equiv> the (aesd_circular_buffer_find_seekto_fpos (Some (buffer (device d)))
                     (write_cmd arg) (write_cmd_offset arg))"
  shows "aesd_ioctl False 0 (Some fl) AESDCHAR_IOCSEEKTO arg d =
     Some (if r = - 1 then (Returns (- EINVAL), Some fl, d)
           else (Returns 0, Some (fl\<lparr>f_pos := r\<rparr>), d))"
proof -
  have wf: "cb_wf (buffer (device d))" using assms(1) by (auto simp: drv_inv_def dev_inv_def)
  have "\<exists>x. aesd_circular_buffer_find_seekto_fpos (Some (buffer (device d)))
      (write_cmd arg) (write_cmd_offset arg) = Some x"
    using find_seekto_spec [OF wf]
    by (cases "buffer_empty (buffer (device d))")
       (auto simp: aesd_circular_buffer_find_seekto_fpos_def)
  with assms(2,3) show ?thesis
    by (auto simp: aesd_ioctl_def r_def Let_def)
qed

text \<open>What the search answers, over the commands: past the end it accepts one command number.\<close>

definition seek_spec :: "byte list list \<Rightarrow> nat \<Rightarrow> nat \<Rightarrow> nat option" where
  "seek_spec cmds c j =
     (if cmds = [] then None
      else if c < length cmds \<and> j \<le> length (cmds ! c) then Some (cmd_start cmds c + j)
      else if c = length cmds \<and> j \<le> (if length cmds = 10 then length (cmds ! 0) else 0)
           then Some (cmd_start cmds c + j)
      else None)"

lemma seekto_seek_spec:
  assumes "drv_inv d"
  shows "aesd_circular_buffer_find_seekto_fpos (Some (buffer (device d))) wc off =
     Some (case seek_spec (commands d) (unat wc) (unat off) of None \<Rightarrow> - 1 | Some p \<Rightarrow> of_nat p)"
proof -
  let ?cb = "buffer (device d)" and ?c = "commands d"
  have di: "dev_inv (heap d) (device d)" using assms by (simp add: drv_inv_def)
  have wf: "cb_wf ?cb" by (rule dev_invD(2) [OF di])
  have n: "length ?c = cb_count ?cb" by (simp add: commands_def)
  have sz: "cb_sizes ?cb = map length ?c" using cmds_in_length [OF di] by (simp add: commands_def)
  show ?thesis
  proof (cases "buffer_empty ?cb")
    case True
    then have "?c = []" using n cb_count_bounds(3) [OF wf] by (simp flip: length_0_conv)
    with True show ?thesis
      by (simp add: seek_spec_def aesd_circular_buffer_find_seekto_fpos_def)
  next
    case False
    then have ne: "?c \<noteq> []" using n cb_count_bounds(3) [OF wf] by auto
    have st: "sum_list (take k (cb_sizes ?cb)) = cmd_start ?c k" for k
      by (simp add: sz cmd_start_def take_map)
    have e: "unat (esize (slot ?cb k)) = length (?c ! k)" if "k < length ?c" for k
    proof -
      have "cb_sizes ?cb ! k = length (?c ! k)" using that by (simp add: sz)
      with that show ?thesis using n nth_cb_sizes [of k ?cb] by simp
    qed
    have e_end: "unat (esize (slot ?cb (length ?c))) = (if length ?c = 10 then length (?c ! 0) else 0)"
    proof (cases "length ?c = 10")
      case True
      then have "slot ?cb (length ?c) = slot ?cb 0" by (simp add: slot_def MAXW_def)
      with True e [of 0] show ?thesis by simp
    next
      case nten: False
      then have "length ?c < 10" using n cb_count_le [of ?cb] by simp
      then have "slot ?cb (length ?c) = null_entry" using wf n by (simp add: cb_wf_def MAXW_def)
      with nten show ?thesis by (simp add: null_entry_def)
    qed
    show ?thesis
      using find_seekto_spec [OF wf False, of wc off] ne e [of "unat wc"] e_end n
      by (auto simp: seek_spec_def st le_less)
  qed
qed

lemma cmd_start_le: "cmd_start cmds k \<le> length (concat cmds)"
  using take_sum_le [of k "map length cmds"] by (simp add: cmd_start_def length_concat_sum take_map)

lemma seek_spec_bound:
  assumes "drv_inv d" and "seek_spec (commands d) c j = Some p"
  shows "p < 2 ^ 36"
proof -
  have len: "length x \<le> total_bytes d" if "x \<in> set (commands d)" for x
    using that member_le_sum_list [of "length x" "map length (commands d)"]
    by (simp add: total_bytes_def length_concat_sum)
  have "j \<le> total_bytes d"
    using assms(2) len [of "commands d ! c"] len [of "commands d ! 0"]
    by (auto simp: seek_spec_def split: if_splits intro: order_trans)
  moreover have "p = cmd_start (commands d) c + j"
    using assms(2) by (auto simp: seek_spec_def split: if_splits)
  ultimately show ?thesis
    using cmd_start_le [of "commands d" c] total_bytes_bound [OF assms(1)]
    by (simp add: total_bytes_def)
qed

lemma aesd_ioctl_seek:
  assumes "drv_inv d" and "\<not> lock (device d)" and "private_data fl = AesdDevice"
  shows "aesd_ioctl False 0 (Some fl) AESDCHAR_IOCSEEKTO arg d =
     Some (case seek_spec (commands d) (unat (write_cmd arg)) (unat (write_cmd_offset arg)) of
             None \<Rightarrow> (Returns (- EINVAL), Some fl, d)
           | Some p \<Rightarrow> (Returns 0, Some (fl\<lparr>f_pos := of_nat p\<rparr>), d))"
proof -
  have "(of_nat p :: size_t) \<noteq> - 1" if "p < 2 ^ 36" for p
    using that by (intro of_nat_not_minus_one) simp
  with aesd_ioctl_ok [OF assms, of arg] seekto_seek_spec [OF assms(1)] seek_spec_bound [OF assms(1)]
  show ?thesis by (auto split: option.splits)
qed

section \<open>Init and exit\<close>

lemma dev_inv_zero: "heap_ok h \<Longrightarrow> dev_inv h zero_dev"
  using cb_init_wf
  by (simp add: dev_inv_def zero_dev_def owned_def live_ptrs_def pending_stored_def null_entry_def
      aesd_circular_buffer_init_def)

lemma init_device:
  "aesd_init_module 0 major err d
     = (err, d\<lparr>aesd_major := major, region := (err = 0), device := zero_dev\<lparr>cdev_live := (err = 0)\<rparr>\<rparr>)"
  by (simp add: aesd_init_module_def Let_def aesd_setup_cdev_def upd_dev_def mutex_unlock_def
      zero_dev_def aesd_circular_buffer_init_def null_entry_def)

text \<open>
  The exit loop frees the pointers of the array in storage order: each of them is still
  allocated when its turn comes, because they are distinct.
\<close>

definition ptrs_at :: "aesd_circular_buffer \<Rightarrow> nat list \<Rightarrow> addr list" where
  "ptrs_at cb is = filter (\<lambda>p. p \<noteq> NULL) (map (\<lambda>i. buffptr (entry cb ! i)) is)"

lemma free_entries_ok:
  assumes "kernel_ok K"
  shows "distinct is \<Longrightarrow> set is \<subseteq> {..<length (entry cb)} \<Longrightarrow> distinct (ptrs_at cb is) \<Longrightarrow>
     (\<And>p. p \<in> set (ptrs_at cb is) \<Longrightarrow> \<not> no_block p \<and> h p \<noteq> None) \<Longrightarrow>
     \<exists>h' cb'. free_entries K is h cb = Some (h', cb')
       \<and> h' = (\<lambda>p. if p \<in> set (ptrs_at cb is) then None else h p)
       \<and> length (entry cb') = length (entry cb)
       \<and> (\<forall>i \<in> set is. buffptr (entry cb' ! i) = NULL)
       \<and> (\<forall>i. i \<notin> set is \<longrightarrow> entry cb' ! i = entry cb ! i)"
proof (induction "is" arbitrary: h cb)
  case Nil
  then show ?case by (auto simp: ptrs_at_def)
next
  case (Cons i "is")
  let ?e = "entry cb ! i"
  have i: "i < length (entry cb)" "i \<notin> set is" using Cons.prems by auto
  show ?case
  proof (cases "buffptr ?e = NULL")
    case True
    then have p: "ptrs_at cb (i # is) = ptrs_at cb is" by (simp add: ptrs_at_def)
    with Cons.IH [of cb h] Cons.prems obtain h' cb' where
      "free_entries K is h cb = Some (h', cb')"
      "h' = (\<lambda>p. if p \<in> set (ptrs_at cb is) then None else h p)"
      "length (entry cb') = length (entry cb)"
      "\<forall>i \<in> set is. buffptr (entry cb' ! i) = NULL" "\<forall>i. i \<notin> set is \<longrightarrow> entry cb' ! i = entry cb ! i"
      by auto
    with True i p show ?thesis by (auto simp: entry_at_def)
  next
    case False
    then have p: "ptrs_at cb (i # is) = buffptr ?e # ptrs_at cb is" by (simp add: ptrs_at_def)
    let ?h1 = "h(buffptr ?e := None)"
    let ?cb1 = "cb\<lparr>entry := (entry cb)[i := ?e\<lparr>buffptr := NULL\<rparr>]\<rparr>"
    have kf: "do_kfree K h (buffptr ?e) = Some ?h1"
      using Cons.prems(4) [of "buffptr ?e"] p assms by (simp add: do_kfree_live)
    have p1: "ptrs_at ?cb1 is = ptrs_at cb is"
      using i(2) unfolding ptrs_at_def
      by (intro arg_cong [where f = "filter _"] map_cong) (auto, metis nth_list_update_neq)
    have "\<not> no_block q \<and> ?h1 q \<noteq> None" if "q \<in> set (ptrs_at ?cb1 is)" for q
      using that Cons.prems(3) Cons.prems(4) [of q] p p1 by auto
    with Cons.IH [of ?cb1 ?h1] Cons.prems p p1 obtain h' cb' where
      *: "free_entries K is ?h1 ?cb1 = Some (h', cb')"
      "h' = (\<lambda>q. if q \<in> set (ptrs_at cb is) then None else ?h1 q)"
      "length (entry cb') = length (entry cb)"
      "\<forall>i \<in> set is. buffptr (entry cb' ! i) = NULL"
      "\<forall>j. j \<notin> set is \<longrightarrow> entry cb' ! j = entry ?cb1 ! j"
      by (auto simp del: fun_upd_apply)
    have "free_entries K (i # is) h cb = Some (h', cb')"
      using False i kf *(1) by (simp add: entry_at_def store_entry_def)
    moreover have "h' = (\<lambda>q. if q \<in> set (ptrs_at cb (i # is)) then None else h q)"
      using *(2) p by (auto simp: fun_eq_iff)
    moreover have "\<forall>j \<in> set (i # is). buffptr (entry cb' ! j) = NULL"
      using *(4,5) i by auto
    moreover have "\<forall>j. j \<notin> set (i # is) \<longrightarrow> entry cb' ! j = entry cb ! j"
      using *(5) by auto
    ultimately show ?thesis using *(3) by blast
  qed
qed

lemma ptrs_at_live:
  assumes "dev_inv h v"
  shows "set (ptrs_at (buffer v) [0..<10]) = set (live_ptrs v)"
    and "distinct (ptrs_at (buffer v) [0..<10])"
proof -
  let ?cb = "buffer v"
  let ?nn = "\<lambda>p. p \<noteq> NULL"
  note wf = dev_invD(2) [OF assms]
  have len: "length (entry ?cb) = 10" by (rule cb_wfD(1) [OF wf])
  have "map (\<lambda>i. buffptr (entry ?cb ! i)) [0..<10] = map buffptr (entry ?cb)"
    using len by (intro nth_equalityI) simp_all
  then have p: "ptrs_at ?cb [0..<10] = filter ?nn (map buffptr (entry ?cb))"
    by (simp add: ptrs_at_def)
  have "filter ?nn (live_ptrs v) = live_ptrs v"
    using live_ptrs_stored(1) [OF assms] by (intro filter_True) (metis no_block_simps(1))
  then have r: "filter ?nn (rotate (unat (out_offs ?cb)) (map buffptr (entry ?cb))) = live_ptrs v"
    using arg_cong [OF slots_live_dead [OF wf], of "\<lambda>es. filter ?nn (map buffptr es)"]
    unfolding slots_rotate [OF wf] rotate_map by (simp add: live_ptrs_def null_entry_def)
  show "set (ptrs_at ?cb [0..<10]) = set (live_ptrs v)"
    unfolding p r [symmetric] by simp
  have "distinct (live_ptrs v)" using dev_invD(5) [OF assms] by (simp add: owned_def)
  then show "distinct (ptrs_at ?cb [0..<10])"
    unfolding p r [symmetric] by (rule distinct_filter_rotate)
qed

text \<open>
  Unloading frees every block the device owns, each once; what is left in the heap is what
  had been leaked before.
\<close>

lemma cleanup_frees_owned:
  assumes K: "kernel_ok K" and inv: "drv_inv d"
  obtains d' where "aesd_cleanup_module K d = Some d'"
    "heap d' = (\<lambda>p. if p \<in> set (owned (device d)) then None else heap d p)"
    "\<not> region d'" "\<not> cdev_live (device d')"
proof -
  let ?v = "device d"
  have di: "dev_inv (heap d) ?v" using inv by (simp add: drv_inv_def)
  note pa = ptrs_at_live [OF di]
  have "set [0..<10] \<subseteq> {..<length (entry (buffer ?v))}"
    using cb_wfD(1) [OF dev_invD(2) [OF di]] by auto
  with free_entries_ok [OF K, of "[0..<10]" "buffer ?v" "heap d"] pa live_ptrs_stored [OF di]
  obtain h1 cb1 where f: "free_entries K [0..<10] (heap d) (buffer ?v) = Some (h1, cb1)"
    "h1 = (\<lambda>p. if p \<in> set (live_ptrs ?v) then None else heap d p)"
    by auto
  let ?p = "buffptr (new_entry ?v)"
  let ?h2 = "(\<lambda>p. if p \<in> set (owned ?v) then None else heap d p)"
  have k: "(if ?p \<noteq> NULL then do_kfree K h1 ?p else Some h1) = Some ?h2"
  proof (cases "no_block ?p")
    case True
    then show ?thesis using K f(2) by (simp add: do_kfree_no_block owned_def)
  next
    case False
    then have "?p \<in> set (owned ?v)" by (simp add: owned_def)
    with owned_stored [OF di] live_not_pending [OF di] f(2) have "h1 ?p \<noteq> None" by force
    with False K have "do_kfree K h1 ?p = Some (h1(?p := None))" by (simp add: do_kfree_live)
    moreover have "?p \<noteq> NULL" using False by auto
    moreover have "h1(?p := None) = ?h2" using False f(2) by (auto simp: owned_def fun_eq_iff)
    ultimately show ?thesis by simp
  qed
  have "aesd_cleanup_module K d = Some (upd_dev (\<lambda>v. v\<lparr>buffer := cb1\<rparr>)
      (upd_dev (\<lambda>v. v\<lparr>cdev_live := False\<rparr>) d\<lparr>heap := ?h2, region := False\<rparr>))"
    using f(1) k by (cases "?p = NULL") (simp_all add: aesd_cleanup_module_def MAXW_def Let_def)
  then show thesis by (rule that) simp_all
qed

section \<open>Any sequence of calls\<close>

text \<open>
  A call with its arguments and what the kernel answers in it. In a call of \<open>write\<close> the
  user's buffer holds \<open>count\<close> bytes.
\<close>

datatype call =
    Call_read bool size_t "kfile option" bool size_t "loff_t option"
  | Call_write size_t "kfile option" "byte list option" "loff_t option"
  | Call_llseek bool "kfile option" loff_t int
  | Call_ioctl bool size_t "kfile option" uint32_t aesd_seekto

fun valid_call :: "call \<Rightarrow> bool" where
  "valid_call (Call_write cs fo (Some data) fp) = (length data < 2 ^ 64)"
| "valid_call _ = True"

fun exec_call :: "kernel \<Rightarrow> call \<Rightarrow> driver \<Rightarrow> (outcome \<times> driver) option" where
  "exec_call K (Call_read i cs fo b n fp) d =
     do { (r, data, pos', d') \<leftarrow> aesd_read i cs fo b n fp d; Some (r, d') }"
| "exec_call K (Call_write cs fo buf fp) d =
     aesd_write K cs fo buf (of_nat (length (case buf of None \<Rightarrow> [] | Some x \<Rightarrow> x))) fp d"
| "exec_call K (Call_llseek i fo off wh) d =
     do { (r, fo', d') \<leftarrow> aesd_llseek i fo off wh d; Some (r, d') }"
| "exec_call K (Call_ioctl i cs fo cmd arg) d =
     do { (r, fo', d') \<leftarrow> aesd_ioctl i cs fo cmd arg d; Some (r, d') }"

fun run_calls :: "kernel \<Rightarrow> call list \<Rightarrow> driver \<Rightarrow> (outcome list \<times> driver) option" where
  "run_calls K [] d = Some ([], d)"
| "run_calls K (c # cs) d =
     do { (r, d1) \<leftarrow> exec_call K c d;
          (rs, d2) \<leftarrow> run_calls K cs d1;
          Some (r # rs, d2) }"

text \<open>The one call that is undefined: \<open>aesd_read\<close> reads \<open>*f_pos\<close> before it compares \<open>f_pos\<close> with
  \<open>NULL\<close>. The kernel always hands over a position.\<close>

fun null_pos_read :: "call \<Rightarrow> bool" where
  "null_pos_read (Call_read i cs fo b n fp) = (fp = None)"
| "null_pos_read _ = False"

text \<open>The one call that returns with the mutex held: a read whose copy to the user fails.\<close>

fun faulting_read :: "call \<Rightarrow> bool" where
  "faulting_read (Call_read i cs fo b n fp) = (cs \<noteq> 0)"
| "faulting_read _ = False"

lemma aesd_write_total:
  fixes count :: size_t
  assumes K: "kernel_ok K" and inv: "drv_inv d" and len: "length data = unat count"
  shows "\<exists>r d'. aesd_write K cs fo (Some data) count fp d = Some (r, d') \<and> drv_inv d'
     \<and> (r = Blocks \<longrightarrow> lock (device d)) \<and> lock (device d') = lock (device d)"
proof (cases "fo = None \<or> fp = None")
  case True
  then show ?thesis using inv by (auto simp: aesd_write_def split: option.splits)
next
  case False
  then obtain fl pos where fo: "fo = Some fl" and fp: "fp = Some pos" by auto
  show ?thesis
  proof (cases "private_data fl = AesdDevice \<and> \<not> lock (device d)")
    case True
    then have "private_data fl = AesdDevice" and free: "\<not> lock (device d)" by simp_all
    from K inv free this(1) len show ?thesis
    proof (cases rule: aesd_write_cases [where cs = cs and pos = pos])
      case kbuf_nomem
      with inv fo fp show ?thesis by auto
    next
      case (fault d')
      then have "device d' = device d" by (metis driver.select_convs(2) driver.surjective driver.update_convs(1))
      with fault fo fp show ?thesis by auto
    next
      case pending_nomem
      with pending_lost(1) [OF inv] fo fp show ?thesis by auto
    next
      case (written d' kbuf old)
      with fo fp free show ?thesis by auto
    qed
  next
    case other: False
    obtain kbuf h1 where km: "kmalloc K (heap d) count = (kbuf, h1)" by fastforce
    have fault: "drv_inv (d\<lparr>heap := h1\<rparr>)" if "kbuf \<noteq> NULL"
    proof -
      have di: "dev_inv (heap d) (device d)" using inv by (simp add: drv_inv_def)
      from K dev_invD(1) [OF di] km show ?thesis
      proof (cases rule: kmalloc_cases)
        case (block b)
        have frame: "\<And>p. p \<in> set (owned (device d)) \<Longrightarrow> h1 p = heap d p"
          using owned_stored(2) [OF di] block by force
        have "heap_ok h1" using block heap_ok_update [OF dev_invD(1) [OF di] block(2)] by simp
        from dev_inv_frame(1) [OF di this frame] show ?thesis by (simp add: drv_inv_def)
      qed (use inv that in simp_all)
    qed
    show ?thesis
    proof (cases "kbuf = NULL \<or> cs \<noteq> 0")
      case True
      with km fo fp inv fault show ?thesis by (auto simp: aesd_write_def)
    next
      case False
      then obtain h2 where "write_block h1 kbuf 0 (take (unat count) data) = Some h2"
        "read_block h2 kbuf 0 (unat count) = Some data" "drv_inv (d\<lparr>heap := h2\<rparr>)"
        using kbuf_filled [OF K inv km _ len] by metis
      with False other km fo fp show ?thesis
        by (cases "private_data fl") (auto simp: aesd_write_def Let_def)
    qed
  qed
qed

lemma dev_ptr_cases: "p \<noteq> AesdDevice \<Longrightarrow> p = NullDev"
  by (cases p) simp_all

text \<open>Every call is defined, keeps the invariant, and waits only for a mutex that is held.\<close>

lemma null_pos_undefined: "null_pos_read c \<Longrightarrow> exec_call K c d = None"
  by (cases c) (simp_all add: aesd_read_def)

lemma exec_call_ok:
  assumes K: "kernel_ok K" and inv: "drv_inv d" and v: "valid_call c" and np: "\<not> null_pos_read c"
  shows "\<exists>r d'. exec_call K c d = Some (r, d') \<and> drv_inv d'
     \<and> (r = Blocks \<longrightarrow> lock (device d))
     \<and> (lock (device d') \<longrightarrow> lock (device d) \<or> faulting_read c)"
proof (cases c)
  case (Call_write cs fo buf fp)
  show ?thesis
  proof (cases buf)
    case None
    with Call_write inv show ?thesis by (auto simp: aesd_write_def split: option.splits)
  next
    case (Some data)
    with Call_write v have "length data = unat (of_nat (length data) :: size_t)" by simp
    from aesd_write_total [OF K inv this, of cs fo fp] Some Call_write show ?thesis by auto
  qed
next
  case (Call_read i cs fo b n fp)
  with np obtain pos where fp: "fp = Some pos" by auto
  note Call_read = Call_read [unfolded fp]
  have di: "dev_inv (heap d) (device d)" using inv by (simp add: drv_inv_def)
  show ?thesis
  proof (cases "\<exists>fl. fo = Some fl \<and> b \<and> private_data fl = AesdDevice \<and> \<not> i \<and> \<not> lock (device d)")
    case True
    then obtain fl where fl: "fo = Some fl" "b" "private_data fl = AesdDevice" "\<not> i"
      "\<not> lock (device d)" by auto
    show ?thesis
    proof (cases "cs = 0")
      case True
      with aesd_read_ok [OF inv fl(5,3)] fl inv Call_read show ?thesis by auto
    next
      case False
      show ?thesis
      proof (cases "unat pos < length (concat (commands d))")
        case True
        with aesd_read_fault [OF inv fl(5,3) False] fl inv Call_read False show ?thesis by auto
      next
        case end_of_data: False
        then have "locate (map length (cmds_in (heap d) (device d))) (unat pos) = None"
          by (simp only: locate_None_iff length_concat_sum commands_def not_less)
        with find_entry_dev [OF di, of pos] fl inv Call_read show ?thesis
          by (simp add: aesd_read_def Let_def)
      qed
    qed
  next
    case False
    with inv Call_read show ?thesis
      by (cases fo) (auto simp: aesd_read_def dest: dev_ptr_cases)
  qed
next
  case (Call_llseek i fo off wh)
  have g: "aesd_circular_buffer_get_length (Some (buffer (device (mutex_locked d))))
      = Some (of_nat (total_bytes d))"
    using get_length_dev [OF inv] by simp
  then show ?thesis
    using inv Call_llseek by (cases fo) (auto simp: aesd_llseek_def Let_def)
next
  case (Call_ioctl i cs fo cmd arg)
  have "aesd_circular_buffer_find_seekto_fpos (Some (buffer (device (mutex_locked d))))
      (write_cmd arg) (write_cmd_offset arg) \<noteq> None"
    using seekto_seek_spec [OF inv] by simp
  then show ?thesis
    using inv Call_ioctl by (cases fo) (auto simp: aesd_ioctl_def Let_def)
qed

lemma run_calls_ok:
  assumes K: "kernel_ok K"
  shows "drv_inv d \<Longrightarrow> list_all valid_call cs \<Longrightarrow> \<not> list_ex null_pos_read cs \<Longrightarrow>
     \<exists>rs d'. run_calls K cs d = Some (rs, d') \<and> length rs = length cs \<and> drv_inv d'
       \<and> (\<not> lock (device d) \<longrightarrow> list_all (\<lambda>c. \<not> faulting_read c) cs \<longrightarrow> Blocks \<notin> set rs)"
proof (induction cs arbitrary: d)
  case Nil
  then show ?case by simp
next
  case (Cons c cs)
  then have vc: "valid_call c" "list_all valid_call cs" "\<not> null_pos_read c" "\<not> list_ex null_pos_read cs"
    by simp_all
  obtain r d1 where 1: "exec_call K c d = Some (r, d1)" "drv_inv d1"
      "r = Blocks \<longrightarrow> lock (device d)"
      "lock (device d1) \<longrightarrow> lock (device d) \<or> faulting_read c"
    using exec_call_ok [OF K Cons.prems(1) vc(1,3)] by blast
  obtain rs d2 where "run_calls K cs d1 = Some (rs, d2)" "length rs = length cs" "drv_inv d2"
      "\<not> lock (device d1) \<longrightarrow> list_all (\<lambda>c. \<not> faulting_read c) cs \<longrightarrow> Blocks \<notin> set rs"
    using Cons.IH [OF 1(2) vc(2,4)] by blast
  with 1 show ?case by auto
qed

lemma run_calls_null_pos: "list_ex null_pos_read cs \<Longrightarrow> run_calls K cs d = None"
proof (induction cs arbitrary: d)
  case (Cons c cs)
  then show ?case
    using null_pos_undefined [of c K d] by (cases "exec_call K c d") (auto simp del: exec_call.simps)
qed simp

text \<open>No call releases a mutex that another one holds.\<close>

lemma exec_call_locked:
  assumes "exec_call K c d = Some (r, d')" and "lock (device d)"
  shows "lock (device d')"
  using assms
  by (cases c) (auto simp: aesd_read_def aesd_write_def aesd_llseek_def aesd_ioctl_def Let_def
      split: option.splits if_splits prod.splits Option.bind_splits)

lemma run_calls_locked: "run_calls K cs d = Some (rs, d') \<Longrightarrow> lock (device d) \<Longrightarrow> lock (device d')"
proof (induction cs arbitrary: d rs)
  case (Cons c cs)
  then obtain r d1 rs' where "exec_call K c d = Some (r, d1)" "run_calls K cs d1 = Some (rs', d')"
    by (auto simp: bind_eq_Some_conv simp del: exec_call.simps)
  with Cons.IH exec_call_locked Cons.prems(2) show ?case by blast
qed simp

text \<open>A write that finds the mutex held sleeps, unless it fails before it needs it.\<close>

lemma locked_write:
  assumes K: "kernel_ok K" and inv: "drv_inv d" and "lock (device d)" and "private_data fl = AesdDevice"
    and len: "length data < 2 ^ 64"
  defines "nomem \<equiv> fst (kmalloc K (heap d) (of_nat (length data))) = NULL"
  shows "\<exists>d'. exec_call K (Call_write 0 (Some fl) (Some data) (Some pos)) d
      = Some (if nomem then Returns (- ENOMEM) else Blocks, d')"
proof -
  let ?n = "of_nat (length data) :: size_t"
  obtain kbuf h1 where km: "kmalloc K (heap d) ?n = (kbuf, h1)" by fastforce
  show ?thesis
  proof (cases "kbuf = NULL")
    case True
    with km show ?thesis by (simp add: aesd_write_def nomem_def)
  next
    case False
    have "length data = unat ?n" using len by simp
    from kbuf_filled [OF K inv km False this] obtain h2 where
      "write_block h1 kbuf 0 (take (unat ?n) data) = Some h2" "read_block h2 kbuf 0 (unat ?n) = Some data"
      by metis
    with km False assms(3,4) show ?thesis by (simp add: aesd_write_def Let_def nomem_def)
  qed
qed

end
