(* ===== verification/Driver_Examples.thy ===== *)
theory Driver_Examples
  imports Driver_Seek
begin

text \<open>
  Concrete states of the driver on which the theorems are evaluated: an unloaded module, a
  full buffer with a pending command, and two allocators, the arena of
  \<open>Kernel_Memory\<close> and one whose \<open>krealloc\<close> always fails.
\<close>

definition sample_file :: kfile where
  "sample_file = \<lparr>private_data = AesdDevice, f_pos = 0\<rparr>"

definition fresh_driver :: driver where
  "fresh_driver = \<lparr>heap = Map.empty, device = zero_dev, aesd_major = 0, region = False\<rparr>"

text \<open>No command yet, one pending byte.\<close>

definition pending_driver :: driver where
  "pending_driver = \<lparr>heap = [4096 \<mapsto> [121]],
     device = zero_dev\<lparr>new_entry := \<lparr>buffptr = 4096, esize = 1\<rparr>\<rparr>, aesd_major = 240, region = True\<rparr>"

text \<open>Ten commands and a pending byte.\<close>

definition full_driver :: driver where
  "full_driver = \<lparr>
     heap = map_of (map (\<lambda>p. (p, [97, 98, 10]))
       [4096, 8192, 12288, 16384, 20480, 24576, 28672, 32768, 36864, 40960] @ [(49152, [121])]),
     device = \<lparr>buffer = wrapped_buffer, new_entry = \<lparr>buffptr = 49152, esize = 1\<rparr>,
               lock = False, cdev_live = True\<rparr>,
     aesd_major = 240, region = True\<rparr>"

definition stingy_kernel :: kernel where
  "stingy_kernel = arena_kernel\<lparr>krealloc :=
     (\<lambda>h p n. if n = 0 then (ZERO_SIZE_PTR, dropped h p) else (NULL, h))\<rparr>"

lemma sample_file_simps [simp]: "private_data sample_file = AesdDevice" "f_pos sample_file = 0"
  by (simp_all add: sample_file_def)

lemma fresh_driver_inv: "drv_inv fresh_driver" "commands fresh_driver = []"
    "pending fresh_driver = []" "leaked fresh_driver = {}" "\<not> lock (device fresh_driver)"
    "pending_kept (device fresh_driver)"
proof -
  have z: "cb_live (buffer zero_dev) = []"
    using cb_init_wf(2) by (simp add: zero_dev_def aesd_circular_buffer_init_def)
  show "drv_inv fresh_driver"
    by (simp add: drv_inv_def fresh_driver_def dev_inv_zero heap_ok_def)
  show "commands fresh_driver = []" "pending fresh_driver = []" "leaked fresh_driver = {}"
    "\<not> lock (device fresh_driver)" "pending_kept (device fresh_driver)"
    using z by (simp_all add: commands_def cmds_in_def live_ptrs_def pending_def leaked_def
        fresh_driver_def contents_def zero_dev_def null_entry_def pending_kept_def)
qed

lemma pending_driver_inv: "drv_inv pending_driver" "commands pending_driver = []"
    "pending pending_driver = [121]" "\<not> lock (device pending_driver)"
proof -
  have z: "cb_live (buffer zero_dev) = []" "cb_wf (buffer zero_dev)"
    using cb_init_wf by (simp_all add: zero_dev_def aesd_circular_buffer_init_def)
  then show "drv_inv pending_driver" "commands pending_driver = []" "pending pending_driver = [121]"
      "\<not> lock (device pending_driver)"
    by (simp_all add: pending_driver_def drv_inv_def dev_inv_def heap_ok_def owned_def live_ptrs_def
        commands_def cmds_in_def pending_def contents_def no_block_def pending_stored_def
        KMALLOC_MAX_def holds_block_def)
       (simp add: zero_dev_def)
qed

lemma full_driver_live: "live_ptrs (device full_driver)
    = [4096, 8192, 12288, 16384, 20480, 24576, 28672, 32768, 36864, 40960]"
  by (simp add: live_ptrs_def full_driver_def wrapped_buffer_live)

lemma full_driver_owned: "owned (device full_driver)
    = [4096, 8192, 12288, 16384, 20480, 24576, 28672, 32768, 36864, 40960, 49152]"
  by (simp add: owned_def full_driver_live) (simp add: full_driver_def no_block_def)

lemma full_driver_inv: "drv_inv full_driver"
  unfolding drv_inv_def dev_inv_def full_driver_owned
  by (simp add: heap_ok_def full_driver_def wrapped_buffer_wf wrapped_buffer_live entry_stored_def
      holds_block_def no_block_def pending_stored_def KMALLOC_MAX_def)

lemma full_driver_commands: "commands full_driver = map (\<lambda>_. [97, 98, 10]) [1 :: nat, 2, 3, 4, 5, 6, 7, 8, 9, 10]"
  unfolding commands_def cmds_in_def full_driver_live
  by (simp add: contents_def no_block_def full_driver_def)

lemma full_driver_simps [simp]: "\<not> lock (device full_driver)" "pending_kept (device full_driver)"
    "pending full_driver = [121]"
  by (simp_all add: full_driver_def pending_kept_def pending_def contents_def no_block_def)

lemma stingy_kernel_ok: "kernel_ok stingy_kernel"
  using arena_kernel_ok
  by (auto simp: kernel_ok_def kmalloc_ok_def krealloc_ok_def kfree_ok_def stingy_kernel_def
      dropped_def word_gt_0)

text \<open>What evaluates a write on a concrete state.\<close>

lemma arena_eq: "arena = [4096, 8192, 12288, 16384, 20480, 24576, 28672, 32768, 36864, 40960,
    45056, 49152, 53248, 57344, 61440, 65536, 69632, 73728, 77824, 81920, 86016, 90112, 94208,
    98304, 102400, 106496, 110592, 114688, 118784, 122880, 126976, 131072]"
  by (simp add: arena_def upt_rec)

lemmas write_eval = aesd_write_def arena_kernel_def arena_alloc_def arena_eq KMALLOC_MAX_def
  write_block_def read_block_def block_def no_block_def null_entry_def append_pending_def
  mutex_locked_def mutex_unlock_def upd_dev_def do_krealloc_def do_kfree_def freeable_def Let_def
  commit_entry_def aesd_circular_buffer_add_entry_def entry_at_def store_entry_def MAXW_def
  grown_def contents_def dropped_def

end
