(* ===== verification/Driver_Properties.thy ===== *)
theory Driver_Properties
  imports Driver_Examples
begin

text \<open>
  The properties of the character driver's handlers: writing, reading and seeking refine
  operations on a list of commands; what is lost, leaked or left locked when an operation
  fails; and the safety of any sequence of calls from module init to module exit.
\<close>

section \<open>Writing\<close>

text \<open>C2: \<open>aesd_write\<close> refines the list specification: a write of \<open>data\<close> either succeeds and
  does to the commands and the pending command what \<open>spec_write\<close> says, or fails for lack of
  memory and leaves the commands alone. The device's invariant holds and the mutex is
  released in both cases.\<close>

theorem write_refines_list_spec:
  fixes count :: size_t
  assumes "kernel_ok K" and "drv_inv d" and "\<not> lock (device d)" and "pending_kept (device d)"
    and "private_data fl = AesdDevice" and "length data = unat count"
  shows "\<exists>r d'. aesd_write K 0 (Some fl) (Some data) count (Some pos) d = Some (Returns r, d')
     \<and> drv_inv d' \<and> \<not> lock (device d')
     \<and> (r = count \<and> pending_kept (device d')
          \<and> (commands d', pending d') = spec_write data (commands d, pending d)
        \<or> r = - ENOMEM \<and> commands d' = commands d \<and> pending d' \<in> {pending d, []})"
  using assms(1-3,5,6)
proof (cases rule: aesd_write_cases [where cs = 0 and pos = pos])
  case kbuf_nomem
  with assms show ?thesis by auto
next
  case pending_nomem
  with pending_lost [OF assms(2)] assms(3) show ?thesis by auto
next
  case (written d' kbuf old)
  with assms(4) show ?thesis by auto
qed auto

theorem write_refines_list_spec_witness:
  "\<exists>r d'. aesd_write arena_kernel 0 (Some sample_file) (Some [122, 10]) 2 (Some 0) full_driver
       = Some (Returns r, d')
     \<and> drv_inv d' \<and> \<not> lock (device d')
     \<and> (r = 2 \<and> pending_kept (device d')
          \<and> (commands d', pending d')
              = (map (\<lambda>_. [97, 98, 10]) [1 :: nat, 2, 3, 4, 5, 6, 7, 8, 9] @ [[121, 122, 10]], [])
        \<or> r = - ENOMEM \<and> commands d' = commands full_driver
          \<and> pending d' \<in> {pending full_driver, []})"
  using write_refines_list_spec [OF arena_kernel_ok full_driver_inv, of sample_file "[122, 10]" 2 0]
  by (simp add: full_driver_commands spec_write_def last_n_def)

text \<open>
  The buffer \<open>kmalloc\<close>ed for the user's bytes is freed only when \<open>krealloc\<close> fails.
\<close>

lemma write_success_leaks:
  assumes "kernel_ok K" and "drv_inv d" and "\<not> lock (device d)"
    and "private_data fl = AesdDevice" and "data \<noteq> []" and "length data \<le> KMALLOC_MAX"
    and "exec_call K (Call_write 0 (Some fl) (Some data) (Some pos)) d
           = Some (Returns (of_nat (length data)), d')"
  shows "drv_inv d'" "\<not> lock (device d')"
    "\<exists>kbuf. heap d kbuf = None \<and> leaked d' = insert kbuf (leaked d)"
proof -
  let ?n = "of_nat (length data) :: size_t"
  have un: "unat ?n = length data" using assms(6) by (simp add: KMALLOC_MAX_def)
  have nomem: "?n \<noteq> - ENOMEM"
  proof
    assume "?n = - ENOMEM"
    then have "length data = unat (- ENOMEM)" using un by simp
    with assms(6) show False by (simp add: KMALLOC_MAX_def ENOMEM_def)
  qed
  have W: "aesd_write K 0 (Some fl) (Some data) ?n (Some pos) d = Some (Returns ?n, d')"
    using assms(7) by simp
  from assms(1-4) un [symmetric]
  have "drv_inv d' \<and> \<not> lock (device d') \<and> (\<exists>kbuf. heap d kbuf = None \<and> leaked d' = insert kbuf (leaked d))"
  proof (cases rule: aesd_write_cases [where cs = 0 and pos = pos])
    case (written d'' kbuf old)
    with W assms(5) show ?thesis by auto
  qed (use W nomem in auto)
  then show "drv_inv d'" "\<not> lock (device d')"
    "\<exists>kbuf. heap d kbuf = None \<and> leaked d' = insert kbuf (leaked d)" by simp_all
qed

definition write_calls :: "kfile \<Rightarrow> byte list list \<Rightarrow> call list" where
  "write_calls fl ds = map (\<lambda>data. Call_write 0 (Some fl) (Some data) (Some 0)) ds"

text \<open>C9: every successful write of at least one byte leaks the temporary kernel buffer: after
  \<open>n\<close> of them, \<open>n\<close> more blocks are allocated that nothing refers to.\<close>

theorem successful_writes_leak_memory:
  assumes "kernel_ok K" and "drv_inv d" and "\<not> lock (device d)"
    and "private_data fl = AesdDevice" and "finite (leaked d)"
    and "\<forall>data \<in> set ds. data \<noteq> [] \<and> length data \<le> KMALLOC_MAX"
    and "run_calls K (write_calls fl ds) d
           = Some (map (\<lambda>data. Returns (of_nat (length data))) ds, d')"
  shows "finite (leaked d') \<and> card (leaked d') = card (leaked d) + length ds"
  using assms(2,3,5-7)
proof (induction ds arbitrary: d)
  case Nil
  then show ?case by (simp add: write_calls_def)
next
  case (Cons data ds)
  from Cons.prems(5) obtain d1 where
    1: "exec_call K (Call_write 0 (Some fl) (Some data) (Some 0)) d
          = Some (Returns (of_nat (length data)), d1)"
    "run_calls K (write_calls fl ds) d1 = Some (map (\<lambda>data. Returns (of_nat (length data))) ds, d')"
    by (auto simp: write_calls_def simp del: exec_call.simps split: Option.bind_splits)
  note w = write_success_leaks [OF assms(1) Cons.prems(1,2) assms(4) _ _ 1(1)]
  obtain kbuf where k: "heap d kbuf = None" "leaked d1 = insert kbuf (leaked d)"
    using w(3) Cons.prems(4) by auto
  have "kbuf \<notin> leaked d" using k(1) by (auto simp: leaked_def)
  with k(2) Cons.prems(3) have "finite (leaked d1)" "card (leaked d1) = Suc (card (leaked d))"
    by simp_all
  with Cons.IH [OF w(1,2) _ _ 1(2)] Cons.prems(4) show ?case by simp
qed

lemma two_writes: "\<exists>d'. run_calls arena_kernel (write_calls sample_file [[97], [98, 10]]) fresh_driver
    = Some ([Returns 1, Returns 2], d')"
  by (simp add: write_calls_def fresh_driver_def zero_dev_def write_eval)

theorem successful_writes_leak_memory_witness:
  "\<exists>d'. run_calls arena_kernel (write_calls sample_file [[97], [98, 10]]) fresh_driver
       = Some ([Returns 1, Returns 2], d') \<and> card (leaked d') = 2"
proof -
  obtain d' where d': "run_calls arena_kernel (write_calls sample_file [[97], [98, 10]]) fresh_driver
       = Some ([Returns 1, Returns 2], d')" using two_writes by blast
  with successful_writes_leak_memory [OF arena_kernel_ok fresh_driver_inv(1,5) sample_file_simps(1),
      of "[[97], [98, 10]]" d'] show ?thesis
    by (simp add: fresh_driver_inv KMALLOC_MAX_def)
qed

lemma count_not_enomem:
  fixes count :: size_t
  assumes "length data = unat count" and "length data \<le> KMALLOC_MAX"
  shows "count \<noteq> - ENOMEM"
proof
  assume "count = - ENOMEM"
  with assms show False by (simp add: KMALLOC_MAX_def ENOMEM_def)
qed

text \<open>C10: when \<open>krealloc\<close> fails, the pending command is lost but its size is not reset: the next
  command that is completed starts with as many unspecified bytes as the lost one had.\<close>

theorem failed_krealloc_corrupts_next_command:
  fixes count1 count2 :: size_t
  assumes "kernel_ok K1" and "kernel_ok K2" and "drv_inv d" and "\<not> lock (device d)"
    and "private_data fl = AesdDevice" and "length data1 = unat count1" and "length data2 = unat count2"
    and "length data1 \<le> KMALLOC_MAX" and "length data2 \<le> KMALLOC_MAX" and "pending d \<noteq> []"
    and "aesd_write K1 0 (Some fl) (Some data1) count1 (Some pos) d = Some (Returns (- ENOMEM), d1)"
    and "buffptr (new_entry (device d1)) = NULL"
    and "aesd_write K2 0 (Some fl) (Some data2) count2 (Some pos) d1 = Some (Returns count2, d2)"
    and "NL \<in> set data2"
  shows "pending d1 = [] \<and> (\<exists>junk. length junk = length (pending d)
     \<and> commands d2 = last_n 10 (commands d @ [junk @ data2]))"
proof -
  have di: "dev_inv (heap d) (device d)" using assms(3) by (simp add: drv_inv_def)
  have nn: "buffptr (new_entry (device d)) \<noteq> NULL"
    using assms(10) by (auto simp: pending_def contents_def)
  have sz: "unat (esize (new_entry (device d))) = length (pending d)"
    using pending_length [OF dev_invD(4) [OF di] nn] by (simp add: pending_def)
  have d1: "d1 = upd_dev (\<lambda>v. v\<lparr>new_entry := (new_entry v)\<lparr>buffptr := NULL\<rparr>\<rparr>) d"
    using assms(1,3-6)
  proof (cases rule: aesd_write_cases [where cs = 0 and pos = pos])
    case kbuf_nomem
    with assms(11,12) nn show ?thesis by auto
  next
    case (written d' kbuf old)
    with assms(11) count_not_enomem [OF assms(6,8)] show ?thesis by simp
  qed (use assms(11) in auto)
  note lost = pending_lost [OF assms(3), folded d1]
  have "\<not> lock (device d1)" using d1 assms(4) by simp
  from assms(2) lost(1) this assms(5,7)
  have "\<exists>junk. length junk = length (pending d) \<and> commands d2 = last_n 10 (commands d @ [junk @ data2])"
  proof (cases rule: aesd_write_cases [where cs = 0 and pos = pos])
    case (written d' junk_buf junk)
    with assms(13,14) have "commands d2 = last_n 10 (commands d1 @ [junk @ data2])"
      by (simp add: spec_write_def)
    moreover have "length junk = length (pending d)"
      using written(7) sz d1 by simp
    ultimately show ?thesis using lost(2) by auto
  qed (use assms(13) count_not_enomem [OF assms(7,9)] in auto)
  with lost(3) show ?thesis by simp
qed

lemma stingy_write: "aesd_write stingy_kernel 0 (Some sample_file) (Some [10]) 1 (Some 0) pending_driver
    = Some (Returns (- ENOMEM), upd_dev (\<lambda>v. v\<lparr>new_entry := (new_entry v)\<lparr>buffptr := NULL\<rparr>\<rparr>) pending_driver)"
  by (simp add: stingy_kernel_def pending_driver_def zero_dev_def write_eval)

lemma write_after_loss: "\<exists>d2. aesd_write arena_kernel 0 (Some sample_file) (Some [122, 10]) 2 (Some 0)
      (upd_dev (\<lambda>v. v\<lparr>new_entry := (new_entry v)\<lparr>buffptr := NULL\<rparr>\<rparr>) pending_driver)
    = Some (Returns 2, d2)"
  by (simp add: pending_driver_def zero_dev_def write_eval)

theorem failed_krealloc_corrupts_next_command_witness:
  "\<exists>d1 d2 junk. aesd_write stingy_kernel 0 (Some sample_file) (Some [10]) 1 (Some 0) pending_driver
       = Some (Returns (- ENOMEM), d1)
     \<and> aesd_write arena_kernel 0 (Some sample_file) (Some [122, 10]) 2 (Some 0) d1 = Some (Returns 2, d2)
     \<and> length junk = 1 \<and> commands d2 = [junk @ [122, 10]]"
proof -
  obtain d2 where "aesd_write arena_kernel 0 (Some sample_file) (Some [122, 10]) 2 (Some 0)
      (upd_dev (\<lambda>v. v\<lparr>new_entry := (new_entry v)\<lparr>buffptr := NULL\<rparr>\<rparr>) pending_driver) = Some (Returns 2, d2)"
    using write_after_loss by blast
  with failed_krealloc_corrupts_next_command [OF stingy_kernel_ok arena_kernel_ok
      pending_driver_inv(1,4) _ _ _ _ _ _ stingy_write _ this] stingy_write show ?thesis
    by (fastforce simp: KMALLOC_MAX_def pending_driver_inv)
qed

section \<open>Reading\<close>

text \<open>C3: \<open>aesd_read\<close> returns bytes of one command, exactly those \<open>spec_read\<close> names: they are
  what the commands laid end to end hold at the position, there are none only at the end of
  the data, and the position advances by their number. The device does not change.\<close>

theorem read_refines_list_spec:
  fixes count :: size_t and pos :: loff_t
  assumes "drv_inv d" and "\<not> lock (device d)" and "private_data fl = AesdDevice"
  shows "\<exists>out rest. aesd_read False 0 (Some fl) True count (Some pos) d
       = Some (Returns (of_nat (length out)), out, pos + of_nat (length out), d)
     \<and> out = spec_read (commands d) (unat pos) (unat count)
     \<and> drop (unat pos) (concat (commands d)) = out @ rest \<and> length out \<le> unat count
     \<and> (0 < count \<longrightarrow> (out = [] \<longleftrightarrow> length (concat (commands d)) \<le> unat pos))"
proof -
  let ?out = "spec_read (commands d) (unat pos) (unat count)"
  obtain rest where "drop (unat pos) (concat (commands d)) = ?out @ rest"
    using spec_read_prefix by blast
  moreover have "0 < count \<longrightarrow> (?out = [] \<longleftrightarrow> length (concat (commands d)) \<le> unat pos)"
    using spec_read_Nil_iff by (auto simp: word_less_nat_alt)
  ultimately show ?thesis
    using aesd_read_ok [OF assms, of count pos] spec_read_length by blast
qed

theorem read_refines_list_spec_witness:
  "\<exists>out. aesd_read False 0 (Some sample_file) True 8 (Some 4) full_driver
       = Some (Returns 2, out, 6, full_driver) \<and> out = [98, 10]"
  using read_refines_list_spec [OF full_driver_inv, of sample_file 8 4]
  by (auto simp: full_driver_commands spec_read_def)

text \<open>C11: a read whose copy to user memory faults returns 0, as at the end of the data, and
  keeps the mutex: whatever calls follow, on any open file a read, a seek or an ioctl sleeps
  until it is interrupted, and a write, which cannot be interrupted, sleeps unless its buffer
  cannot be allocated.\<close>

theorem faulting_read_wedges_device:
  fixes count :: size_t and pos :: loff_t
  assumes "kernel_ok K" and "drv_inv d" and "\<not> lock (device d)" and "private_data fl = AesdDevice"
    and "copy_status \<noteq> 0" and "unat pos < length (concat (commands d))"
    and "private_data fl2 = AesdDevice" and "length data2 < 2 ^ 64"
  shows "\<exists>data d1. aesd_read False copy_status (Some fl) True count (Some pos) d
       = Some (Returns 0, data, pos, d1)
     \<and> (\<forall>cs rs d2. list_all valid_call cs \<and> run_calls K cs d1 = Some (rs, d2) \<longrightarrow>
          exec_call K (Call_read i cs2 (Some fl2) True n (Some pos2)) d2
            = Some (if i then Returns (- ERESTARTSYS) else Blocks, d2)
        \<and> exec_call K (Call_llseek i (Some fl2) off wh) d2
            = Some (if i then Returns (- ERESTARTSYS) else Blocks, d2)
        \<and> exec_call K (Call_ioctl i 0 (Some fl2) AESDCHAR_IOCSEEKTO arg) d2
            = Some (if i then Returns (- ERESTARTSYS) else Blocks, d2)
        \<and> (\<exists>d3. exec_call K (Call_write 0 (Some fl2) (Some data2) (Some pos3)) d2
            = Some (if fst (kmalloc K (heap d2) (of_nat (length data2))) = NULL
                    then Returns (- ENOMEM) else Blocks, d3)))"
proof -
  let ?d1 = "mutex_locked d"
  obtain data where r: "aesd_read False copy_status (Some fl) True count (Some pos) d
      = Some (Returns 0, data, pos, ?d1)"
    using aesd_read_fault [OF assms(2-6), of count] by blast
  have l1: "lock (device ?d1)" by simp
  have inv1: "drv_inv ?d1" using assms(2) by simp
  have "exec_call K (Call_read i cs2 (Some fl2) True n (Some pos2)) d2
            = Some (if i then Returns (- ERESTARTSYS) else Blocks, d2)
        \<and> exec_call K (Call_llseek i (Some fl2) off wh) d2
            = Some (if i then Returns (- ERESTARTSYS) else Blocks, d2)
        \<and> exec_call K (Call_ioctl i 0 (Some fl2) AESDCHAR_IOCSEEKTO arg) d2
            = Some (if i then Returns (- ERESTARTSYS) else Blocks, d2)
        \<and> (\<exists>d3. exec_call K (Call_write 0 (Some fl2) (Some data2) (Some pos3)) d2
            = Some (if fst (kmalloc K (heap d2) (of_nat (length data2))) = NULL
                    then Returns (- ENOMEM) else Blocks, d3))"
    if "list_all valid_call cs" "run_calls K cs ?d1 = Some (rs, d2)" for cs rs d2
  proof -
    have l: "lock (device d2)" by (rule run_calls_locked [OF that(2) l1])
    have "\<not> list_ex null_pos_read cs" using run_calls_null_pos [of cs K ?d1] that(2) by auto
    then have "drv_inv d2" using run_calls_ok [OF assms(1) inv1 that(1)] that(2) by auto
    from locked_write [OF assms(1) this l assms(7,8), of pos3] l assms(7) show ?thesis
      by (simp add: aesd_read_def aesd_llseek_def aesd_ioctl_def del: exec_call.simps(2))
  qed
  with r show ?thesis by blast
qed

theorem faulting_read_wedges_device_witness:
  "\<exists>data d1. aesd_read False 1 (Some sample_file) True 8 (Some 4) full_driver = Some (Returns 0, data, 4, d1)
     \<and> exec_call arena_kernel (Call_read False 0 (Some sample_file) True 1 (Some 0)) d1 = Some (Blocks, d1)
     \<and> (\<exists>r d3. exec_call arena_kernel (Call_write 0 (Some sample_file) (Some [97]) (Some 0)) d1 = Some (r, d3)
          \<and> r \<in> {Blocks, Returns (- ENOMEM)})"
proof -
  have "\<exists>data d1. aesd_read False 1 (Some sample_file) True 8 (Some 4) full_driver
       = Some (Returns 0, data, 4, d1)
     \<and> (\<forall>cs rs d2. list_all valid_call cs \<and> run_calls arena_kernel cs d1 = Some (rs, d2) \<longrightarrow>
          exec_call arena_kernel (Call_read False 0 (Some sample_file) True 1 (Some 0)) d2
            = Some (if False then Returns (- ERESTARTSYS) else Blocks, d2)
        \<and> exec_call arena_kernel (Call_llseek False (Some sample_file) 0 0) d2
            = Some (if False then Returns (- ERESTARTSYS) else Blocks, d2)
        \<and> exec_call arena_kernel (Call_ioctl False 0 (Some sample_file) AESDCHAR_IOCSEEKTO
                \<lparr>write_cmd = 0, write_cmd_offset = 0\<rparr>) d2
            = Some (if False then Returns (- ERESTARTSYS) else Blocks, d2)
        \<and> (\<exists>d3. exec_call arena_kernel (Call_write 0 (Some sample_file) (Some [97]) (Some 0)) d2
            = Some (if fst (kmalloc arena_kernel (heap d2) (of_nat (length [97 :: byte]))) = NULL
                    then Returns (- ENOMEM) else Blocks, d3)))"
    by (rule faulting_read_wedges_device [OF arena_kernel_ok full_driver_inv])
       (simp_all add: full_driver_commands)
  then obtain data d1 where r: "aesd_read False 1 (Some sample_file) True 8 (Some 4) full_driver
       = Some (Returns 0, data, 4, d1)"
    and all: "\<And>cs rs d2. list_all valid_call cs \<and> run_calls arena_kernel cs d1 = Some (rs, d2) \<Longrightarrow>
          exec_call arena_kernel (Call_read False 0 (Some sample_file) True 1 (Some 0)) d2 = Some (Blocks, d2)
        \<and> (\<exists>d3. exec_call arena_kernel (Call_write 0 (Some sample_file) (Some [97]) (Some 0)) d2
            = Some (if fst (kmalloc arena_kernel (heap d2) (of_nat (length [97 :: byte]))) = NULL
                    then Returns (- ENOMEM) else Blocks, d3))"
    by (simp only: if_False) blast
  from r all [of "[]" "[]" d1] show ?thesis by (auto simp del: exec_call.simps split: if_splits)
qed

section \<open>Seeking\<close>

lemma sint_add_exact:
  fixes a b :: "64 word"
  assumes "- (2 ^ 63) \<le> sint a + sint b" and "sint a + sint b < 2 ^ 63"
  shows "sint (a + b) = sint a + sint b"
  using assms by (simp add: sint_word_ariths signed_take_bit_int_eq_self)

lemma nonneg_word:
  fixes p :: "64 word"
  assumes "0 \<le> sint p"
  shows "int (unat p) = sint p"
proof -
  have "uint (word_of_int (sint p) :: 64 word) = sint p mod 2 ^ 64"
    by (simp only: uint_word_of_int) simp
  moreover have "sint p < 2 ^ 63" using sint_lt [of p] by simp
  ultimately have "uint p = sint p" using assms by simp
  then show ?thesis by simp
qed

text \<open>C13: \<open>aesd_llseek\<close> moves the file position to the target the caller means, computed in the
  integers, when it lies within the data (its end included), and rejects it otherwise.\<close>

theorem llseek_moves_within_data:
  fixes offset :: loff_t
  assumes "drv_inv d" and "\<not> lock (device d)" and "private_data fl = AesdDevice"
    and "whence \<in> {SEEK_SET, SEEK_CUR, SEEK_END}"
    and "sint (f_pos fl) \<in> {0..<2 ^ 62}" and "sint offset \<in> {- (2 ^ 62)..<2 ^ 62}"
  defines "t \<equiv> (if whence = SEEK_SET then 0 else if whence = SEEK_CUR then sint (f_pos fl)
                else int (length (concat (commands d)))) + sint offset"
  shows "aesd_llseek False (Some fl) offset whence d =
     Some (if 0 \<le> t \<and> t \<le> int (length (concat (commands d)))
           then (Returns (word_of_int t), Some (fl\<lparr>f_pos := word_of_int t\<rparr>), d)
           else (Returns (- EINVAL), Some fl, d))"
proof -
  let ?p = "llseek_target d fl offset whence"
  have tot: "sint (of_nat (total_bytes d) :: 64 word) = int (total_bytes d)"
    using total_bytes_bound [OF assms(1)] by (subst sint_small) simp_all
  have p: "sint ?p = t"
    using assms(4-6) tot total_bytes_bound [OF assms(1)]
    by (auto simp: llseek_target_def t_def total_bytes_def sint_add_exact SEEK_SET_def SEEK_CUR_def
        SEEK_END_def)
  have "word_of_int (sint ?p) = ?p" by simp
  then have "?p = word_of_int t" by (simp only: p)
  moreover have "(0 \<le> sint ?p \<and> unat ?p \<le> total_bytes d)
      \<longleftrightarrow> (0 \<le> t \<and> t \<le> int (length (concat (commands d))))"
    using nonneg_word [of ?p] unfolding p total_bytes_def by (metis of_nat_le_iff)
  ultimately show ?thesis
    using aesd_llseek_ok [OF assms(1-4), of offset] by simp
qed

theorem llseek_moves_within_data_witness:
  "aesd_llseek False (Some sample_file) (- 3) SEEK_END full_driver =
     Some (Returns 27, Some (sample_file\<lparr>f_pos := 27\<rparr>), full_driver)"
  using llseek_moves_within_data [OF full_driver_inv, of sample_file SEEK_END "- 3"]
  by (simp add: full_driver_commands SEEK_SET_def SEEK_CUR_def SEEK_END_def)

lemma spec_read_at:
  assumes "c < length cmds" and "j < length (cmds ! c)"
  shows "spec_read cmds (cmd_start cmds c + j) n = take n (drop j (cmds ! c))"
proof -
  have "locate (map length cmds) (cmd_start cmds c + j) = Some (c, j)"
    using locate_at [of c "map length cmds" j] assms by (simp add: cmd_start_def take_map)
  then show ?thesis by (simp add: spec_read_def)
qed

text \<open>C6: \<open>AESDCHAR_IOCSEEKTO\<close> with a command number and an offset inside that command moves
  the file position there: the next read returns the bytes of that command from that
  offset on.\<close>

theorem ioctl_then_read:
  fixes count :: size_t
  assumes "drv_inv d" and "\<not> lock (device d)" and "private_data fl = AesdDevice"
    and "unat (write_cmd arg) < length (commands d)"
    and "unat (write_cmd_offset arg) < length (commands d ! unat (write_cmd arg))"
  defines "out \<equiv> take (unat count) (drop (unat (write_cmd_offset arg)) (commands d ! unat (write_cmd arg)))"
  shows "\<exists>p. aesd_ioctl False 0 (Some fl) AESDCHAR_IOCSEEKTO arg d
       = Some (Returns 0, Some (fl\<lparr>f_pos := p\<rparr>), d)
     \<and> aesd_read False 0 (Some (fl\<lparr>f_pos := p\<rparr>)) True count (Some p) d
       = Some (Returns (of_nat (length out)), out, p + of_nat (length out), d)"
proof -
  let ?p = "cmd_start (commands d) (unat (write_cmd arg)) + unat (write_cmd_offset arg)"
  have s: "seek_spec (commands d) (unat (write_cmd arg)) (unat (write_cmd_offset arg)) = Some ?p"
    using assms(4,5) by (auto simp: seek_spec_def)
  then have u: "unat (of_nat ?p :: size_t) = ?p"
    using seek_spec_bound [OF assms(1) s] by (intro unat_of_nat_size) simp
  have "private_data (fl\<lparr>f_pos := of_nat ?p\<rparr>) = AesdDevice" using assms(3) by simp
  from aesd_read_ok [OF assms(1,2) this, of count "of_nat ?p"]
  have "aesd_read False 0 (Some (fl\<lparr>f_pos := of_nat ?p\<rparr>)) True count (Some (of_nat ?p)) d
      = Some (Returns (of_nat (length out)), out, of_nat ?p + of_nat (length out), d)"
    by (simp only: u spec_read_at [OF assms(4,5)] out_def)
  moreover have "aesd_ioctl False 0 (Some fl) AESDCHAR_IOCSEEKTO arg d
      = Some (Returns 0, Some (fl\<lparr>f_pos := of_nat ?p\<rparr>), d)"
    using aesd_ioctl_seek [OF assms(1-3), of arg] s by simp
  ultimately show ?thesis by blast
qed

theorem ioctl_then_read_witness:
  "\<exists>p. aesd_ioctl False 0 (Some sample_file) AESDCHAR_IOCSEEKTO
         \<lparr>write_cmd = 2, write_cmd_offset = 1\<rparr> full_driver
       = Some (Returns 0, Some (sample_file\<lparr>f_pos := p\<rparr>), full_driver)
     \<and> aesd_read False 0 (Some (sample_file\<lparr>f_pos := p\<rparr>)) True 8 (Some p) full_driver
       = Some (Returns 2, [98, 10], p + 2, full_driver)"
  using ioctl_then_read [OF full_driver_inv, of sample_file "\<lparr>write_cmd = 2, write_cmd_offset = 1\<rparr>" 8]
  by (simp add: full_driver_commands)

text \<open>C7: which seeks \<open>AESDCHAR_IOCSEEKTO\<close> accepts, and where they lead, is \<open>seek_spec\<close> of the
  commands; everything else is rejected with \<open>-EINVAL\<close>, and no seek changes the device.\<close>

theorem ioctl_refines_seek_spec:
  assumes "drv_inv d" and "\<not> lock (device d)" and "private_data fl = AesdDevice"
  shows "case seek_spec (commands d) (unat (write_cmd arg)) (unat (write_cmd_offset arg)) of
       None \<Rightarrow> aesd_ioctl False 0 (Some fl) AESDCHAR_IOCSEEKTO arg d
                 = Some (Returns (- EINVAL), Some fl, d)
     | Some n \<Rightarrow> \<exists>p. aesd_ioctl False 0 (Some fl) AESDCHAR_IOCSEEKTO arg d
                 = Some (Returns 0, Some (fl\<lparr>f_pos := p\<rparr>), d) \<and> unat p = n"
proof (cases "seek_spec (commands d) (unat (write_cmd arg)) (unat (write_cmd_offset arg))")
  case None
  then show ?thesis using aesd_ioctl_seek [OF assms, of arg] by simp
next
  case (Some n)
  then have "unat (of_nat n :: size_t) = n"
    using seek_spec_bound [OF assms(1)] by (intro unat_of_nat_size) force
  with Some show ?thesis using aesd_ioctl_seek [OF assms, of arg] by auto
qed

theorem ioctl_refines_seek_spec_witness:
  "aesd_ioctl False 0 (Some sample_file) AESDCHAR_IOCSEEKTO
      \<lparr>write_cmd = 3, write_cmd_offset = 4\<rparr> full_driver
     = Some (Returns (- EINVAL), Some sample_file, full_driver)"
  using ioctl_refines_seek_spec [OF full_driver_inv, of sample_file "\<lparr>write_cmd = 3, write_cmd_offset = 4\<rparr>"]
  by (simp add: full_driver_commands seek_spec_def)

text \<open>C14: the command number one past the last is accepted, with any offset up to the length of
  the oldest command when ten are kept: the file position is then at or beyond the end of
  the data, and a read there returns nothing.\<close>

theorem ioctl_accepts_command_past_last:
  fixes count :: size_t
  assumes "drv_inv d" and "\<not> lock (device d)" and "private_data fl = AesdDevice"
    and "commands d \<noteq> []" and "unat (write_cmd arg) = length (commands d)"
    and "unat (write_cmd_offset arg)
           \<le> (if length (commands d) = 10 then length (commands d ! 0) else 0)"
  shows "\<exists>p. aesd_ioctl False 0 (Some fl) AESDCHAR_IOCSEEKTO arg d
       = Some (Returns 0, Some (fl\<lparr>f_pos := p\<rparr>), d)
     \<and> unat p = length (concat (commands d)) + unat (write_cmd_offset arg)
     \<and> aesd_read False 0 (Some (fl\<lparr>f_pos := p\<rparr>)) True count (Some p) d = Some (Returns 0, [], p, d)"
proof -
  let ?n = "length (concat (commands d)) + unat (write_cmd_offset arg)"
  have s: "seek_spec (commands d) (unat (write_cmd arg)) (unat (write_cmd_offset arg)) = Some ?n"
    using assms(4-6) by (simp add: seek_spec_def cmd_start_def length_concat_sum)
  then have u: "unat (of_nat ?n :: size_t) = ?n"
    using seek_spec_bound [OF assms(1) s] by (intro unat_of_nat_size) simp
  have "locate (map length (commands d)) ?n = None"
    by (simp add: locate_None_iff length_concat_sum)
  then have "spec_read (commands d) ?n (unat count) = []" by (simp add: spec_read_def)
  moreover have "private_data (fl\<lparr>f_pos := of_nat ?n\<rparr>) = AesdDevice" using assms(3) by simp
  ultimately have "aesd_read False 0 (Some (fl\<lparr>f_pos := of_nat ?n\<rparr>)) True count (Some (of_nat ?n)) d
      = Some (Returns 0, [], of_nat ?n, d)"
    using aesd_read_ok [OF assms(1,2), of "fl\<lparr>f_pos := of_nat ?n\<rparr>" count "of_nat ?n"] u by simp
  moreover have "aesd_ioctl False 0 (Some fl) AESDCHAR_IOCSEEKTO arg d
      = Some (Returns 0, Some (fl\<lparr>f_pos := of_nat ?n\<rparr>), d)"
    using aesd_ioctl_seek [OF assms(1-3), of arg] s by simp
  ultimately show ?thesis using u by blast
qed

theorem ioctl_accepts_command_past_last_witness:
  "\<exists>p. aesd_ioctl False 0 (Some sample_file) AESDCHAR_IOCSEEKTO
         \<lparr>write_cmd = 10, write_cmd_offset = 3\<rparr> full_driver
       = Some (Returns 0, Some (sample_file\<lparr>f_pos := p\<rparr>), full_driver) \<and> unat p = 33"
  using ioctl_accepts_command_past_last [OF full_driver_inv, of sample_file
      "\<lparr>write_cmd = 10, write_cmd_offset = 3\<rparr>"]
  by (auto simp: full_driver_commands)

section \<open>Errors\<close>

text \<open>C18: on a file that has been released no operation reaches the device: read, seek and ioctl
  answer \<open>-EINVAL\<close> and change nothing, a write answers \<open>-EINVAL\<close> (or \<open>-ENOMEM\<close>) and leaves
  the commands and the pending command alone.\<close>

theorem released_file_is_rejected:
  assumes "kernel_ok K" and "drv_inv d" and "length data < 2 ^ 64"
  shows "exec_call K (Call_read i cs (Some (snd (aesd_release fl))) b n (Some pos)) d = Some (Returns (- EINVAL), d)
     \<and> exec_call K (Call_llseek i (Some (snd (aesd_release fl))) off wh) d = Some (Returns (- EINVAL), d)
     \<and> exec_call K (Call_ioctl i cs (Some (snd (aesd_release fl))) AESDCHAR_IOCSEEKTO arg) d
         = Some (Returns (- EINVAL), d)
     \<and> (\<exists>e d'. exec_call K (Call_write 0 (Some (snd (aesd_release fl))) (Some data) (Some pos)) d
           = Some (Returns e, d') \<and> e \<in> {- EINVAL, - ENOMEM}
           \<and> drv_inv d' \<and> commands d' = commands d \<and> pending d' = pending d)"
proof -
  have priv: "private_data (snd (aesd_release fl)) = NullDev" by (simp add: aesd_release_def)
  let ?n = "of_nat (length data) :: size_t"
  have len: "length data = unat ?n" using assms(3) by simp
  obtain kbuf h1 where km: "kmalloc K (heap d) ?n = (kbuf, h1)" by fastforce
  have "\<exists>e d'. aesd_write K 0 (Some (snd (aesd_release fl))) (Some data) ?n (Some pos) d
           = Some (Returns e, d') \<and> e \<in> {- EINVAL, - ENOMEM}
           \<and> drv_inv d' \<and> commands d' = commands d \<and> pending d' = pending d"
  proof (cases "kbuf = NULL")
    case True
    with km assms(2) show ?thesis by (simp add: aesd_write_def)
  next
    case False
    obtain h2 where "write_block h1 kbuf 0 (take (unat ?n) data) = Some h2"
      "read_block h2 kbuf 0 (unat ?n) = Some data" "drv_inv (d\<lparr>heap := h2\<rparr>)"
      "commands (d\<lparr>heap := h2\<rparr>) = commands d" "pending (d\<lparr>heap := h2\<rparr>) = pending d"
      by (rule kbuf_filled [OF assms(1,2) km False len])
    with km False priv show ?thesis by (simp add: aesd_write_def Let_def)
  qed
  with priv show ?thesis by (simp add: aesd_read_def aesd_llseek_def aesd_ioctl_def)
qed

theorem released_file_is_rejected_witness:
  "exec_call arena_kernel (Call_read False 0 (Some (snd (aesd_release sample_file))) True 5 (Some 0)) full_driver
     = Some (Returns (- EINVAL), full_driver)"
  using released_file_is_rejected [OF arena_kernel_ok full_driver_inv, of "[10]" False 0 sample_file True 5 0]
  by (simp del: exec_call.simps)

section \<open>The life of the module\<close>

text \<open>C4: from the initialised module on, whatever the calls, their arguments and the kernel's
  answers, a sequence of calls runs into undefined behaviour (a bad pointer, an index out of
  range, a double free) exactly when it has a read with a null position pointer, which the
  kernel never passes; otherwise the device's invariant is kept, and no call sleeps for ever
  unless a read faulted before.\<close>

theorem calls_are_safe:
  assumes "kernel_ok K" and "heap_ok h" and "list_all valid_call cs"
  shows "case run_calls K cs (snd (aesd_init_module 0 major 0 (d\<lparr>heap := h\<rparr>))) of
      None \<Rightarrow> list_ex null_pos_read cs
    | Some (rs, d') \<Rightarrow> \<not> list_ex null_pos_read cs \<and> length rs = length cs \<and> drv_inv d'
        \<and> (list_all (\<lambda>c. \<not> faulting_read c) cs \<longrightarrow> Blocks \<notin> set rs)"
proof -
  let ?d = "snd (aesd_init_module 0 major 0 (d\<lparr>heap := h\<rparr>))"
  have inv: "drv_inv ?d" using dev_inv_zero [OF assms(2)] by (simp add: drv_inv_def init_device)
  have free: "\<not> lock (device ?d)" by (simp add: init_device zero_dev_def)
  show ?thesis
  proof (cases "list_ex null_pos_read cs")
    case True
    with run_calls_null_pos [OF True, of K ?d] show ?thesis by simp
  next
    case False
    with run_calls_ok [OF assms(1) inv assms(3) False] free show ?thesis by auto
  qed
qed

theorem calls_are_safe_witness:
  "\<exists>rs d'. run_calls arena_kernel
       [Call_write 0 (Some sample_file) (Some [97, 10]) (Some 0), Call_write 7 None None None,
        Call_read True 0 (Some sample_file) True 5 (Some 0), Call_llseek False None 0 9,
        Call_ioctl False 0 (Some sample_file) 3 \<lparr>write_cmd = 0, write_cmd_offset = 1\<rparr>]
       (snd (aesd_init_module 0 240 0 (fresh_driver\<lparr>heap := Map.empty\<rparr>))) = Some (rs, d')
     \<and> drv_inv d' \<and> Blocks \<notin> set rs"
proof -
  let ?cs = "[Call_write 0 (Some sample_file) (Some [97, 10]) (Some 0), Call_write 7 None None None,
        Call_read True 0 (Some sample_file) True 5 (Some 0), Call_llseek False None 0 9,
        Call_ioctl False 0 (Some sample_file) 3 \<lparr>write_cmd = 0, write_cmd_offset = 1\<rparr>]"
  have "heap_ok Map.empty" "list_all valid_call ?cs" "list_all (\<lambda>c. \<not> faulting_read c) ?cs"
    by (simp_all add: heap_ok_def)
  moreover have "\<not> list_ex null_pos_read ?cs" by simp
  ultimately show ?thesis
    using calls_are_safe [OF arena_kernel_ok, of Map.empty ?cs 240 fresh_driver]
    by (auto simp del: run_calls.simps split: option.splits)
qed

text \<open>C12: \<open>aesd_cleanup_module\<close> frees every block the device owns, the stored commands' and the
  pending command's, each exactly once (a second free would be undefined), gives back the
  device numbers, and leaves allocated only what had been leaked.\<close>

theorem cleanup_frees_everything_owned:
  assumes "kernel_ok K" and "drv_inv d"
  shows "\<exists>d'. aesd_cleanup_module K d = Some d' \<and> dom (heap d') = leaked d
     \<and> \<not> region d' \<and> \<not> cdev_live (device d')"
proof -
  obtain d' where "aesd_cleanup_module K d = Some d'"
    "heap d' = (\<lambda>p. if p \<in> set (owned (device d)) then None else heap d p)"
    "\<not> region d'" "\<not> cdev_live (device d')"
    by (rule cleanup_frees_owned [OF assms])
  then show ?thesis by (auto simp: leaked_def dom_def)
qed

theorem cleanup_frees_everything_owned_witness:
  "\<exists>d'. aesd_cleanup_module arena_kernel full_driver = Some d' \<and> dom (heap d') = leaked full_driver
     \<and> \<not> region d' \<and> \<not> cdev_live (device d')"
  by (rule cleanup_frees_everything_owned [OF arena_kernel_ok full_driver_inv])

text \<open>C17: \<open>aesd_init_module\<close> reports the error of the step that failed and keeps the device
  numbers only when both steps succeeded; a loaded device holds no commands and its mutex
  is free.\<close>

theorem init_all_or_nothing:
  assumes "heap_ok (heap d)" and "\<not> region d"
  shows "case aesd_init_module alloc_result major cdev_err d of (r, d') \<Rightarrow>
     (r = (if alloc_result < 0 then alloc_result else cdev_err)) \<and> heap d' = heap d
     \<and> region d' = (\<not> alloc_result < 0 \<and> cdev_err = 0)
     \<and> (\<not> alloc_result < 0 \<longrightarrow> drv_inv d' \<and> commands d' = [] \<and> pending d' = []
          \<and> \<not> lock (device d') \<and> cdev_live (device d') = (cdev_err = 0))"
proof (cases "alloc_result < 0")
  case True
  with assms show ?thesis by (simp add: aesd_init_module_def Let_def)
next
  case False
  then have "aesd_init_module alloc_result major cdev_err d = aesd_init_module 0 major cdev_err d"
    by (simp add: aesd_init_module_def Let_def)
  moreover have "drv_inv (snd (aesd_init_module 0 major cdev_err d))"
    using dev_inv_zero [OF assms(1)] by (simp add: init_device drv_inv_def)
  moreover have "cb_live (buffer zero_dev) = []"
    using cb_init_wf(2) by (simp add: zero_dev_def aesd_circular_buffer_init_def)
  ultimately show ?thesis
    using False by (simp add: init_device commands_def cmds_in_def live_ptrs_def
        pending_def contents_def zero_dev_def null_entry_def)
qed

theorem init_all_or_nothing_witness:
  "case aesd_init_module 0 240 (- 12) fresh_driver of (r, d') \<Rightarrow> r = - 12 \<and> \<not> region d'"
  using init_all_or_nothing [where d = fresh_driver and alloc_result = 0 and major = 240 and cdev_err = "- 12"]
  by (simp add: fresh_driver_def heap_ok_def split: prod.splits)

end
