(* ===== verification/Char_Device.thy ===== *)
theory Char_Device
  imports Driver_Seek
begin

text \<open>
  The interface between the socket server and the character device: what the system calls
  \<open>open\<close>, \<open>read\<close>, \<open>write\<close>, \<open>ioctl\<close>, \<open>close\<close> on \<^verbatim>\<open>/dev/aesdchar\<close> do. \<open>dev_ops\<close> is the
  record of these calls, an argument of the server's model; the locales \<open>seek_device\<close> and
  \<open>char_device\<close> are the contract the server relies on; \<open>aesd_ops\<close> is the dispatch of
  \<open>aesd_fops\<close> (\<^verbatim>\<open>aesd-char-driver/main.c\<close>) through the kernel's file layer to the driver's
  handlers, and the interpretations discharge the contract for it.
\<close>

section \<open>System calls on the device\<close>

text \<open>
  \<open>'d\<close> is the state of the device, \<open>'f\<close> that of an open file. A call is undefined
  (\<open>None\<close>) when it does not return. \<open>dev_open\<close> returns no file for a negative descriptor.
\<close>

record ('d, 'f) dev_ops =
  dev_open :: "'d \<Rightarrow> ('f option \<times> 'd) option"
  dev_read :: "size_t \<Rightarrow> 'f \<Rightarrow> 'd \<Rightarrow> (ssize_t \<times> byte list \<times> 'f \<times> 'd) option"
  dev_write :: "byte list \<Rightarrow> 'f \<Rightarrow> 'd \<Rightarrow> (ssize_t \<times> 'f \<times> 'd) option"
  dev_ioctl :: "aesd_seekto \<Rightarrow> 'f \<Rightarrow> 'd \<Rightarrow> (ssize_t \<times> 'f \<times> 'd) option"
  dev_close :: "'f \<Rightarrow> 'd \<Rightarrow> 'd"

section \<open>The contract\<close>

locale seek_device =
  fixes ops :: "('d, 'f) dev_ops"
    and sound :: "'d \<Rightarrow> bool"
    and usable :: "'f \<Rightarrow> bool"
    and cmds :: "'d \<Rightarrow> byte list list"
    and fpos :: "'f \<Rightarrow> nat"
  assumes open_law: "sound d \<Longrightarrow> \<exists>f. dev_open ops d = Some (Some f, d) \<and> usable f \<and> fpos f = 0"
    and read_law: "sound d \<Longrightarrow> usable f \<Longrightarrow> \<exists>f'. dev_read ops n f d =
          Some (of_nat (length (spec_read (cmds d) (fpos f) (unat n))),
                spec_read (cmds d) (fpos f) (unat n), f', d)
        \<and> usable f' \<and> fpos f' = fpos f + length (spec_read (cmds d) (fpos f) (unat n))"
    and ioctl_law: "sound d \<Longrightarrow> usable f \<Longrightarrow>
        (case seek_spec (cmds d) (unat (write_cmd s)) (unat (write_cmd_offset s)) of
           None \<Rightarrow> dev_ioctl ops s f d = Some (- 1, f, d)
         | Some p \<Rightarrow> \<exists>f'. dev_ioctl ops s f d = Some (0, f', d) \<and> usable f' \<and> fpos f' = p)"
    and close_law: "sound d \<Longrightarrow> dev_close ops f d = d"

text \<open>
  Writing. A write may fail for lack of memory; then the commands stay, and the device is
  still \<open>sound\<close>, but what is pending is not known any more (not \<open>good\<close>).
\<close>

locale char_device = seek_device ops sound usable cmds fpos
  for ops :: "('d, 'f) dev_ops" and sound and usable :: "'f \<Rightarrow> bool" and cmds and fpos +
  fixes good :: "'d \<Rightarrow> bool"
    and pend :: "'d \<Rightarrow> byte list"
  assumes good_sound: "good d \<Longrightarrow> sound d"
    and write_defined: "sound d \<Longrightarrow> usable f \<Longrightarrow> length data < 2 ^ 31 \<Longrightarrow>
        \<exists>r d'. dev_write ops data f d = Some (r, f, d') \<and> sound d'
          \<and> r \<in> {of_nat (length data), - 1} \<and> (r = - 1 \<longrightarrow> cmds d' = cmds d)"
    and write_law: "good d \<Longrightarrow> usable f \<Longrightarrow> length data < 2 ^ 31 \<Longrightarrow>
        dev_write ops data f d = Some (of_nat (length data), f, d') \<Longrightarrow>
        good d' \<and> (cmds d', pend d') = spec_write data (cmds d, pend d)"

section \<open>The driver behind the system calls\<close>

text \<open>A system call turns a negative value of the handler into \<open>-1\<close>.\<close>

definition user_ret :: "ssize_t \<Rightarrow> ssize_t" where
  "user_ret r = (if sint r < 0 then - 1 else r)"

text \<open>
  The kernel hands \<open>read\<close> and \<open>write\<close> a copy of the file position and stores it back when
  the call succeeded; a file just opened has position 0. In these calls no signal arrives
  and the caller's buffers are valid.
\<close>

definition aesd_ops :: "kernel \<Rightarrow> (driver, kfile) dev_ops" where
  "aesd_ops K =
     \<lparr>dev_open = (\<lambda>d. case aesd_open \<lparr>private_data = NullDev, f_pos = 0\<rparr> of
          (Returns r, f) \<Rightarrow> Some (if sint r < 0 then None else Some f, d)
        | (Blocks, f) \<Rightarrow> None),
      dev_read = (\<lambda>n f d. do {
          (r, out, pos, d') \<leftarrow> aesd_read False 0 (Some f) True n (Some (f_pos f)) d;
          case r of Blocks \<Rightarrow> None
          | Returns v \<Rightarrow> Some (user_ret v, out, if sint v < 0 then f else f\<lparr>f_pos := pos\<rparr>, d') }),
      dev_write = (\<lambda>data f d. do {
          (r, d') \<leftarrow> aesd_write K 0 (Some f) (Some data) (of_nat (length data)) (Some (f_pos f)) d;
          case r of Blocks \<Rightarrow> None | Returns v \<Rightarrow> Some (user_ret v, f, d') }),
      dev_ioctl = (\<lambda>s f d. do {
          (r, fo, d') \<leftarrow> aesd_ioctl False 0 (Some f) AESDCHAR_IOCSEEKTO s d;
          f' \<leftarrow> fo;
          case r of Blocks \<Rightarrow> None | Returns v \<Rightarrow> Some (user_ret v, f', d') }),
      dev_close = (\<lambda>f d. case aesd_release f of (r, f') \<Rightarrow> d)\<rparr>"

definition dev_sound :: "kernel \<Rightarrow> driver \<Rightarrow> bool" where
  "dev_sound K d \<longleftrightarrow> kernel_ok K \<and> drv_inv d \<and> \<not> lock (device d)"

definition dev_good :: "kernel \<Rightarrow> driver \<Rightarrow> bool" where
  "dev_good K d \<longleftrightarrow> dev_sound K d \<and> pending_kept (device d)"

definition file_usable :: "kfile \<Rightarrow> bool" where
  "file_usable f \<longleftrightarrow> private_data f = AesdDevice"

definition file_pos :: "kfile \<Rightarrow> nat" where
  "file_pos f = unat (f_pos f)"

lemma user_ret_errno [simp]:
  "user_ret (- EINVAL) = - 1" "user_ret (- ENOMEM) = - 1" "user_ret 0 = 0"
  by (simp_all add: user_ret_def errno_defs)

lemma user_ret_small: "n < 2 ^ 63 \<Longrightarrow> user_ret (of_nat n) = of_nat n"
  by (simp add: user_ret_def sint_small)

lemma sint_nonneg_small: "n < 2 ^ 63 \<Longrightarrow> \<not> sint (of_nat n :: ssize_t) < 0"
  by (simp add: sint_small)

lemma dev_soundD:
  assumes "dev_sound K d"
  shows "kernel_ok K" "drv_inv d" "\<not> lock (device d)"
  using assms by (simp_all add: dev_sound_def)

lemma spec_read_within:
  assumes "spec_read cs pos n \<noteq> []"
  shows "pos + length (spec_read cs pos n) \<le> length (concat cs)"
proof -
  obtain rest where r: "drop pos (concat cs) = spec_read cs pos n @ rest"
    using spec_read_prefix by blast
  then have "length (concat cs) - pos = length (spec_read cs pos n) + length rest"
    by (metis length_append length_drop)
  moreover have "0 < length (spec_read cs pos n)" using assms by simp
  ultimately show ?thesis by arith
qed

lemma sys_read:
  fixes n :: size_t
  assumes "dev_sound K d" and "file_usable f"
  defines "out \<equiv> spec_read (commands d) (file_pos f) (unat n)"
  shows "\<exists>f'. dev_read (aesd_ops K) n f d = Some (of_nat (length out), out, f', d)
     \<and> file_usable f' \<and> file_pos f' = file_pos f + length out"
proof -
  have priv: "private_data f = AesdDevice" using assms(2) by (simp add: file_usable_def)
  note s = dev_soundD [OF assms(1)]
  have tot: "length (concat (commands d)) < 2 ^ 35"
    using total_bytes_bound [OF s(2)] by (simp add: total_bytes_def)
  have len: "length out < 2 ^ 63" and pos: "unat (f_pos f + of_nat (length out)) = unat (f_pos f) + length out"
  proof -
    show "length out < 2 ^ 63"
      using tot spec_read_within [of "commands d" "file_pos f" "unat n"]
      by (cases "out = []") (simp_all add: out_def)
    show "unat (f_pos f + of_nat (length out)) = unat (f_pos f) + length out"
    proof (cases "out = []")
      case False
      with spec_read_within [of "commands d" "file_pos f" "unat n"]
      have "unat (f_pos f) + length out < 2 ^ 35" using tot by (simp add: out_def file_pos_def)
      then show ?thesis by (subst unat_add_exact) simp_all
    qed simp
  qed
  have "aesd_read False 0 (Some f) True n (Some (f_pos f)) d
      = Some (Returns (of_nat (length out)), out, f_pos f + of_nat (length out), d)"
    using aesd_read_ok [OF s(2,3) priv, of n "f_pos f"] by (simp add: out_def file_pos_def)
  then show ?thesis
    using len pos priv
    by (simp add: aesd_ops_def user_ret_small sint_nonneg_small file_usable_def file_pos_def)
qed

lemma sys_ioctl:
  assumes "dev_sound K d" and "file_usable f"
  shows "case seek_spec (commands d) (unat (write_cmd s)) (unat (write_cmd_offset s)) of
       None \<Rightarrow> dev_ioctl (aesd_ops K) s f d = Some (- 1, f, d)
     | Some p \<Rightarrow> \<exists>f'. dev_ioctl (aesd_ops K) s f d = Some (0, f', d) \<and> file_usable f' \<and> file_pos f' = p"
proof -
  have priv: "private_data f = AesdDevice" using assms(2) by (simp add: file_usable_def)
  note so = dev_soundD [OF assms(1)]
  note i = aesd_ioctl_seek [OF so(2,3) priv, of s]
  show ?thesis
  proof (cases "seek_spec (commands d) (unat (write_cmd s)) (unat (write_cmd_offset s))")
    case None
    with i show ?thesis by (simp add: aesd_ops_def)
  next
    case (Some p)
    then have "p < 2 ^ 36" by (rule seek_spec_bound [OF so(2)])
    with Some i priv show ?thesis by (simp add: aesd_ops_def file_usable_def file_pos_def)
  qed
qed

lemma sys_write_cases:
  fixes data :: "byte list"
  assumes "dev_sound K d" and "file_usable f" and "length data < 2 ^ 31"
  obtains d' where "dev_write (aesd_ops K) data f d = Some (- 1, f, d')" "dev_sound K d'"
    "commands d' = commands d"
  | d' old where "dev_write (aesd_ops K) data f d = Some (of_nat (length data), f, d')" "dev_good K d'"
    "(commands d', pending d') = spec_write data (commands d, old)"
    "pending_kept (device d) \<longrightarrow> old = pending d"
proof -
  have priv: "private_data f = AesdDevice" using assms(2) by (simp add: file_usable_def)
  note s = dev_soundD [OF assms(1)]
  let ?n = "of_nat (length data) :: size_t"
  have un: "length data = unat ?n" using assms(3) by simp
  have w: "dev_write (aesd_ops K) data f d = Some (user_ret v, f, d')"
    if "aesd_write K 0 (Some f) (Some data) ?n (Some (f_pos f)) d = Some (Returns v, d')" for v d'
    using that by (simp add: aesd_ops_def)
  from s priv un show thesis
  proof (cases rule: aesd_write_cases [where cs = 0 and pos = "f_pos f"])
    case kbuf_nomem
    show thesis
      by (rule that(1) [OF w [OF kbuf_nomem, unfolded user_ret_errno]]) (use assms(1) in simp_all)
  next
    case pending_nomem
    show thesis
      by (rule that(1) [OF w [OF pending_nomem(2), unfolded user_ret_errno]])
         (use pending_lost(1,2) [OF s(2)] s in \<open>simp_all add: dev_sound_def\<close>)
  next
    case (written d' kbuf old)
    have "user_ret ?n = ?n" by (rule user_ret_small) (use assms(3) in simp)
    then show thesis
      using w [OF written(2)] written s that(2)
      by (simp add: dev_good_def dev_sound_def)
  qed simp
qed

interpretation dev: char_device "aesd_ops K" "dev_sound K" file_usable commands file_pos
    "dev_good K" pending for K
proof (unfold_locales, goal_cases)
  case (1 d)
  show ?case by (simp add: aesd_ops_def aesd_open_def file_usable_def file_pos_def)
next
  case (2 d f n)
  then show ?case by (rule sys_read)
next
  case (3 d f s)
  then show ?case by (rule sys_ioctl)
next
  case (4 d f)
  show ?case by (simp add: aesd_ops_def aesd_release_def)
next
  case (5 d)
  then show ?case by (simp add: dev_good_def)
next
  case (6 d f data)
  then have "(of_nat (length data) :: ssize_t) \<noteq> - 1"
    by (intro of_nat_not_minus_one) simp
  with 6 show ?case by (cases rule: sys_write_cases) (auto simp: dev_good_def)
next
  case (7 d f data d')
  have "(of_nat (length data) :: ssize_t) \<noteq> - 1"
    by (rule of_nat_not_minus_one) (use 7(3) in simp)
  note ne = this
  from 7 have so: "dev_sound K d" and "pending_kept (device d)" by (simp_all add: dev_good_def)
  show ?case
    by (rule sys_write_cases [OF so 7(2,3)]) (use 7(4) ne \<open>pending_kept (device d)\<close> in auto)
qed

end
