(* ===== verification/Socket_Command.thy ===== *)
theory Socket_Command
  imports Char_Driver
begin

text \<open>
  The server's parser of the seek command, \<open>findCommand\<close> in \<^verbatim>\<open>server/aesdsocket.c\<close>: it walks
  the linked list of received buffers with the state of a small automaton. The list is the
  list of its buffers here. The theory defines the command's printed form, the value of a
  digit string, and the exact set of lines the parser accepts, however they are cut into
  buffers.
\<close>

section \<open>The parser\<close>

text \<open>\<open>"AESDCHAR_IOCSEEKTO:"\<close>\<close>

definition AESDCHAR_IOCSEEKTO_CMD :: "byte list" where
  "AESDCHAR_IOCSEEKTO_CMD = [65, 69, 83, 68, 67, 72, 65, 82, 95, 73, 79, 67, 83, 69, 69, 75, 84, 79, 58]"

text \<open>The local variables of the function that live across the loops.\<close>

record cmd_scan =
  matched :: nat              \<comment> \<open>\<open>i\<close>\<close>
  command_found :: bool
  write_cmd_found :: bool
  scan_cmd :: uint32_t        \<comment> \<open>\<open>write_cmd\<close>\<close>
  scan_offset :: uint32_t     \<comment> \<open>\<open>write_cmd_offset\<close>\<close>

definition scan_start :: cmd_scan where
  "scan_start = \<lparr>matched = 0, command_found = False, write_cmd_found = False,
     scan_cmd = 0, scan_offset = 0\<rparr>"

text \<open>
  \<open>command[i]\<close>, with the terminating zero byte; beyond it the access is undefined. Bytes are
  compared as signed \<open>char\<close>s.
\<close>

definition command_char :: "byte list \<Rightarrow> nat \<Rightarrow> byte option" where
  "command_char command i =
     (if i < length command then Some (command ! i)
      else if i = length command then Some 0 else None)"

definition not_digit :: "byte \<Rightarrow> bool" where
  "not_digit b \<longleftrightarrow> sint b < 48 \<or> sint b > 57"

definition add_digit :: "uint32_t \<Rightarrow> byte \<Rightarrow> uint32_t" where
  "add_digit v b = v * 10 + word_of_int (sint b - 48)"

text \<open>
  One round of the inner loop on a byte other than the newline: \<open>Some None\<close> is
  \<open>return false\<close>.
\<close>

definition scan_byte :: "byte list \<Rightarrow> byte \<Rightarrow> cmd_scan \<Rightarrow> cmd_scan option option" where
  "scan_byte command b s =
     (if \<not> command_found s
      then do { c \<leftarrow> command_char command (matched s);
                Some (if c \<noteq> b then None
                      else let s' = s\<lparr>matched := matched s + 1\<rparr>
                           in Some (if matched s' = length command then s'\<lparr>command_found := True\<rparr>
                                    else s')) }
      else if b = 44 then Some (Some (s\<lparr>write_cmd_found := True\<rparr>))
      else if \<not> write_cmd_found s
      then Some (if not_digit b then None else Some (s\<lparr>scan_cmd := add_digit (scan_cmd s) b\<rparr>))
      else Some (if not_digit b then None else Some (s\<lparr>scan_offset := add_digit (scan_offset s) b\<rparr>)))"

text \<open>The inner loop, over one buffer up to its first newline, and the outer loop.\<close>

fun scan_node :: "byte list \<Rightarrow> byte list \<Rightarrow> cmd_scan \<Rightarrow> cmd_scan option option" where
  "scan_node command [] s = Some (Some s)"
| "scan_node command (b # bs) s =
     (if b = NL then Some (Some s)
      else do { r \<leftarrow> scan_byte command b s;
                case r of None \<Rightarrow> Some None | Some s' \<Rightarrow> scan_node command bs s' })"

fun scan_nodes :: "byte list \<Rightarrow> byte list list \<Rightarrow> cmd_scan \<Rightarrow> cmd_scan option option" where
  "scan_nodes command [] s = Some (Some s)"
| "scan_nodes command (node # head) s =
     do { r \<leftarrow> scan_node command node s;
          case r of None \<Rightarrow> Some None | Some s' \<Rightarrow> scan_nodes command head s' }"

text \<open>
  \<open>strlen(command)\<close> is called before the null check. \<open>Some None\<close> is the value \<open>false\<close>;
  otherwise the result is what \<open>*seekto\<close> is set to.
\<close>

definition findCommand :: "byte list list \<Rightarrow> byte list option \<Rightarrow> aesd_seekto option option" where
  "findCommand head command =
     (case command of
        None \<Rightarrow> None
      | Some cmd \<Rightarrow>
          if head = [] then Some None
          else do { r \<leftarrow> scan_nodes cmd head scan_start;
                    Some (case r of
                      None \<Rightarrow> None
                    | Some s \<Rightarrow>
                        if \<not> write_cmd_found s then None
                        else Some \<lparr>write_cmd = scan_cmd s, write_cmd_offset = scan_offset s\<rparr>) })"

section \<open>The accepted lines\<close>

text \<open>
  The line is what precedes the first newline. It is accepted when it is the command
  string, a run of digits, a comma, and a run of digits and further commas.
\<close>

definition line_of :: "byte list \<Rightarrow> byte list" where
  "line_of bs = takeWhile (\<lambda>b. b \<noteq> NL) bs"

definition is_digit :: "byte \<Rightarrow> bool" where
  "is_digit b \<longleftrightarrow> 48 \<le> unat b \<and> unat b \<le> 57"

definition digits_val :: "nat \<Rightarrow> byte list \<Rightarrow> nat" where
  "digits_val v ds = foldl (\<lambda>v d. 10 * v + (unat d - 48)) v ds"

definition seek_line :: "byte list \<Rightarrow> (nat \<times> nat) option" where
  "seek_line l =
     (let body = drop (length AESDCHAR_IOCSEEKTO_CMD) l;
          ds = takeWhile (\<lambda>b. b \<noteq> 44) body;
          rest = filter (\<lambda>b. b \<noteq> 44) (drop (length ds) body)
      in if take (length AESDCHAR_IOCSEEKTO_CMD) l = AESDCHAR_IOCSEEKTO_CMD \<and> 44 \<in> set body
           \<and> list_all is_digit ds \<and> list_all is_digit rest
         then Some (digits_val 0 ds, digits_val 0 rest) else None)"

text \<open>Received buffers: a newline can only be in the last one, because \<open>recv\<close> stops there.\<close>

definition newline_last :: "byte list list \<Rightarrow> bool" where
  "newline_last nodes \<longleftrightarrow> (\<forall>node \<in> set (butlast nodes). NL \<notin> set node)"

section \<open>One buffer is as good as many\<close>

lemma scan_node_append:
  "NL \<notin> set xs \<Longrightarrow> scan_node c (xs @ ys) s =
     do { r \<leftarrow> scan_node c xs s; case r of None \<Rightarrow> Some None | Some s' \<Rightarrow> scan_node c ys s' }"
  by (induction xs arbitrary: s) (auto split: option.splits Option.bind_splits)

lemma scan_nodes_concat:
  "nodes \<noteq> [] \<Longrightarrow> newline_last nodes \<Longrightarrow> scan_nodes c nodes s = scan_node c (concat nodes) s"
proof (induction nodes arbitrary: s)
  case (Cons node nodes)
  show ?case
  proof (cases "nodes = []")
    case True
    then show ?thesis by (simp split: Option.bind_split option.split)
  next
    case False
    with Cons.prems have "NL \<notin> set node" "newline_last nodes" by (simp_all add: newline_last_def)
    with Cons.IH False have "scan_nodes c nodes = scan_node c (concat nodes)" by (intro ext) simp
    with \<open>NL \<notin> set node\<close> show ?thesis by (simp add: scan_node_append)
  qed
qed simp

lemma scan_node_line: "scan_node c bs s = scan_node c (line_of bs) s"
  by (induction bs arbitrary: s) (auto simp: line_of_def split: option.splits Option.bind_splits)

lemma line_of_no_newline: "NL \<notin> set (line_of bs)"
  by (auto simp: line_of_def dest: set_takeWhileD)

section \<open>The automaton's three stages\<close>

lemma sint_byte:
  fixes b :: byte
  assumes "unat b = n"
  shows "n < 256" "sint b = (if n < 128 then int n else int n - 256)"
proof -
  show n: "n < 256" using assms unsigned_less [of b, where 'a = nat] by simp
  have "sint b = sint (word_of_int (uint b) :: byte)" by simp
  also have "\<dots> = (uint b + 128) mod 256 - 128" by (simp only: int_word_sint) simp
  also have "uint b = int n" using assms by (metis uint_nat)
  also have "(int n + 128) mod 256 - 128 = (if n < 128 then int n else int n - 256)"
  proof (cases "n < 128")
    case False
    then have "int n + 128 = (int n - 128) + 256" by simp
    then have "(int n + 128) mod 256 = (int n - 128) mod 256" by (metis mod_add_self2)
    also have "\<dots> = int n - 128" using False n by (intro mod_pos_pos_trivial) simp_all
    finally show ?thesis using False by simp
  qed simp
  finally show "sint b = (if n < 128 then int n else int n - 256)" .
qed

lemma not_digit_iff [simp]: "not_digit b \<longleftrightarrow> \<not> is_digit b"
proof -
  obtain n where "unat b = n" by simp
  with sint_byte [OF this] show ?thesis by (auto simp: not_digit_def is_digit_def split: if_splits)
qed

lemma sint_digit:
  assumes "is_digit b"
  shows "sint b - 48 = int (unat b - 48)"
proof -
  obtain n where "unat b = n" by simp
  with sint_byte [OF this] assms show ?thesis by (simp add: is_digit_def of_nat_diff)
qed

lemma add_digit_val:
  "is_digit b \<Longrightarrow> add_digit (of_nat v) b = of_nat (10 * v + (unat b - 48))"
  by (simp only: add_digit_def sint_digit) (simp add: mult.commute)

lemma scan_prefix:
  "\<not> command_found s \<Longrightarrow> matched s < length c \<Longrightarrow> NL \<notin> set l \<Longrightarrow> \<not> write_cmd_found s \<Longrightarrow>
   if take (length c - matched s) l = drop (matched s) c
   then scan_node c l s = scan_node c (drop (length c - matched s) l)
          (s\<lparr>matched := length c, command_found := True\<rparr>)
   else scan_node c l s = Some None
        \<or> (\<exists>s'. scan_node c l s = Some (Some s') \<and> \<not> write_cmd_found s')"
proof (induction l arbitrary: s)
  case Nil
  then show ?case by simp
next
  case (Cons b l)
  let ?k = "matched s"
  have d: "drop ?k c = c ! ?k # drop (Suc ?k) c" using Cons.prems(2) by (simp add: Cons_nth_drop_Suc)
  have t: "take (length c - ?k) (b # l) = b # take (length c - Suc ?k) l"
    "drop (length c - ?k) (b # l) = drop (length c - Suc ?k) l"
    using Cons.prems(2) by (simp_all add: Suc_diff_Suc take_Cons' drop_Cons')
  show ?case
  proof (cases "c ! ?k = b")
    case False
    then show ?thesis using Cons.prems d t(1) by (auto simp: scan_byte_def command_char_def)
  next
    case eq: True
    show ?thesis
    proof (cases "Suc ?k = length c")
      case True
      then show ?thesis
        using Cons.prems eq d t by (simp add: scan_byte_def command_char_def Let_def)
    next
      case False
      let ?s = "s\<lparr>matched := Suc ?k\<rparr>"
      have st: "scan_node c (b # l) s = scan_node c l ?s"
        using Cons.prems eq False by (simp add: scan_byte_def command_char_def Let_def)
      have "\<not> command_found ?s" "matched ?s < length c" "NL \<notin> set l" "\<not> write_cmd_found ?s"
        using Cons.prems False by simp_all
      from Cons.IH [OF this] show ?thesis by (simp add: st d t eq del: scan_node.simps)
    qed
  qed
qed

lemma scan_offset_digits:
  "command_found s \<Longrightarrow> write_cmd_found s \<Longrightarrow> NL \<notin> set l \<Longrightarrow> scan_offset s = of_nat v \<Longrightarrow>
   scan_node c l s =
     (let rest = filter (\<lambda>b. b \<noteq> 44) l
      in Some (if list_all is_digit rest then Some (s\<lparr>scan_offset := of_nat (digits_val v rest)\<rparr>) else None))"
proof (induction l arbitrary: s v)
  case Nil
  then show ?case by (simp add: digits_val_def)
next
  case (Cons b l)
  show ?case
  proof (cases "b = 44")
    case True
    have "scan_byte c b s = Some (Some s)"
      using True Cons.prems by (cases s) (simp add: scan_byte_def)
    with True Cons.IH [of s v] Cons.prems show ?thesis by simp
  next
    case False
    let ?s = "s\<lparr>scan_offset := add_digit (of_nat v) b\<rparr>"
    show ?thesis
    proof (cases "is_digit b")
      case True
      with Cons.IH [of ?s "10 * v + (unat b - 48)"] Cons.prems False show ?thesis
        by (simp add: scan_byte_def add_digit_val digits_val_def)
    next
      case nd: False
      with Cons.prems False show ?thesis by (simp add: scan_byte_def)
    qed
  qed
qed

lemma scan_cmd_digits:
  "command_found s \<Longrightarrow> \<not> write_cmd_found s \<Longrightarrow> NL \<notin> set l \<Longrightarrow> scan_cmd s = of_nat v \<Longrightarrow>
   scan_node c l s =
     (let ds = takeWhile (\<lambda>b. b \<noteq> 44) l
      in if \<not> list_all is_digit ds then Some None
         else scan_node c (drop (length ds) l) (s\<lparr>scan_cmd := of_nat (digits_val v ds)\<rparr>))"
proof (induction l arbitrary: s v)
  case Nil
  then show ?case by (simp add: digits_val_def)
next
  case (Cons b l)
  show ?case
  proof (cases "b = 44")
    case True
    have "s\<lparr>scan_cmd := of_nat v\<rparr> = s" using Cons.prems(4) by (cases s) simp
    with True show ?thesis by (simp add: digits_val_def del: scan_node.simps)
  next
    case False
    let ?s = "s\<lparr>scan_cmd := add_digit (of_nat v) b\<rparr>"
    show ?thesis
    proof (cases "is_digit b")
      case True
      with Cons.IH [of ?s "10 * v + (unat b - 48)"] Cons.prems False show ?thesis
        by (simp add: scan_byte_def add_digit_val digits_val_def Let_def)
    next
      case nd: False
      with Cons.prems False show ?thesis by (simp add: scan_byte_def)
    qed
  qed
qed

lemma scan_start_simps [simp]: "matched scan_start = 0" "\<not> command_found scan_start"
    "\<not> write_cmd_found scan_start" "scan_cmd scan_start = 0" "scan_offset scan_start = 0"
  by (simp_all add: scan_start_def)

lemma command_nonempty: "0 < length AESDCHAR_IOCSEEKTO_CMD"
  by (simp add: AESDCHAR_IOCSEEKTO_CMD_def)

lemma dropWhile_drop: "drop (length (takeWhile P l)) l = dropWhile P l"
  by (induction l) auto

lemma dropWhile_at: "x \<in> set l \<Longrightarrow> \<exists>r. dropWhile (\<lambda>b. b \<noteq> x) l = x # r"
  by (induction l) auto

text \<open>The automaton on a whole line.\<close>

lemma scan_line:
  assumes "NL \<notin> set l"
  shows "case seek_line l of
       None \<Rightarrow> scan_node AESDCHAR_IOCSEEKTO_CMD l scan_start = Some None
         \<or> (\<exists>s'. scan_node AESDCHAR_IOCSEEKTO_CMD l scan_start = Some (Some s') \<and> \<not> write_cmd_found s')
     | Some (x, y) \<Rightarrow> \<exists>s'. scan_node AESDCHAR_IOCSEEKTO_CMD l scan_start = Some (Some s')
         \<and> write_cmd_found s' \<and> scan_cmd s' = of_nat x \<and> scan_offset s' = of_nat y"
proof -
  let ?c = AESDCHAR_IOCSEEKTO_CMD
  let ?body = "drop (length ?c) l"
  let ?ds = "takeWhile (\<lambda>b. b \<noteq> 44) ?body"
  let ?rest = "drop (length ?ds) ?body"
  let ?s1 = "scan_start\<lparr>matched := length ?c, command_found := True\<rparr>"
  let ?s2 = "?s1\<lparr>scan_cmd := of_nat (digits_val 0 ?ds)\<rparr>"
  have nl: "NL \<notin> set ?body" "NL \<notin> set ?rest"
    using assms by (auto dest: in_set_dropD)
  have p: "if take (length ?c) l = ?c then scan_node ?c l scan_start = scan_node ?c ?body ?s1
      else scan_node ?c l scan_start = Some None
        \<or> (\<exists>s'. scan_node ?c l scan_start = Some (Some s') \<and> \<not> write_cmd_found s')"
    using scan_prefix [of scan_start ?c l] assms command_nonempty by simp
  show ?thesis
  proof (cases "take (length ?c) l = ?c \<and> list_all is_digit ?ds")
    case False
    have "scan_node ?c ?body ?s1 = Some None" if "\<not> list_all is_digit ?ds"
      using scan_cmd_digits [of ?s1 ?body 0 ?c] nl that by simp
    with False p show ?thesis by (auto simp: seek_line_def Let_def split: if_splits)
  next
    case True
    then have a: "scan_node ?c l scan_start = scan_node ?c ?rest ?s2"
      using p scan_cmd_digits [of ?s1 ?body 0 ?c] nl by (simp add: Let_def)
    show ?thesis
    proof (cases "44 \<in> set ?body")
      case False
      then have "?ds = ?body" by (auto simp: takeWhile_eq_all_conv)
      then have "length ?ds = length ?body" by (rule arg_cong)
      then have "?rest = []" by (simp only: drop_eq_Nil order_refl)
      then have "scan_node ?c l scan_start = Some (Some ?s2)" using a by simp
      with False show ?thesis by (simp add: seek_line_def Let_def)
    next
      case comma: True
      then obtain r where r: "?rest = 44 # r"
        using dropWhile_at [of 44 ?body] unfolding dropWhile_drop by blast
      let ?s3 = "?s2\<lparr>write_cmd_found := True\<rparr>"
      have "scan_node ?c ?rest ?s2 = scan_node ?c r ?s3"
        unfolding r by (simp add: scan_byte_def)
      also have "\<dots> = (let rest = filter (\<lambda>b. b \<noteq> 44) r
          in Some (if list_all is_digit rest then Some (?s3\<lparr>scan_offset := of_nat (digits_val 0 rest)\<rparr>) else None))"
        by (rule scan_offset_digits) (use nl(2) r in simp_all)
      finally show ?thesis
        using a True comma r by (simp add: seek_line_def Let_def)
    qed
  qed
qed

section \<open>Printing\<close>

text \<open>The decimal digits of a number, and the command a client sends.\<close>

fun decimal :: "nat \<Rightarrow> byte list" where
  "decimal n = (if n < 10 then [of_nat (48 + n)] else decimal (n div 10) @ [of_nat (48 + n mod 10)])"

declare decimal.simps [simp del]

definition seek_message :: "nat \<Rightarrow> nat \<Rightarrow> byte list" where
  "seek_message x y = AESDCHAR_IOCSEEKTO_CMD @ decimal x @ [44] @ decimal y @ [NL]"

lemma digit_byte: "k < 10 \<Longrightarrow> unat (of_nat (48 + k) :: byte) = 48 + k"
  by (rule unat_of_nat_byte) simp

lemma decimal_digits: "list_all is_digit (decimal n)"
proof (induction n rule: decimal.induct)
  case (1 n)
  have "is_digit (of_nat (48 + k))" if "k < 10" for k
    unfolding is_digit_def digit_byte [OF that] using that by simp
  with 1 show ?case by (subst decimal.simps) (simp del: of_nat_add)
qed

lemma digits_val_append: "digits_val v (xs @ ys) = digits_val (digits_val v xs) ys"
  by (simp add: digits_val_def)

lemma digits_val_decimal: "digits_val 0 (decimal n) = n"
proof (induction n rule: decimal.induct)
  case (1 n)
  show ?case
  proof (cases "n < 10")
    case True
    have "digits_val 0 [of_nat (48 + n)] = n"
      unfolding digits_val_def using digit_byte [OF True] by (simp del: of_nat_add)
    with True show ?thesis by (subst decimal.simps) (simp del: of_nat_add)
  next
    case False
    have "digits_val (n div 10) [of_nat (48 + n mod 10)] = n"
      unfolding digits_val_def using digit_byte [of "n mod 10"] by (simp del: of_nat_add)
    with False 1 show ?thesis by (subst decimal.simps) (simp add: digits_val_append del: of_nat_add)
  qed
qed

lemma digit_not:
  assumes "list_all is_digit ds" and "unat x < 48"
  shows "x \<notin> set ds"
  using assms by (auto simp: list_all_iff is_digit_def)

lemma seek_line_message:
  "seek_line (line_of (seek_message x y @ rest)) = Some (x, y)"
proof -
  have n: "10 \<notin> set (decimal k)" "44 \<notin> set (decimal k)" for k
    using digit_not [OF decimal_digits] by simp_all
  then have m: "10 \<notin> set (AESDCHAR_IOCSEEKTO_CMD @ decimal x @ [44] @ decimal y)"
    by (simp add: AESDCHAR_IOCSEEKTO_CMD_def)
  have "seek_message x y @ rest = (AESDCHAR_IOCSEEKTO_CMD @ decimal x @ [44] @ decimal y) @ 10 # rest"
    by (simp add: seek_message_def)
  also have "takeWhile (\<lambda>b. b \<noteq> 10) \<dots> = AESDCHAR_IOCSEEKTO_CMD @ decimal x @ [44] @ decimal y"
    using m by (subst takeWhile_append2) auto
  finally have l: "line_of (seek_message x y @ rest) = AESDCHAR_IOCSEEKTO_CMD @ decimal x @ [44] @ decimal y"
    by (simp add: line_of_def)
  have "takeWhile (\<lambda>b. b \<noteq> 44) (decimal x @ 44 # decimal y) = decimal x"
    using n by (subst takeWhile_append2) auto
  moreover have "filter (\<lambda>b. b \<noteq> 44) (decimal y) = decimal y"
    using n by (intro filter_True) auto
  ultimately show ?thesis
    unfolding l by (simp add: seek_line_def Let_def decimal_digits digits_val_decimal)
qed

lemma findCommand_seek_line:
  assumes "newline_last nodes"
  shows "findCommand nodes (Some AESDCHAR_IOCSEEKTO_CMD) =
     Some (map_option (\<lambda>(x, y). \<lparr>write_cmd = of_nat x, write_cmd_offset = of_nat y\<rparr>)
       (seek_line (line_of (concat nodes))))"
proof (cases "nodes = []")
  case True
  then show ?thesis
    by (simp add: findCommand_def line_of_def seek_line_def AESDCHAR_IOCSEEKTO_CMD_def)
next
  case False
  let ?c = AESDCHAR_IOCSEEKTO_CMD
  let ?l = "line_of (concat nodes)"
  have s: "scan_nodes ?c nodes scan_start = scan_node ?c ?l scan_start"
    by (simp only: scan_nodes_concat [OF False assms] scan_node_line [symmetric])
  show ?thesis
    using False scan_line [OF line_of_no_newline, of "concat nodes"]
    by (auto simp: findCommand_def s split: option.splits)
qed

section \<open>Properties of the parser\<close>

text \<open>C25: \<open>findCommand\<close> with the seek command accepts exactly the lines \<open>seek_line\<close> accepts,
  whichever way \<open>recv\<close> cut the line into buffers, is never undefined on them, and returns the
  two numbers modulo \<open>2^32\<close>.\<close>

theorem findCommand_accepts_seek_lines:
  assumes "newline_last nodes"
  shows "findCommand nodes (Some AESDCHAR_IOCSEEKTO_CMD) =
     Some (map_option (\<lambda>(x, y). \<lparr>write_cmd = of_nat x, write_cmd_offset = of_nat y\<rparr>)
       (seek_line (line_of (concat nodes))))"
  using assms by (rule findCommand_seek_line)

theorem findCommand_accepts_seek_lines_witness:
  "findCommand [[104, 105, 10]] (Some AESDCHAR_IOCSEEKTO_CMD) = Some None"
  using findCommand_accepts_seek_lines [of "[[104, 105, 10]]"]
  by (simp add: newline_last_def line_of_def seek_line_def AESDCHAR_IOCSEEKTO_CMD_def)

text \<open>C26: what a client prints, \<open>AESDCHAR_IOCSEEKTO:X,Y\<close> with two decimal numbers of 32 bits, is
  parsed back to the same two numbers, however it arrives in pieces.\<close>

theorem seek_message_roundtrip:
  assumes "newline_last nodes" and "concat nodes = seek_message (unat x) (unat y) @ rest"
  shows "findCommand nodes (Some AESDCHAR_IOCSEEKTO_CMD)
     = Some (Some \<lparr>write_cmd = x, write_cmd_offset = y\<rparr>)"
  using findCommand_seek_line [OF assms(1)] unfolding assms(2) seek_line_message by simp

theorem seek_message_roundtrip_witness:
  "findCommand [[65, 69, 83, 68, 67], [72, 65, 82, 95, 73, 79, 67, 83, 69, 69, 75, 84, 79, 58, 49],
       [50, 44, 51, 10]] (Some AESDCHAR_IOCSEEKTO_CMD)
     = Some (Some \<lparr>write_cmd = 12, write_cmd_offset = 3\<rparr>)"
  by (rule seek_message_roundtrip [where rest = "[]"])
     (simp_all add: newline_last_def seek_message_def AESDCHAR_IOCSEEKTO_CMD_def decimal.simps)

end
