(* ===== verification/Socket_Client.thy ===== *)
theory Socket_Client
  imports Char_Device Socket_Command
begin

text \<open>
  One client's thread, \<open>processClientConnection\<close> in \<^verbatim>\<open>server/aesdsocket.c\<close>: the receive
  loop, the critical section (open, then seek or write), and the loop that sends the device's
  contents back. The device is an argument (\<open>dev_ops\<close>); what \<open>recv\<close> and \<open>malloc\<close> answer is
  a list of arguments, one element per round of the receive loop; \<open>send\<close> is the list of
  buffers handed to it.
\<close>

section \<open>Receiving\<close>

definition BUFFER_SIZE :: size_t where "BUFFER_SIZE = 1024"

text \<open>
  A round: whether \<open>recv\<close> returns (it waits as long as the peer neither sends nor closes), the
  bytes it stored (none when it returned 0 or an error), and whether the two \<open>malloc\<close>s
  succeeded. When the list ends the peer has closed the connection. A \<open>recv\<close> that does not
  return is \<open>None\<close>, and so is the write through the result of the second \<open>malloc\<close>, which is
  not checked, when that is null.
\<close>

record recv_round =
  recv_returns :: bool
  recvd :: "byte list"
  temp_alloc :: bool
  node_alloc :: bool

fun recv_loop :: "recv_round list \<Rightarrow> byte list list \<Rightarrow> byte list list option" where
  "recv_loop [] nodes = Some nodes"
| "recv_loop (r # rs) nodes =
     (if \<not> recv_returns r then None
      else if recvd r = [] then Some nodes
      else if \<not> temp_alloc r then Some nodes
      else if \<not> node_alloc r then None
      else if has_newline (recvd r) then Some (nodes @ [recvd r])
      else recv_loop rs (nodes @ [recvd r]))"

section \<open>The critical section\<close>

text \<open>
  The write loop. \<open>write\<close>'s result is compared as \<open>size_t\<close>, so \<open>-1\<close> is not less than the
  length; the first component counts the short writes that are logged.
\<close>

fun write_loop :: "('d, 'f) dev_ops \<Rightarrow> byte list list \<Rightarrow> 'f \<Rightarrow> 'd \<Rightarrow> (nat \<times> 'f \<times> 'd) option" where
  "write_loop ops [] f d = Some (0, f, d)"
| "write_loop ops (node # nodes) f d =
     do { (bytes_written, f1, d1) \<leftarrow> dev_write ops node f d;
          let bytes_to_write = (of_nat (length node) :: size_t);
          (logged, f2, d2) \<leftarrow> write_loop ops nodes f1 d1;
          Some (if bytes_written < bytes_to_write then Suc logged else logged, f2, d2) }"

text \<open>
  From the lock to the unlock of \<open>file_mutex\<close>. \<open>unfreed\<close> are the list nodes that are still
  allocated afterwards; the function never frees them.
\<close>

record ('d, 'f) section_result =
  file_fd :: "'f option"
  status :: int
  unfreed :: "byte list list"
  dev_after :: 'd

definition critical_section :: "('d, 'f) dev_ops \<Rightarrow> byte list list \<Rightarrow> 'd \<Rightarrow>
    ('d, 'f) section_result option" where
  "critical_section ops nodes d =
     do { (fd, d1) \<leftarrow> (if nodes \<noteq> [] then dev_open ops d else Some (None, d));
          let st = (if nodes \<noteq> [] \<and> fd = None then - 1 else 0);
          found \<leftarrow> findCommand nodes (Some AESDCHAR_IOCSEEKTO_CMD);
          case found of
            Some seekto \<Rightarrow>
              (case fd of
                 None \<Rightarrow> Some \<lparr>file_fd = None, status = st, unfreed = nodes, dev_after = d1\<rparr>
               | Some f \<Rightarrow>
                   do { (r, f', d2) \<leftarrow> dev_ioctl ops seekto f d1;
                        Some \<lparr>file_fd = Some f', status = st, unfreed = nodes, dev_after = d2\<rparr> })
          | None \<Rightarrow>
              (case fd of
                 None \<Rightarrow> Some \<lparr>file_fd = None, status = st, unfreed = nodes, dev_after = d1\<rparr>
               | Some f \<Rightarrow>
                   do { (logged, f', d2) \<leftarrow> write_loop ops nodes f d1;
                        Some \<lparr>file_fd = Some f', status = st, unfreed = [], dev_after = d2\<rparr> }) }"

section \<open>Sending back\<close>

text \<open>
  The read-back loop ends only when \<open>read\<close> returns 0 or an error: not returning is \<open>None\<close>.
\<close>

partial_function (option) read_back :: "('d, 'f) dev_ops \<Rightarrow> 'f \<Rightarrow> 'd \<Rightarrow> (byte list list \<times> 'f \<times> 'd) option" where
  "read_back ops f d =
     do { (bytes_read, buf, f1, d1) \<leftarrow> dev_read ops BUFFER_SIZE f d;
          if sint bytes_read \<le> 0 then Some ([], f1, d1)
          else do { (chunks, f2, d2) \<leftarrow> read_back ops f1 d1;
                    Some (take (unat bytes_read) buf # chunks, f2, d2) } }"

definition reply :: "('d, 'f) dev_ops \<Rightarrow> 'f option \<Rightarrow> 'd \<Rightarrow> (byte list list \<times> 'd) option" where
  "reply ops fd d =
     (case fd of
        None \<Rightarrow> Some ([], d)
      | Some f \<Rightarrow> do { (chunks, f', d') \<leftarrow> read_back ops f d; Some (chunks, dev_close ops f' d') })"

record 'd client_result =
  sent :: "byte list list"
  end_status :: int
  leaked_nodes :: "byte list list"
  isDone :: bool
  dev_end :: 'd

definition processClientConnection :: "('d, 'f) dev_ops \<Rightarrow> recv_round list \<Rightarrow> 'd \<Rightarrow>
    'd client_result option" where
  "processClientConnection ops rounds d =
     do { nodes \<leftarrow> recv_loop rounds [];
          s \<leftarrow> critical_section ops nodes d;
          (chunks, d') \<leftarrow> reply ops (file_fd s) (dev_after s);
          Some \<lparr>sent = chunks, end_status = status s, leaked_nodes = unfreed s, isDone = True,
                dev_end = d'\<rparr> }"

section \<open>The receive loop\<close>

text \<open>
  What the loop has received: the rounds up to the first that ends it. When every \<open>recv\<close>
  returns and both allocations always succeed, that is everything up to and including the
  buffer with the first newline.
\<close>

definition rounds_ok :: "recv_round list \<Rightarrow> bool" where
  "rounds_ok rs \<longleftrightarrow> list_all (\<lambda>r. recv_returns r \<and> temp_alloc r \<and> node_alloc r) rs"

fun received :: "recv_round list \<Rightarrow> byte list list" where
  "received [] = []"
| "received (r # rs) =
     (if recvd r = [] then []
      else if NL \<in> set (recvd r) then [recvd r]
      else recvd r # received rs)"

lemma recv_loop_received:
  "rounds_ok rs \<Longrightarrow> recv_loop rs nodes = Some (nodes @ received rs)"
  by (induction rs nodes rule: recv_loop.induct) (auto simp: rounds_ok_def)

lemma received_newline_last: "newline_last (received rs)"
  by (induction rs) (auto simp: newline_last_def split: if_splits)

lemma received_nonempty: "node \<in> set (received rs) \<Longrightarrow> node \<noteq> []"
  by (induction rs) (auto split: if_splits)

lemma received_bound:
  "list_all (\<lambda>r. length (recvd r) \<le> n) rs \<Longrightarrow> node \<in> set (received rs) \<Longrightarrow> length node \<le> n"
  by (induction rs) (auto split: if_splits)

text \<open>When the loop comes to an end at all, and what is then known of the buffers.\<close>

fun recv_ends :: "recv_round list \<Rightarrow> bool" where
  "recv_ends [] = True"
| "recv_ends (r # rs) =
     (recv_returns r \<and> (recvd r = [] \<or> \<not> temp_alloc r
        \<or> node_alloc r \<and> (NL \<in> set (recvd r) \<or> recv_ends rs)))"

lemma recv_loop_None_iff: "recv_loop rs nodes = None \<longleftrightarrow> \<not> recv_ends rs"
  by (induction rs nodes rule: recv_loop.induct) auto

lemma recv_loop_nodes:
  "recv_loop rs nodes = Some out \<Longrightarrow> \<forall>node \<in> set nodes. NL \<notin> set node \<Longrightarrow>
     newline_last out \<and> set out \<subseteq> set nodes \<union> recvd ` set rs"
proof (induction rs nodes rule: recv_loop.induct)
  case (1 nodes)
  then show ?case by (auto simp: newline_last_def dest: in_set_butlastD)
next
  case (2 r rs nodes)
  then show ?case by (auto simp: newline_last_def dest: in_set_butlastD split: if_splits)
qed

section \<open>Writing buffers one by one\<close>

text \<open>
  The buffers of one message written one after the other do to the commands what one write
  of the whole message does.
\<close>

definition spec_writes :: "byte list list \<Rightarrow> byte list list \<times> byte list \<Rightarrow> byte list list \<times> byte list" where
  "spec_writes nodes s = fold spec_write nodes s"

lemma spec_writes_concat:
  "newline_last nodes \<Longrightarrow> spec_writes nodes s = spec_write (concat nodes) s"
proof (induction nodes arbitrary: s)
  case Nil
  then show ?case by (simp add: spec_writes_def spec_write_def split: prod.split)
next
  case (Cons node nodes)
  obtain cs p where s: "s = (cs, p)" by (cases s)
  show ?case
  proof (cases "nodes = []")
    case True
    then show ?thesis by (simp add: spec_writes_def)
  next
    case False
    with Cons.prems have n: "NL \<notin> set node" "newline_last nodes"
      by (simp_all add: newline_last_def)
    have "spec_writes (node # nodes) s = spec_write (concat nodes) (spec_write node s)"
      using Cons.IH [OF n(2)] n(1) s by (simp add: spec_writes_def spec_write_def)
    then show ?thesis using n(1) by (simp add: s spec_write_def)
  qed
qed

text \<open>Every write of the loop stores all its bytes.\<close>

fun writes_succeed :: "('d, 'f) dev_ops \<Rightarrow> byte list list \<Rightarrow> 'f \<Rightarrow> 'd \<Rightarrow> bool" where
  "writes_succeed ops [] f d = True"
| "writes_succeed ops (node # nodes) f d =
     (case dev_write ops node f d of
        None \<Rightarrow> False
      | Some (r, f1, d1) \<Rightarrow> r = of_nat (length node) \<and> writes_succeed ops nodes f1 d1)"

section \<open>The client's thread under the device's contract\<close>

text \<open>Where the file stands after the seek of a parsed command.\<close>

definition seek_pos :: "byte list list \<Rightarrow> nat \<times> nat \<Rightarrow> nat" where
  "seek_pos cs xy =
     (case seek_spec cs (fst xy mod 2 ^ 32) (snd xy mod 2 ^ 32) of None \<Rightarrow> 0 | Some p \<Rightarrow> p)"

lemma chunk_positive:
  "length out \<le> 1024 \<Longrightarrow> out \<noteq> [] \<Longrightarrow> \<not> sint (of_nat (length out) :: ssize_t) \<le> 0
     \<and> unat (of_nat (length out) :: ssize_t) = length out"
  by (simp add: sint_small)

context seek_device
begin

lemma read_back_all:
  "sound d \<Longrightarrow> usable f \<Longrightarrow> \<exists>chunks f'. read_back ops f d = Some (chunks, f', d)
     \<and> concat chunks = drop (fpos f) (concat (cmds d)) \<and> [] \<notin> set chunks"
proof (induction "length (concat (cmds d)) - fpos f" arbitrary: f rule: less_induct)
  case less
  let ?out = "spec_read (cmds d) (fpos f) (unat BUFFER_SIZE)"
  have n: "0 < unat BUFFER_SIZE" "unat BUFFER_SIZE = 1024" by (simp_all add: BUFFER_SIZE_def)
  obtain f1 where f1: "dev_read ops BUFFER_SIZE f d = Some (of_nat (length ?out), ?out, f1, d)"
    "usable f1" "fpos f1 = fpos f + length ?out"
    using read_law [OF less.prems] by blast
  show ?case
  proof (cases "?out = []")
    case True
    then have "drop (fpos f) (concat (cmds d)) = []"
      using spec_read_Nil_iff [OF n(1)] by simp
    moreover have "read_back ops f d = Some ([], f1, d)"
      using f1(1) True by (subst read_back.simps) simp
    ultimately show ?thesis by simp
  next
    case False
    then have lt: "\<not> length (concat (cmds d)) \<le> fpos f"
      using spec_read_Nil_iff [OF n(1)] by simp
    have "0 < length ?out" using False by simp
    then have "length (concat (cmds d)) - fpos f1 < length (concat (cmds d)) - fpos f"
      using lt unfolding f1(3) by arith
    from less.hyps [OF this less.prems(1) f1(2)] obtain chunks f' where
      r: "read_back ops f1 d = Some (chunks, f', d)"
      "concat chunks = drop (fpos f1) (concat (cmds d))" "[] \<notin> set chunks" by blast
    have pos: "\<not> sint (of_nat (length ?out) :: ssize_t) \<le> 0"
      "unat (of_nat (length ?out) :: ssize_t) = length ?out"
      using chunk_positive [OF _ False] spec_read_length [of "cmds d" "fpos f" 1024] n(2) by simp_all
    have "read_back ops f d = Some (?out # chunks, f', d)"
      using f1(1) r(1) pos by (subst read_back.simps) simp
    moreover obtain rest where "drop (fpos f) (concat (cmds d)) = ?out @ rest"
      using spec_read_prefix by blast
    then have "?out @ drop (fpos f1) (concat (cmds d)) = drop (fpos f) (concat (cmds d))"
      using f1(3) by (metis append_eq_conv_conj drop_drop add.commute)
    ultimately show ?thesis using r(2,3) False by auto
  qed
qed

lemma reply_all:
  assumes "sound d" and "usable f"
  shows "\<exists>chunks. reply ops (Some f) d = Some (chunks, d)
     \<and> concat chunks = drop (fpos f) (concat (cmds d))"
  using read_back_all [OF assms] close_law [OF assms(1)] by (auto simp: reply_def)

lemma section_seek:
  assumes "sound d" and "newline_last nodes" and "seek_line (line_of (concat nodes)) = Some xy"
  shows "\<exists>f. critical_section ops nodes d
       = Some \<lparr>file_fd = Some f, status = 0, unfreed = nodes, dev_after = d\<rparr>
     \<and> usable f \<and> fpos f = seek_pos (cmds d) xy"
proof -
  obtain x y where xy: "xy = (x, y)" by (cases xy)
  let ?s = "\<lparr>write_cmd = of_nat x, write_cmd_offset = of_nat y\<rparr>"
  have ne: "nodes \<noteq> []"
    using assms(3) by (auto simp: line_of_def seek_line_def Let_def AESDCHAR_IOCSEEKTO_CMD_def)
  have fc: "findCommand nodes (Some AESDCHAR_IOCSEEKTO_CMD) = Some (Some ?s)"
    using findCommand_seek_line [OF assms(2)] assms(3) xy by simp
  obtain f where f: "dev_open ops d = Some (Some f, d)" "usable f" "fpos f = 0"
    using open_law [OF assms(1)] by blast
  have m: "unat (of_nat n :: uint32_t) = n mod 2 ^ 32" for n by (simp add: unat_of_nat)
  note i = ioctl_law [OF assms(1) f(2), of ?s]
  show ?thesis
  proof (cases "seek_spec (cmds d) (x mod 2 ^ 32) (y mod 2 ^ 32)")
    case None
    then show ?thesis using i ne fc f by (simp add: m critical_section_def seek_pos_def xy)
  next
    case (Some p)
    then show ?thesis using i ne fc f by (auto simp: m critical_section_def seek_pos_def xy)
  qed
qed

text \<open>
  A client that sends the seek command gets the device's data from the chosen position on
  (all of it, when the command is rejected); the device does not change and the list of
  received buffers is never freed.
\<close>

lemma process_seek:
  assumes "sound d" and "rounds_ok rounds"
    and "seek_line (line_of (concat (received rounds))) = Some xy"
  shows "\<exists>chunks. processClientConnection ops rounds d
       = Some \<lparr>sent = chunks, end_status = 0, leaked_nodes = received rounds, isDone = True, dev_end = d\<rparr>
     \<and> concat chunks = drop (seek_pos (cmds d) xy) (concat (cmds d))"
proof -
  obtain f where f: "critical_section ops (received rounds) d
      = Some \<lparr>file_fd = Some f, status = 0, unfreed = received rounds, dev_after = d\<rparr>"
    "usable f" "fpos f = seek_pos (cmds d) xy"
    using section_seek [OF assms(1) received_newline_last assms(3)] by blast
  then show ?thesis
    using reply_all [OF assms(1) f(2)] recv_loop_received [OF assms(2), of "[]"]
    by (auto simp: processClientConnection_def)
qed

end

context char_device
begin

text \<open>However the writes go, the loop ends, and none of them is ever logged as short.\<close>

lemma write_loop_total:
  "sound d \<Longrightarrow> usable f \<Longrightarrow> list_all (\<lambda>node. length node < 2 ^ 31) nodes \<Longrightarrow>
     \<exists>d'. write_loop ops nodes f d = Some (0, f, d') \<and> sound d'"
proof (induction nodes arbitrary: d)
  case Nil
  then show ?case by simp
next
  case (Cons node nodes)
  then obtain r d1 where w: "dev_write ops node f d = Some (r, f, d1)" "sound d1"
      "r \<in> {of_nat (length node), - 1}"
    using write_defined [of d f node] by auto
  have "\<not> r < (of_nat (length node) :: size_t)"
    using w(3) Cons.prems(3) by (auto simp: word_less_nat_alt)
  with w Cons.IH [OF w(2) Cons.prems(2)] Cons.prems(3) show ?case by auto
qed

lemma write_loop_good:
  "good d \<Longrightarrow> usable f \<Longrightarrow> list_all (\<lambda>node. length node < 2 ^ 31) nodes \<Longrightarrow>
     writes_succeed ops nodes f d \<Longrightarrow>
     \<exists>d'. write_loop ops nodes f d = Some (0, f, d') \<and> good d'
       \<and> (cmds d', pend d') = spec_writes nodes (cmds d, pend d)"
proof (induction nodes arbitrary: d)
  case Nil
  then show ?case by (simp add: spec_writes_def)
next
  case (Cons node nodes)
  then obtain d1 where w: "dev_write ops node f d = Some (of_nat (length node), f, d1)"
      "writes_succeed ops nodes f d1"
    using write_defined [OF good_sound [OF Cons.prems(1)] Cons.prems(2), of node]
    by (auto split: option.splits prod.splits)
  have g: "good d1" "(cmds d1, pend d1) = spec_write node (cmds d, pend d)"
    using write_law [OF Cons.prems(1,2) _ w(1)] Cons.prems(3) by auto
  from Cons.IH [OF g(1) Cons.prems(2) _ w(2)] Cons.prems(3) obtain d' where
    "write_loop ops nodes f d1 = Some (0, f, d')" "good d'"
    "(cmds d', pend d') = spec_writes nodes (cmds d1, pend d1)" by auto
  with w(1) g(2) show ?case by (auto simp: spec_writes_def)
qed

text \<open>
  A message that is not the seek command: it is appended to the device as one write of the
  whole message, and the reply is everything the device then holds.
\<close>

lemma process_message:
  assumes "good d" and "rounds_ok rounds" and "list_all (\<lambda>r. length (recvd r) \<le> 1024) rounds"
    and "received rounds \<noteq> []" and "seek_line (line_of (concat (received rounds))) = None"
    and ok: "\<And>f. usable f \<Longrightarrow> fpos f = 0 \<Longrightarrow> dev_open ops d = Some (Some f, d) \<Longrightarrow>
        writes_succeed ops (received rounds) f d"
  shows "\<exists>chunks d'. processClientConnection ops rounds d
       = Some \<lparr>sent = chunks, end_status = 0, leaked_nodes = [], isDone = True, dev_end = d'\<rparr>
     \<and> good d' \<and> (cmds d', pend d') = spec_write (concat (received rounds)) (cmds d, pend d)
     \<and> concat chunks = concat (cmds d')"
proof -
  let ?nodes = "received rounds"
  have so: "sound d" by (rule good_sound [OF assms(1)])
  obtain f where f: "dev_open ops d = Some (Some f, d)" "usable f" "fpos f = 0"
    using open_law [OF so] by blast
  have len: "list_all (\<lambda>node. length node < 2 ^ 31) ?nodes"
    using received_bound [OF assms(3)] by (force simp: list_all_iff)
  obtain d' where w: "write_loop ops ?nodes f d = Some (0, f, d')" "good d'"
    "(cmds d', pend d') = spec_writes ?nodes (cmds d, pend d)"
    using write_loop_good [OF assms(1) f(2) len ok [OF f(2,3,1)]] by blast
  have "findCommand ?nodes (Some AESDCHAR_IOCSEEKTO_CMD) = Some None"
    using findCommand_seek_line [OF received_newline_last] assms(5) by simp
  then have "critical_section ops ?nodes d
      = Some \<lparr>file_fd = Some f, status = 0, unfreed = [], dev_after = d'\<rparr>"
    using assms(4) f(1) w(1) by (simp add: critical_section_def)
  moreover obtain chunks where "reply ops (Some f) d' = Some (chunks, d')"
    "concat chunks = concat (cmds d')"
    using reply_all [OF good_sound [OF w(2)] f(2)] f(3) by auto
  ultimately show ?thesis
    using w(2,3) spec_writes_concat [OF received_newline_last] recv_loop_received [OF assms(2), of "[]"]
    by (auto simp: processClientConnection_def)
qed

text \<open>Once the receive loop has ended, the thread comes to an end and leaves a sound device.\<close>

lemma process_total:
  assumes "sound d" and rl: "recv_loop rounds [] = Some nodes"
    and "list_all (\<lambda>r. length (recvd r) \<le> 1024) rounds"
  shows "\<exists>r. processClientConnection ops rounds d = Some r \<and> isDone r \<and> sound (dev_end r)"
proof -
  have nl: "newline_last nodes" and sub: "set nodes \<subseteq> recvd ` set rounds"
    using recv_loop_nodes [OF rl] by simp_all
  have len: "list_all (\<lambda>node. length node < 2 ^ 31) nodes"
    using sub assms(3) by (fastforce simp: list_all_iff)
  obtain f where f: "dev_open ops d = Some (Some f, d)" "usable f" using open_law [OF assms(1)] by blast
  show ?thesis
  proof (cases "seek_line (line_of (concat nodes))")
    case (Some xy)
    from section_seek [OF assms(1) nl Some] obtain f' where
      "critical_section ops nodes d
         = Some \<lparr>file_fd = Some f', status = 0, unfreed = nodes, dev_after = d\<rparr>" "usable f'" by blast
    with reply_all [OF assms(1)] rl assms(1) show ?thesis
      by (fastforce simp: processClientConnection_def)
  next
    case None
    then have fc: "findCommand nodes (Some AESDCHAR_IOCSEEKTO_CMD) = Some None"
      using findCommand_seek_line [OF nl] by simp
    show ?thesis
    proof (cases "nodes = []")
      case True
      with fc rl assms(1) show ?thesis
        by (simp add: processClientConnection_def critical_section_def reply_def)
    next
      case False
      obtain d' where w: "write_loop ops nodes f d = Some (0, f, d')" "sound d'"
        using write_loop_total [OF assms(1) f(2) len] by blast
      with False fc f(1) have "critical_section ops nodes d
          = Some \<lparr>file_fd = Some f, status = 0, unfreed = [], dev_after = d'\<rparr>"
        by (simp add: critical_section_def)
      with reply_all [OF w(2) f(2)] rl w(2) show ?thesis
        by (auto simp: processClientConnection_def)
    qed
  qed
qed

end

end
