(* ===== verification/Server_Interleaving.thy ===== *)
theory Server_Interleaving
  imports Socket_Client
begin

text \<open>
  The server's client threads running side by side: a step relation at the granularity of
  the calls on the device and on \<open>file_mutex\<close>, for any number of threads of
  \<open>processClientConnection\<close> in \<^verbatim>\<open>server/aesdsocket.c\<close>. The writes of a thread happen under the
  mutex, the reads that send the data back do not. The invariant is proved by rule
  induction under the device's contract.
\<close>

section \<open>Threads and steps\<close>

text \<open>
  Where a thread is: before the lock; after the open, about to look for the seek command;
  in the write loop with the buffers still to write; about to unlock; in the read-back
  loop; done. A number that is no client has no thread.
\<close>

datatype 'f phase =
    Absent
  | Waiting
  | Deciding "'f option"
  | Writing "byte list list" "'f option"
  | Leaving "'f option"
  | Replying "'f option"
  | Finished

text \<open>
  The state. The last three fields are history: the threads in the order in which they took
  the lock, the buffers written, and whether every write so far stored all its bytes.
\<close>

record ('d, 'f) server =
  sdev :: 'd
  holder :: "nat option"
  phase :: "nat \<Rightarrow> 'f phase"
  replies :: "nat \<Rightarrow> byte list list"
  order :: "nat list"
  written :: "byte list list"
  all_stored :: bool

definition set_phase :: "nat \<Rightarrow> 'f phase \<Rightarrow> ('d, 'f) server \<Rightarrow> ('d, 'f) server" where
  "set_phase c p s = s\<lparr>phase := (phase s)(c := p)\<rparr>"

text \<open>\<open>msgs c\<close> are the buffers thread \<open>c\<close> has received.\<close>

inductive server_step :: "('d, 'f) dev_ops \<Rightarrow> (nat \<Rightarrow> byte list list) \<Rightarrow>
    ('d, 'f) server \<Rightarrow> ('d, 'f) server \<Rightarrow> bool"
  for ops :: "('d, 'f) dev_ops" and msgs :: "nat \<Rightarrow> byte list list" where
  enter: "phase s c = Waiting \<Longrightarrow> holder s = None \<Longrightarrow>
     (if msgs c \<noteq> [] then dev_open ops (sdev s) else Some (None, sdev s)) = Some (fd, d') \<Longrightarrow>
     server_step ops msgs s
       (set_phase c (Deciding fd) s\<lparr>holder := Some c, sdev := d', order := order s @ [c]\<rparr>)"
| seek: "phase s c = Deciding (Some f) \<Longrightarrow>
     findCommand (msgs c) (Some AESDCHAR_IOCSEEKTO_CMD) = Some (Some seekto) \<Longrightarrow>
     dev_ioctl ops seekto f (sdev s) = Some (r, f', d') \<Longrightarrow>
     server_step ops msgs s (set_phase c (Leaving (Some f')) s\<lparr>sdev := d'\<rparr>)"
| seek_no_file: "phase s c = Deciding None \<Longrightarrow>
     findCommand (msgs c) (Some AESDCHAR_IOCSEEKTO_CMD) = Some (Some seekto) \<Longrightarrow>
     server_step ops msgs s (set_phase c (Leaving None) s)"
| no_seek: "phase s c = Deciding fd \<Longrightarrow>
     findCommand (msgs c) (Some AESDCHAR_IOCSEEKTO_CMD) = Some None \<Longrightarrow>
     server_step ops msgs s (set_phase c (Writing (msgs c) fd) s)"
| write_node: "phase s c = Writing (node # nodes) (Some f) \<Longrightarrow>
     dev_write ops node f (sdev s) = Some (r, f', d') \<Longrightarrow>
     server_step ops msgs s (set_phase c (Writing nodes (Some f')) s\<lparr>sdev := d',
       written := written s @ [node], all_stored := (all_stored s \<and> r = of_nat (length node))\<rparr>)"
| write_end: "phase s c = Writing nodes fd \<Longrightarrow> fd = None \<or> nodes = [] \<Longrightarrow>
     server_step ops msgs s (set_phase c (Leaving fd) s)"
| leave: "phase s c = Leaving fd \<Longrightarrow>
     server_step ops msgs s (set_phase c (Replying fd) s\<lparr>holder := None\<rparr>)"
| read: "phase s c = Replying (Some f) \<Longrightarrow>
     dev_read ops BUFFER_SIZE f (sdev s) = Some (r, out, f', d') \<Longrightarrow> 0 < sint r \<Longrightarrow>
     server_step ops msgs s (set_phase c (Replying (Some f')) s\<lparr>sdev := d',
       replies := (replies s)(c := replies s c @ [take (unat r) out])\<rparr>)"
| finish: "phase s c = Replying (Some f) \<Longrightarrow>
     dev_read ops BUFFER_SIZE f (sdev s) = Some (r, out, f', d') \<Longrightarrow> sint r \<le> 0 \<Longrightarrow>
     server_step ops msgs s (set_phase c Finished s\<lparr>sdev := dev_close ops f' d'\<rparr>)"
| finish_no_file: "phase s c = Replying None \<Longrightarrow>
     server_step ops msgs s (set_phase c Finished s)"

inductive server_reach :: "('d, 'f) dev_ops \<Rightarrow> (nat \<Rightarrow> byte list list) \<Rightarrow>
    ('d, 'f) server \<Rightarrow> ('d, 'f) server \<Rightarrow> bool"
  for ops :: "('d, 'f) dev_ops" and msgs :: "nat \<Rightarrow> byte list list" and s0 :: "('d, 'f) server" where
  start: "server_reach ops msgs s0 s0"
| run: "server_reach ops msgs s0 s \<Longrightarrow> server_step ops msgs s t \<Longrightarrow> server_reach ops msgs s0 t"

text \<open>The threads of the clients \<open>C\<close>, before any of them takes the lock.\<close>

definition server_start :: "nat set \<Rightarrow> 'd \<Rightarrow> ('d, 'f) server" where
  "server_start C d = \<lparr>sdev = d, holder = None, phase = (\<lambda>c. if c \<in> C then Waiting else Absent), replies = (\<lambda>c. []),
     order = [], written = [], all_stored = True\<rparr>"

section \<open>Invariants\<close>

fun in_section :: "'f phase \<Rightarrow> bool" where
  "in_section (Deciding fd) = True"
| "in_section (Writing nodes fd) = True"
| "in_section (Leaving fd) = True"
| "in_section _ = False"

fun phase_fd :: "'f phase \<Rightarrow> 'f option" where
  "phase_fd (Deciding fd) = fd"
| "phase_fd (Writing nodes fd) = fd"
| "phase_fd (Leaving fd) = fd"
| "phase_fd (Replying fd) = fd"
| "phase_fd _ = None"

text \<open>What thread \<open>c\<close> is going to write in all, and what it has still to write.\<close>

definition to_write :: "(nat \<Rightarrow> byte list list) \<Rightarrow> nat \<Rightarrow> byte list list" where
  "to_write msgs c =
     (if findCommand (msgs c) (Some AESDCHAR_IOCSEEKTO_CMD) = Some None then msgs c else [])"

fun left_to_write :: "(nat \<Rightarrow> byte list list) \<Rightarrow> nat \<Rightarrow> 'f phase \<Rightarrow> byte list list" where
  "left_to_write msgs c (Deciding fd) = to_write msgs c"
| "left_to_write msgs c (Writing nodes fd) = nodes"
| "left_to_write msgs c _ = []"

definition exclusive :: "('d, 'f) server \<Rightarrow> bool" where
  [inv_defs]: "exclusive s \<longleftrightarrow> (\<forall>c. in_section (phase s c) \<longleftrightarrow> holder s = Some c)"

definition in_order :: "(nat \<Rightarrow> byte list list) \<Rightarrow> ('d, 'f) server \<Rightarrow> bool" where
  [inv_defs]: "in_order msgs s \<longleftrightarrow>
     written s @ (case holder s of None \<Rightarrow> [] | Some c \<Rightarrow> left_to_write msgs c (phase s c))
       = concat (map (to_write msgs) (order s))"

text \<open>No thread is writing without a file.\<close>

definition files_open :: "(nat \<Rightarrow> byte list list) \<Rightarrow> ('d, 'f) server \<Rightarrow> bool" where
  [inv_defs]: "files_open msgs s \<longleftrightarrow>
     (\<forall>c. in_section (phase s c) \<and> phase_fd (phase s c) = None \<longrightarrow> left_to_write msgs c (phase s c) = [])"

lemma set_phase_simps [simp]:
  "sdev (set_phase c p s) = sdev s" "holder (set_phase c p s) = holder s"
  "phase (set_phase c p s) = (phase s)(c := p)" "replies (set_phase c p s) = replies s"
  "order (set_phase c p s) = order s" "written (set_phase c p s) = written s"
  "all_stored (set_phase c p s) = all_stored s"
  by (simp_all add: set_phase_def)

text \<open>How a step of thread \<open>c\<close> can move the lock.\<close>

lemma exclusive_stay:
  assumes "exclusive s" and "in_section p = in_section (phase s c)"
    and "phase t = (phase s)(c := p)" and "holder t = holder s"
  shows "exclusive t"
  using assms by (auto simp: exclusive_def)

lemma exclusive_enter:
  assumes "exclusive s" and "holder s = None" and "in_section p"
    and "phase t = (phase s)(c := p)" and "holder t = Some c"
  shows "exclusive t"
  using assms by (auto simp: exclusive_def)

lemma exclusive_leave:
  assumes "exclusive s" and "in_section (phase s c)" and "\<not> in_section p"
    and "phase t = (phase s)(c := p)" and "holder t = None"
  shows "exclusive t"
  using assms by (auto simp: exclusive_def)

lemma step_exclusive:
  assumes "server_step ops msgs s t" and ex: "exclusive s"
  shows "exclusive t"
  using assms(1)
proof cases
  case (enter c fd d')
  then show ?thesis by (intro exclusive_enter [OF ex, where c = c and p = "Deciding fd"]) simp_all
next
  case (leave c fd)
  then show ?thesis by (intro exclusive_leave [OF ex, where c = c and p = "Replying fd"]) simp_all
next
  case (seek c f seekto r f' d')
  then show ?thesis by (intro exclusive_stay [OF ex, where c = c and p = "Leaving (Some f')"]) simp_all
next
  case (seek_no_file c seekto)
  then show ?thesis by (intro exclusive_stay [OF ex, where c = c and p = "Leaving None"]) simp_all
next
  case (no_seek c fd)
  then show ?thesis by (intro exclusive_stay [OF ex, where c = c and p = "Writing (msgs c) fd"]) simp_all
next
  case (write_node c node nodes f r f' d')
  then show ?thesis by (intro exclusive_stay [OF ex, where c = c and p = "Writing nodes (Some f')"]) simp_all
next
  case (write_end c nodes fd)
  then show ?thesis by (intro exclusive_stay [OF ex, where c = c and p = "Leaving fd"]) simp_all
next
  case (read c f r out f' d')
  then show ?thesis by (intro exclusive_stay [OF ex, where c = c and p = "Replying (Some f')"]) simp_all
next
  case (finish c f r out f' d')
  then show ?thesis by (intro exclusive_stay [OF ex, where c = c and p = Finished]) simp_all
next
  case (finish_no_file c)
  then show ?thesis by (intro exclusive_stay [OF ex, where c = c and p = Finished]) simp_all
qed

lemma reach_exclusive: "server_reach ops msgs (server_start C d) s \<Longrightarrow> exclusive s"
  by (induction rule: server_reach.induct)
     (auto simp: exclusive_def server_start_def dest: step_exclusive)

section \<open>The buffers are written in the order of the lock\<close>

lemma in_order_inside:
  assumes "in_order msgs s" and "holder s = Some c" and "order t = order s" and "holder t = Some c"
    and "written t @ left_to_write msgs c (phase t c) = written s @ left_to_write msgs c (phase s c)"
  shows "in_order msgs t"
  using assms by (simp add: in_order_def)

lemma in_order_outside:
  assumes "in_order msgs s" and "holder s \<noteq> Some c" and "phase t = (phase s)(c := p)"
    and "order t = order s" and "holder t = holder s" and "written t = written s"
  shows "in_order msgs t"
  using assms by (auto simp: in_order_def split: option.splits)

lemma step_in_order:
  assumes "server_step ops msgs s t" and ex: "exclusive s" and io: "in_order msgs s"
    and fo: "files_open msgs s"
  shows "in_order msgs t"
  using assms(1)
proof cases
  case (enter c fd d')
  with io show ?thesis by (simp add: in_order_def)
next
  case (seek c f seekto r f' d')
  with ex have "holder s = Some c" by (metis exclusive_def in_section.simps(1))
  with seek show ?thesis by (intro in_order_inside [OF io, where c = c]) (simp_all add: to_write_def)
next
  case (seek_no_file c seekto)
  with ex have "holder s = Some c" by (metis exclusive_def in_section.simps(1))
  with seek_no_file show ?thesis by (intro in_order_inside [OF io, where c = c]) (simp_all add: to_write_def)
next
  case (no_seek c fd)
  with ex have "holder s = Some c" by (metis exclusive_def in_section.simps(1))
  with no_seek show ?thesis by (intro in_order_inside [OF io, where c = c]) (simp_all add: to_write_def)
next
  case (write_node c node nodes f r f' d')
  with ex have "holder s = Some c" by (metis exclusive_def in_section.simps(2))
  with write_node show ?thesis by (intro in_order_inside [OF io, where c = c]) simp_all
next
  case (write_end c nodes fd)
  with ex have h: "holder s = Some c" by (metis exclusive_def in_section.simps(2))
  have "nodes = []"
    using write_end fo by (auto simp: files_open_def dest: spec [of _ c])
  with h write_end show ?thesis by (intro in_order_inside [OF io, where c = c]) simp_all
next
  case (leave c fd)
  with ex have "holder s = Some c" by (metis exclusive_def in_section.simps(3))
  with leave io show ?thesis by (simp add: in_order_def)
next
  case (read c f r out f' d')
  then have "holder s \<noteq> Some c" using ex by (auto simp: exclusive_def dest: spec [of _ c])
  with read show ?thesis by (intro in_order_outside [OF io, where c = c]) simp_all
next
  case (finish c f r out f' d')
  then have "holder s \<noteq> Some c" using ex by (auto simp: exclusive_def dest: spec [of _ c])
  with finish show ?thesis by (intro in_order_outside [OF io, where c = c]) simp_all
next
  case (finish_no_file c)
  then have "holder s \<noteq> Some c" using ex by (auto simp: exclusive_def dest: spec [of _ c])
  with finish_no_file show ?thesis by (intro in_order_outside [OF io, where c = c]) simp_all
qed

text \<open>A thread only ever writes buffers it has received.\<close>

definition writes_own :: "(nat \<Rightarrow> byte list list) \<Rightarrow> ('d, 'f) server \<Rightarrow> bool" where
  [inv_defs]: "writes_own msgs s \<longleftrightarrow>
     (\<forall>c nodes fd. phase s c = Writing nodes fd \<longrightarrow> set nodes \<subseteq> set (msgs c))"

lemma step_writes_own: "server_step ops msgs s t \<Longrightarrow> writes_own msgs s \<Longrightarrow> writes_own msgs t"
  by (cases rule: server_step.cases, assumption) (auto simp: writes_own_def split: if_splits, fastforce?)

section \<open>Runs under the device's contract\<close>

context char_device
begin

definition run_inv :: "(nat \<Rightarrow> byte list list) \<Rightarrow> 'd \<Rightarrow> ('d, 'f) server \<Rightarrow> bool" where
  "run_inv msgs d0 s \<longleftrightarrow> exclusive s \<and> in_order msgs s \<and> files_open msgs s \<and> writes_own msgs s
     \<and> sound (sdev s) \<and> (\<forall>c f. phase_fd (phase s c) = Some f \<longrightarrow> usable f)
     \<and> (all_stored s \<longrightarrow> good (sdev s)
          \<and> (cmds (sdev s), pend (sdev s)) = spec_writes (written s) (cmds d0, pend d0))"

lemma ioctl_result:
  assumes "sound d" and "usable f" and "dev_ioctl ops sk f d = Some (r, f', d')"
  shows "d' = d \<and> usable f'"
  using ioctl_law [OF assms(1,2), of sk] assms(2,3) by (auto split: option.splits)

lemma read_result:
  assumes "sound d" and "usable f" and "dev_read ops n f d = Some (r, out, f', d')"
  shows "d' = d \<and> usable f'"
  using read_law [OF assms(1,2), of n] assms(3) by auto

lemma write_result:
  assumes "sound d" and "usable f" and "length data < 2 ^ 31"
    and "dev_write ops data f d = Some (r, f', d')"
  shows "f' = f \<and> sound d' \<and> (good d \<longrightarrow> r = of_nat (length data) \<longrightarrow>
     good d' \<and> (cmds d', pend d') = spec_write data (cmds d, pend d))"
  using write_defined [OF assms(1-3)] assms(4) write_law [of d f data d'] assms(2,3) by auto

lemma step_device:
  assumes st: "server_step ops msgs s t" and inv: "run_inv msgs d0 s"
    and len: "\<And>c node. node \<in> set (msgs c) \<Longrightarrow> length node < 2 ^ 31"
  shows "files_open msgs t \<and> sound (sdev t) \<and> (\<forall>c f. phase_fd (phase t c) = Some f \<longrightarrow> usable f)
     \<and> (all_stored t \<longrightarrow> good (sdev t)
          \<and> (cmds (sdev t), pend (sdev t)) = spec_writes (written t) (cmds d0, pend d0))"
proof -
  have so: "sound (sdev s)" and us: "\<And>c f. phase_fd (phase s c) = Some f \<Longrightarrow> usable f"
    and fo: "files_open msgs s" and wo: "writes_own msgs s"
    and co: "all_stored s \<Longrightarrow> good (sdev s)"
      "all_stored s \<Longrightarrow> (cmds (sdev s), pend (sdev s)) = spec_writes (written s) (cmds d0, pend d0)"
    using inv by (auto simp: run_inv_def)
  from st show ?thesis
  proof cases
    case (enter c fd d')
    have "d' = sdev s \<and> (\<forall>f. fd = Some f \<longrightarrow> usable f) \<and> (fd = None \<longrightarrow> msgs c = [])"
      using open_law [OF so] enter(4) by (auto split: if_splits)
    with enter so us fo co show ?thesis
      by (auto simp: files_open_def to_write_def)
  next
    case (seek c f seekto r f' d')
    have "d' = sdev s \<and> usable f'"
      using ioctl_result [OF so us [of c] seek(4)] seek(2) by simp
    with seek so us fo co show ?thesis by (auto simp: files_open_def)
  next
    case (seek_no_file c seekto)
    with so us fo co show ?thesis by (auto simp: files_open_def)
  next
    case (no_seek c fd)
    have "fd = None \<longrightarrow> msgs c = []"
      using fo no_seek by (auto simp: files_open_def to_write_def dest: spec [of _ c])
    with no_seek so us [of c] us fo co show ?thesis by (auto simp: files_open_def)
  next
    case (write_node c node nodes f r f' d')
    have "node \<in> set (msgs c)" using wo write_node(2) by (fastforce simp: writes_own_def)
    then have "f' = f \<and> sound d' \<and> (good (sdev s) \<longrightarrow> r = of_nat (length node) \<longrightarrow>
        good d' \<and> (cmds d', pend d') = spec_write node (cmds (sdev s), pend (sdev s)))"
      using write_result [OF so us [of c] len write_node(3)] write_node(2) by auto
    moreover have "usable f" using us [of c] write_node(2) by simp
    ultimately show ?thesis
      using write_node us fo co by (auto simp: files_open_def spec_writes_def)
  next
    case (write_end c nodes fd)
    with so us [of c] us fo co show ?thesis by (auto simp: files_open_def)
  next
    case (leave c fd)
    with so us [of c] us fo co show ?thesis by (auto simp: files_open_def)
  next
    case (read c f r out f' d')
    have "d' = sdev s \<and> usable f'"
      using read_result [OF so us [of c] read(3)] read(2) by simp
    with read so us fo co show ?thesis by (auto simp: files_open_def)
  next
    case (finish c f r out f' d')
    have "d' = sdev s" using read_result [OF so us [of c] finish(3)] finish(2) by simp
    moreover have "dev_close ops f' (sdev s) = sdev s" by (rule close_law [OF so])
    ultimately show ?thesis using finish so us fo co by (auto simp: files_open_def)
  next
    case (finish_no_file c)
    with so us fo co show ?thesis by (auto simp: files_open_def)
  qed
qed

lemma reach_run_inv:
  assumes "good d0" and len: "\<And>c node. node \<in> set (msgs c) \<Longrightarrow> length node < 2 ^ 31"
    and "server_reach ops msgs (server_start C d0) s"
  shows "run_inv msgs d0 s"
  using assms(3)
proof induction
  case start
  show ?case
    using assms(1) good_sound [OF assms(1)]
    by (simp add: run_inv_def server_start_def exclusive_def in_order_def files_open_def
        writes_own_def spec_writes_def)
next
  case (run s t)
  then show ?case
    using step_device [OF run(2,3) len] step_exclusive [OF run(2)] step_in_order [OF run(2)]
      step_writes_own [OF run(2)] by (simp add: run_inv_def)
qed

text \<open>Inside the section a thread can always go on: every call on the device returns.\<close>

lemma section_can_step:
  assumes inv: "run_inv msgs d0 s" and len: "\<And>c node. node \<in> set (msgs c) \<Longrightarrow> length node < 2 ^ 31"
    and nl: "\<And>c. newline_last (msgs c)" and that: "in_section (phase s h)"
  shows "\<exists>t. server_step ops msgs s t"
proof -
  have so: "sound (sdev s)" and us: "\<And>c f. phase_fd (phase s c) = Some f \<Longrightarrow> usable f"
    and wo: "writes_own msgs s"
    using inv by (auto simp: run_inv_def)
  show ?thesis
  proof (cases "phase s h")
    case (Deciding fd)
    show ?thesis
    proof (cases "seek_line (line_of (concat (msgs h)))")
      case None
      with Deciding show ?thesis
        using server_step.no_seek [of s h fd msgs ops] findCommand_seek_line [OF nl, of h] by auto
    next
      case (Some xy)
      then obtain sk where sk: "findCommand (msgs h) (Some AESDCHAR_IOCSEEKTO_CMD) = Some (Some sk)"
        using findCommand_seek_line [OF nl, of h] by (cases xy) auto
      show ?thesis
      proof (cases fd)
        case None
        with Deciding sk show ?thesis using server_step.seek_no_file [of s h msgs sk ops] by auto
      next
        case (Some f)
        then have "usable f" using us [of h] Deciding by simp
        from ioctl_law [OF so this, of sk] obtain r f' d' where "dev_ioctl ops sk f (sdev s) = Some (r, f', d')"
          by (auto split: option.splits)
        with Some Deciding sk show ?thesis using server_step.seek [of s h f msgs sk ops] by blast
      qed
    qed
  next
    case (Writing nodes fd)
    show ?thesis
    proof (cases "fd = None \<or> nodes = []")
      case True
      with Writing show ?thesis using server_step.write_end [of s h nodes fd ops msgs] by blast
    next
      case False
      then obtain f node rest where *: "fd = Some f" "nodes = node # rest" by (cases nodes) auto
      have "length node < 2 ^ 31" using len [of node h] wo Writing * by (fastforce simp: writes_own_def)
      moreover have "usable f" using us [of h] Writing * by simp
      ultimately obtain r d' where "dev_write ops node f (sdev s) = Some (r, f, d')"
        using write_defined [OF so, of f node] by blast
      with Writing * show ?thesis using server_step.write_node [of s h node rest f ops] by blast
    qed
  next
    case (Leaving fd)
    then show ?thesis using server_step.leave [of s h fd ops msgs] by blast
  qed (use that in simp_all)
qed

text \<open>As long as a client's thread has not finished, some thread can take a step.\<close>

lemma can_step:
  assumes inv: "run_inv msgs d0 s" and len: "\<And>c node. node \<in> set (msgs c) \<Longrightarrow> length node < 2 ^ 31"
    and nl: "\<And>c. newline_last (msgs c)" and "phase s c \<notin> {Finished, Absent}"
  shows "\<exists>t. server_step ops msgs s t"
proof -
  have so: "sound (sdev s)" and us: "\<And>c f. phase_fd (phase s c) = Some f \<Longrightarrow> usable f"
    and ex: "exclusive s"
    using inv by (auto simp: run_inv_def)
  show ?thesis
  proof (cases "holder s")
    case (Some h)
    with ex have "in_section (phase s h)" by (simp add: exclusive_def)
    from section_can_step [OF inv len nl this] show ?thesis .
  next
    case None
    then have out: "\<not> in_section (phase s c)" using ex by (simp add: exclusive_def)
    show ?thesis
    proof (cases "phase s c")
      case Waiting
      obtain f where "dev_open ops (sdev s) = Some (Some f, sdev s)" using open_law [OF so] by blast
      then have "(if msgs c \<noteq> [] then dev_open ops (sdev s) else Some (None, sdev s))
          = Some (if msgs c \<noteq> [] then Some f else None, sdev s)" by simp
      from server_step.enter [where msgs = msgs, OF Waiting None this] show ?thesis by blast
    next
      case (Replying fd)
      show ?thesis
      proof (cases fd)
        case None
        with Replying show ?thesis using server_step.finish_no_file [of s c ops msgs] by blast
      next
        case (Some f)
        then have "usable f" using us [of c] Replying by simp
        from read_law [OF so this, of BUFFER_SIZE] obtain r out f' where
          r: "dev_read ops BUFFER_SIZE f (sdev s) = Some (r, out, f', sdev s)" by blast
        show ?thesis
        proof (cases "0 < sint r")
          case True
          from server_step.read [OF _ r True] Replying Some show ?thesis by blast
        next
          case False
          then have "sint r \<le> 0" by simp
          from server_step.finish [OF _ r this] Replying Some show ?thesis by blast
        qed
      qed
    qed (use out assms(4) in simp_all)
  qed
qed

text \<open>
  Reading goes on at a byte offset, while a write that displaces the oldest command moves
  the data: a reader at \<open>f\<close> skips as many bytes as that command had.
\<close>

lemma displaced_read:
  assumes "good d" and "usable f" and "usable g" and "length data < 2 ^ 31"
    and "dev_write ops data g d = Some (of_nat (length data), g, d')"
    and "length (cmds d) = 10" and "NL \<in> set data"
    and "fpos f + length (hd (cmds d)) \<le> length (concat (cmds d))"
  shows "\<exists>chunks f'. read_back ops f d' = Some (chunks, f', d')
     \<and> concat chunks = drop (fpos f + length (hd (cmds d))) (concat (cmds d)) @ pend d @ data"
proof -
  note w = write_law [OF assms(1,3,4,5)]
  have "cmds d' = tl (cmds d) @ [pend d @ data]"
    using w assms(6,7) by (simp add: spec_write_def last_n_snoc_full)
  moreover obtain x xs where "cmds d = x # xs" using assms(6) by (cases "cmds d") auto
  ultimately have "drop (fpos f) (concat (cmds d'))
      = drop (fpos f + length (hd (cmds d))) (concat (cmds d)) @ pend d @ data"
    using assms(8) by simp
  with read_back_all [OF good_sound assms(2), of d'] w show ?thesis by auto
qed

end

end
