(* ===== verification/Server_Termination.thy ===== *)
theory Server_Termination
  imports Server_Interleaving
begin

text \<open>
  Every run of finitely many client threads comes to an end: a variant that each step
  decreases, lexicographically in the steps the threads have to take before their replies
  and in the bytes the replies in progress have still to read.
\<close>

section \<open>The variant\<close>

text \<open>What a thread has still to do before it replies, and while it replies to \<open>n\<close> bytes of data.\<close>

fun steps_left :: "nat \<Rightarrow> 'f phase \<Rightarrow> nat" where
  "steps_left m Waiting = m + 4"
| "steps_left m (Deciding fd) = m + 3"
| "steps_left m (Writing nodes fd) = length nodes + 2"
| "steps_left m (Leaving fd) = 1"
| "steps_left m _ = 0"

fun reads_left :: "('f \<Rightarrow> nat) \<Rightarrow> nat \<Rightarrow> 'f phase \<Rightarrow> nat" where
  "reads_left pos n (Replying (Some f)) = Suc (n - pos f)"
| "reads_left pos n (Replying None) = 1"
| "reads_left pos n _ = 0"

definition work_before :: "nat set \<Rightarrow> (nat \<Rightarrow> byte list list) \<Rightarrow> ('d, 'f) server \<Rightarrow> nat" where
  "work_before C msgs s = (\<Sum>c\<in>C. steps_left (length (msgs c)) (phase s c))"

lemma sum_upd:
  fixes g :: "nat \<Rightarrow> 'p \<Rightarrow> nat"
  assumes "finite C" and "c \<in> C"
  shows "g c q < g c (f c) \<Longrightarrow> (\<Sum>b\<in>C. g b ((f(c := q)) b)) < (\<Sum>b\<in>C. g b (f b))"
    and "g c q = g c (f c) \<Longrightarrow> (\<Sum>b\<in>C. g b ((f(c := q)) b)) = (\<Sum>b\<in>C. g b (f b))"
proof -
  assume "g c q < g c (f c)"
  then show "(\<Sum>b\<in>C. g b ((f(c := q)) b)) < (\<Sum>b\<in>C. g b (f b))"
    using assms by (intro sum_strict_mono_ex1) auto
next
  assume "g c q = g c (f c)"
  then show "(\<Sum>b\<in>C. g b ((f(c := q)) b)) = (\<Sum>b\<in>C. g b (f b))"
    by (intro sum.cong) auto
qed

lemma work_before_upd:
  assumes "finite C" and "c \<in> C" and "phase t = (phase s)(c := q)"
  shows "steps_left (length (msgs c)) q < steps_left (length (msgs c)) (phase s c) \<Longrightarrow>
      work_before C msgs t < work_before C msgs s"
    and "steps_left (length (msgs c)) q = steps_left (length (msgs c)) (phase s c) \<Longrightarrow>
      work_before C msgs t = work_before C msgs s"
  using sum_upd [OF assms(1,2), where g = "\<lambda>b. steps_left (length (msgs b))" and f = "phase s" and q = q]
  by (simp_all add: work_before_def assms(3) del: fun_upd_apply)

section \<open>Who can step\<close>

text \<open>Exactly the clients of \<open>C\<close> have threads.\<close>

definition only_clients :: "nat set \<Rightarrow> ('d, 'f) server \<Rightarrow> bool" where
  "only_clients C s \<longleftrightarrow> (\<forall>c. c \<in> C \<longleftrightarrow> phase s c \<noteq> Absent)"

lemma step_only_clients: "server_step ops msgs s t \<Longrightarrow> only_clients C s \<Longrightarrow> only_clients C t"
  by (cases rule: server_step.cases, assumption) (force simp: only_clients_def)+

lemma reach_only_clients: "server_reach ops msgs (server_start C d) s \<Longrightarrow> only_clients C s"
  by (induction rule: server_reach.induct)
     (auto simp: only_clients_def server_start_def dest: step_only_clients)

section \<open>Under the device's contract\<close>

context char_device
begin

definition work_replying :: "nat set \<Rightarrow> ('d, 'f) server \<Rightarrow> nat" where
  "work_replying C s = (\<Sum>c\<in>C. reads_left fpos (length (concat (cmds (sdev s)))) (phase s c))"

lemma work_replying_upd:
  assumes "finite C" and "c \<in> C" and "phase t = (phase s)(c := q)" and "sdev t = sdev s"
    and "reads_left fpos (length (concat (cmds (sdev s)))) q
           < reads_left fpos (length (concat (cmds (sdev s)))) (phase s c)"
  shows "work_replying C t < work_replying C s"
  using sum_upd(1) [OF assms(1,2), where g = "\<lambda>b. reads_left fpos (length (concat (cmds (sdev s))))"
      and f = "phase s" and q = q] assms(3-5)
  by (simp add: work_replying_def del: fun_upd_apply)

lemma positive_read:
  assumes "sound d" and "usable f" and "dev_read ops BUFFER_SIZE f d = Some (r, out, f', d')"
    and "0 < sint r"
  shows "d' = d \<and> fpos f < fpos f' \<and> fpos f' \<le> length (concat (cmds d))"
proof -
  let ?out = "spec_read (cmds d) (fpos f) (unat BUFFER_SIZE)"
  from read_law [OF assms(1,2), of BUFFER_SIZE] assms(3) have
    r: "r = of_nat (length ?out)" "d' = d" "fpos f' = fpos f + length ?out" by auto
  then have "?out \<noteq> []" using assms(4) by auto
  with spec_read_within [OF this] r show ?thesis by simp
qed

text \<open>The pair of both sums decreases in every step.\<close>

lemma step_decreases:
  assumes st: "server_step ops msgs s t" and inv: "run_inv msgs d0 s"
    and fin: "finite C" and on: "only_clients C s"
  shows "work_before C msgs t < work_before C msgs s
     \<or> work_before C msgs t = work_before C msgs s \<and> work_replying C t < work_replying C s"
proof -
  have so: "sound (sdev s)" and us: "\<And>c f. phase_fd (phase s c) = Some f \<Longrightarrow> usable f"
    using inv by (auto simp: run_inv_def)
  have mem: "c \<in> C" if "phase s c \<noteq> Absent" for c using on that by (simp add: only_clients_def)
  from st show ?thesis
  proof cases
    case (enter c fd d')
    with mem [of c] show ?thesis by (intro disjI1 work_before_upd(1) [OF fin]) auto
  next
    case (seek c f seekto r f' d')
    with mem [of c] show ?thesis by (intro disjI1 work_before_upd(1) [OF fin]) auto
  next
    case (seek_no_file c seekto)
    with mem [of c] show ?thesis by (intro disjI1 work_before_upd(1) [OF fin]) auto
  next
    case (no_seek c fd)
    with mem [of c] show ?thesis by (intro disjI1 work_before_upd(1) [OF fin]) auto
  next
    case (write_node c node nodes f r f' d')
    with mem [of c] show ?thesis by (intro disjI1 work_before_upd(1) [OF fin]) auto
  next
    case (write_end c nodes fd)
    with mem [of c] show ?thesis by (intro disjI1 work_before_upd(1) [OF fin]) auto
  next
    case (leave c fd)
    with mem [of c] show ?thesis by (intro disjI1 work_before_upd(1) [OF fin]) auto
  next
    case (read c f r out f' d')
    have "usable f" using us [of c] read(2) by simp
    from positive_read [OF so this read(3,4)] have
      p: "d' = sdev s" "fpos f < fpos f'" "fpos f' \<le> length (concat (cmds (sdev s)))" by auto
    with read mem [of c] show ?thesis
      by (intro disjI2 conjI work_before_upd(2) [OF fin, where c = c and q = "Replying (Some f')"]
          work_replying_upd [OF fin, where c = c and q = "Replying (Some f')"]) auto
  next
    case (finish c f r out f' d')
    have "usable f" using us [of c] finish(2) by simp
    from read_result [OF so this finish(3)] have "dev_close ops f' d' = sdev s"
      using close_law [OF so] by simp
    with finish mem [of c] show ?thesis
      by (intro disjI2 conjI work_before_upd(2) [OF fin, where c = c and q = Finished]
          work_replying_upd [OF fin, where c = c and q = Finished]) auto
  next
    case (finish_no_file c)
    with mem [of c] show ?thesis
      by (intro disjI2 conjI work_before_upd(2) [OF fin, where c = c and q = Finished]
          work_replying_upd [OF fin, where c = c and q = Finished]) auto
  qed
qed

lemma no_infinite_run:
  assumes good: "good d0" and len: "\<And>c node. node \<in> set (msgs c) \<Longrightarrow> length node < 2 ^ 31"
    and fin: "finite C" and start: "f 0 = server_start C d0"
    and step: "\<And>i. server_step ops msgs (f i) (f (Suc i))"
  shows False
proof -
  have reach: "server_reach ops msgs (server_start C d0) (f i)" for i
    by (induction i) (auto simp: start intro: server_reach.intros step)
  define v where "v i = (work_before C msgs (f i), work_replying C (f i))" for i
  have "\<forall>i. (v (Suc i), v i) \<in> less_than <*lex*> less_than"
    using step_decreases [OF step reach_run_inv [OF good len reach] fin reach_only_clients [OF reach]]
    by (simp add: v_def)
  moreover have "wf (less_than <*lex*> less_than)" by blast
  ultimately show False unfolding wf_iff_no_infinite_down_chain by blast
qed

text \<open>A run that cannot go on has served every client.\<close>

lemma stuck_finished:
  assumes "good d0" and len: "\<And>c node. node \<in> set (msgs c) \<Longrightarrow> length node < 2 ^ 31"
    and nl: "\<And>c. newline_last (msgs c)"
    and reach: "server_reach ops msgs (server_start C d0) s" and "\<And>t. \<not> server_step ops msgs s t"
    and "c \<in> C"
  shows "phase s c = Finished"
proof (rule ccontr)
  assume "phase s c \<noteq> Finished"
  moreover have "phase s c \<noteq> Absent"
    using reach_only_clients [OF reach] assms(6) by (simp add: only_clients_def)
  ultimately have "phase s c \<notin> {Finished, Absent}" by simp
  have "\<exists>t. server_step ops msgs s t"
    by (rule can_step [OF reach_run_inv [OF assms(1) len reach] len nl \<open>phase s c \<notin> {Finished, Absent}\<close>])
  with assms(5) show False by blast
qed

end

end
