(* ===== verification/Server_Properties.thy ===== *)
theory Server_Properties
  imports Server_Termination Driver_Examples
begin

text \<open>
  The properties of the socket server on the real driver: the lemmas of \<open>seek_device\<close> and
  \<open>char_device\<close> at their interpretation \<open>dev\<close>, with what a client sends, what it gets back,
  and what the device holds afterwards, for one client and for any number of them at once.
\<close>

section \<open>Examples\<close>

definition sample_rounds :: "byte list list \<Rightarrow> recv_round list" where
  "sample_rounds bufs = map (\<lambda>b. \<lparr>recv_returns = True, recvd = b, temp_alloc = True, node_alloc = True\<rparr>) bufs"

text \<open>A kernel with no memory left.\<close>

definition empty_kernel :: kernel where
  "empty_kernel = arena_kernel\<lparr>kmalloc := (\<lambda>h n. if n = 0 then (ZERO_SIZE_PTR, h) else (NULL, h))\<rparr>"

lemma empty_kernel_ok: "kernel_ok empty_kernel"
  using arena_kernel_ok
  by (auto simp: kernel_ok_def kmalloc_ok_def krealloc_ok_def kfree_ok_def empty_kernel_def)

lemma fresh_good: "kernel_ok K \<Longrightarrow> dev_good K fresh_driver"
  by (simp add: dev_good_def dev_sound_def fresh_driver_inv)

lemma full_good: "kernel_ok K \<Longrightarrow> dev_good K full_driver"
  by (simp add: dev_good_def dev_sound_def full_driver_inv)

lemma opened_file: "dev_open (aesd_ops K) d = Some (fd, d') \<longleftrightarrow> fd = Some sample_file \<and> d' = d"
  by (auto simp: aesd_ops_def aesd_open_def sample_file_def)

section \<open>One client\<close>

text \<open>C19: a client that sends a message (anything but the seek command), in any number of pieces,
  has it appended to the device as one write of the whole message, and is sent back everything
  the device then holds; the thread finishes and has freed what it received.\<close>

theorem client_message_stored_and_echoed:
  assumes "dev_good K d" and "rounds_ok rounds" and "list_all (\<lambda>r. length (recvd r) \<le> 1024) rounds"
    and "received rounds \<noteq> []" and "seek_line (line_of (concat (received rounds))) = None"
    and "writes_succeed (aesd_ops K) (received rounds) \<lparr>private_data = AesdDevice, f_pos = 0\<rparr> d"
  shows "\<exists>chunks d'. processClientConnection (aesd_ops K) rounds d
       = Some \<lparr>sent = chunks, end_status = 0, leaked_nodes = [], isDone = True, dev_end = d'\<rparr>
     \<and> (commands d', pending d') = spec_write (concat (received rounds)) (commands d, pending d)
     \<and> concat chunks = concat (commands d')"
proof -
  have "writes_succeed (aesd_ops K) (received rounds) f d"
    if "dev_open (aesd_ops K) d = Some (Some f, d)" for f
    using assms(6) that by (simp add: opened_file sample_file_def)
  with dev.process_message [OF assms(1-5)] show ?thesis by blast
qed

theorem client_message_stored_and_echoed_witness:
  "\<exists>chunks d'. processClientConnection (aesd_ops arena_kernel) (sample_rounds [[97], [98, 10]]) fresh_driver
       = Some \<lparr>sent = chunks, end_status = 0, leaked_nodes = [], isDone = True, dev_end = d'\<rparr>
     \<and> commands d' = [[97, 98, 10]] \<and> concat chunks = [97, 98, 10]"
proof -
  have "writes_succeed (aesd_ops arena_kernel) [[97], [98, 10]]
      \<lparr>private_data = AesdDevice, f_pos = 0\<rparr> fresh_driver"
    by (simp add: fresh_driver_def zero_dev_def write_eval aesd_ops_def user_ret_def)
  then show ?thesis
    using client_message_stored_and_echoed [OF fresh_good [OF arena_kernel_ok],
        of "sample_rounds [[97], [98, 10]]"]
    by (fastforce simp: sample_rounds_def rounds_ok_def line_of_def seek_line_def
        AESDCHAR_IOCSEEKTO_CMD_def fresh_driver_inv spec_write_def)
qed

text \<open>C20: a client that sends the seek command for command \<open>x\<close> and offset \<open>y\<close> is sent back the
  device's data from that position on, all of it when the driver rejects the seek; the device
  does not change, and the buffers received are left allocated when the thread ends.\<close>

theorem client_seek_reply:
  fixes x y :: uint32_t
  assumes "dev_sound K d" and "rounds_ok rounds"
    and "concat (received rounds) = seek_message (unat x) (unat y) @ rest"
  shows "\<exists>chunks. processClientConnection (aesd_ops K) rounds d
       = Some \<lparr>sent = chunks, end_status = 0, leaked_nodes = received rounds, isDone = True, dev_end = d\<rparr>
     \<and> concat chunks = (case seek_spec (commands d) (unat x) (unat y) of
           None \<Rightarrow> concat (commands d) | Some p \<Rightarrow> drop p (concat (commands d)))"
proof -
  have m: "unat z mod 2 ^ 32 = unat z" for z :: uint32_t
    using unsigned_less [of z, where 'a = nat] by simp
  have "seek_line (line_of (concat (received rounds))) = Some (unat x, unat y)"
    unfolding assms(3) by (rule seek_line_message)
  moreover have "drop (seek_pos (commands d) (unat x, unat y)) (concat (commands d))
      = (case seek_spec (commands d) (unat x) (unat y) of
           None \<Rightarrow> concat (commands d) | Some p \<Rightarrow> drop p (concat (commands d)))"
    by (simp only: seek_pos_def fst_conv snd_conv m) (simp split: option.split)
  ultimately show ?thesis using dev.process_seek [OF assms(1,2)] by metis
qed

theorem client_seek_reply_witness:
  "\<exists>chunks. processClientConnection (aesd_ops arena_kernel)
         (sample_rounds [[65, 69, 83, 68, 67], [72, 65, 82, 95, 73, 79, 67, 83, 69, 69, 75, 84, 79, 58, 57],
            [44, 49, 10]]) full_driver
       = Some \<lparr>sent = chunks, end_status = 0, leaked_nodes = [[65, 69, 83, 68, 67],
            [72, 65, 82, 95, 73, 79, 67, 83, 69, 69, 75, 84, 79, 58, 57], [44, 49, 10]],
            isDone = True, dev_end = full_driver\<rparr>
     \<and> concat chunks = [98, 10]"
proof -
  let ?r = "sample_rounds [[65, 69, 83, 68, 67], [72, 65, 82, 95, 73, 79, 67, 83, 69, 69, 75, 84, 79, 58, 57],
            [44, 49, 10]]"
  have r: "received ?r = [[65, 69, 83, 68, 67], [72, 65, 82, 95, 73, 79, 67, 83, 69, 69, 75, 84, 79, 58, 57],
            [44, 49, 10]]" by (simp add: sample_rounds_def)
  have "concat (received ?r) = seek_message (unat (9 :: uint32_t)) (unat (1 :: uint32_t)) @ []"
    unfolding r by (simp add: seek_message_def AESDCHAR_IOCSEEKTO_CMD_def decimal.simps)
  moreover have "dev_sound arena_kernel full_driver"
    using full_good [OF arena_kernel_ok] by (simp add: dev_good_def)
  moreover have "rounds_ok ?r" by (simp add: sample_rounds_def rounds_ok_def)
  moreover have "seek_spec (commands full_driver) (unat (9 :: uint32_t)) (unat (1 :: uint32_t)) = Some 28"
    unfolding full_driver_commands by (simp add: seek_spec_def cmd_start_def)
  moreover have "drop 28 (concat (commands full_driver)) = [98, 10]"
    unfolding full_driver_commands by simp
  ultimately show ?thesis
    using client_seek_reply [of arena_kernel full_driver ?r 9 1 "[]"] unfolding r by simp
qed

text \<open>C23: the thread of a client comes to an end exactly when its receive loop does: when every
  \<open>recv\<close> it waits for returns and every list node it needs can be allocated. Then, whatever
  was sent and whether or not writes fail, the read-back loop terminates (no other thread
  moving the device), the thread marks itself done and leaves the device sound and unlocked.\<close>

theorem client_thread_terminates:
  assumes "dev_sound K d" and "list_all (\<lambda>r. length (recvd r) \<le> 1024) rounds"
  shows "case processClientConnection (aesd_ops K) rounds d of
      None \<Rightarrow> \<not> recv_ends rounds
    | Some r \<Rightarrow> recv_ends rounds \<and> isDone r \<and> drv_inv (dev_end r) \<and> \<not> lock (device (dev_end r))"
proof (cases "recv_loop rounds []")
  case None
  then show ?thesis using recv_loop_None_iff [of rounds "[]"] by (simp add: processClientConnection_def)
next
  case (Some nodes)
  with dev.process_total [OF assms(1) Some assms(2)] recv_loop_None_iff [of rounds "[]"] show ?thesis
    by (auto simp: dev_sound_def)
qed

theorem client_thread_terminates_witness:
  "\<exists>r. processClientConnection (aesd_ops stingy_kernel) (sample_rounds [[1, 2], [3, 10, 4]]) full_driver
     = Some r \<and> isDone r \<and> drv_inv (dev_end r) \<and> \<not> lock (device (dev_end r))"
proof -
  have "dev_sound stingy_kernel full_driver" "recv_ends (sample_rounds [[1, 2], [3, 10, 4]])"
    using full_good [OF stingy_kernel_ok] by (simp_all add: dev_good_def sample_rounds_def)
  with client_thread_terminates [of stingy_kernel full_driver "sample_rounds [[1, 2], [3, 10, 4]]"]
  show ?thesis by (auto simp: sample_rounds_def split: option.splits)
qed

lemma failing_write_loop:
  assumes "\<And>node. node \<in> set nodes \<Longrightarrow> dev_write ops node f d = Some (- 1, f, d)"
    and "\<And>node. node \<in> set nodes \<Longrightarrow> length node < 2 ^ 63"
  shows "write_loop ops nodes f d = Some (0, f, d)"
  using assms
proof (induction nodes)
  case (Cons node nodes)
  have "\<not> - 1 < (of_nat (length node) :: size_t)"
    using Cons.prems(2) [of node] by (simp add: word_less_nat_alt)
  with Cons show ?case by simp
qed simp

text \<open>C29: when the device has no memory for a client's message, every \<open>write\<close> returns \<open>-1\<close>, which
  is not noticed: nothing is logged, the thread ends with status 0 as after a success, and the
  client is sent the old contents.\<close>

theorem failed_writes_go_unnoticed:
  assumes "dev_good K d" and "rounds_ok rounds" and "list_all (\<lambda>r. length (recvd r) \<le> 1024) rounds"
    and "received rounds \<noteq> []" and "seek_line (line_of (concat (received rounds))) = None"
    and "\<And>n. 0 < n \<Longrightarrow> kmalloc K (heap d) n = (NULL, heap d)"
  shows "\<exists>chunks. processClientConnection (aesd_ops K) rounds d
       = Some \<lparr>sent = chunks, end_status = 0, leaked_nodes = [], isDone = True, dev_end = d\<rparr>
     \<and> concat chunks = concat (commands d)"
proof -
  let ?nodes = "received rounds"
  have so: "dev_sound K d" using assms(1) by (simp add: dev_good_def)
  have len: "length node \<le> 1024" if "node \<in> set ?nodes" for node
    using received_bound [OF assms(3) that] .
  have "dev_write (aesd_ops K) node sample_file d = Some (- 1, sample_file, d)"
    if node: "node \<in> set ?nodes" for node
  proof -
    have "0 < unat (of_nat (length node) :: size_t)"
      using len [OF node] received_nonempty [OF node] by simp
    then have "kmalloc K (heap d) (of_nat (length node)) = (NULL, heap d)"
      by (intro assms(6)) (simp add: word_less_nat_alt)
    then show ?thesis by (simp add: aesd_ops_def aesd_write_def)
  qed
  then have w: "write_loop (aesd_ops K) ?nodes sample_file d = Some (0, sample_file, d)"
    by (intro failing_write_loop) (use len in fastforce)+
  have fc: "findCommand ?nodes (Some AESDCHAR_IOCSEEKTO_CMD) = Some None"
    using findCommand_seek_line [OF received_newline_last] assms(5) by simp
  have u: "file_usable sample_file" "file_pos sample_file = 0"
    by (simp_all add: file_usable_def file_pos_def)
  from dev.reply_all [OF so u(1)] u(2) w fc recv_loop_received [OF assms(2), of "[]"] assms(4)
  show ?thesis
    by (auto simp: processClientConnection_def critical_section_def opened_file [THEN iffD2])
qed

theorem failed_writes_go_unnoticed_witness:
  "\<exists>chunks. processClientConnection (aesd_ops empty_kernel) (sample_rounds [[97, 10]]) full_driver
       = Some \<lparr>sent = chunks, end_status = 0, leaked_nodes = [], isDone = True, dev_end = full_driver\<rparr>
     \<and> concat chunks = concat (commands full_driver)"
  by (rule failed_writes_go_unnoticed [OF full_good [OF empty_kernel_ok]])
     (auto simp: sample_rounds_def rounds_ok_def line_of_def seek_line_def AESDCHAR_IOCSEEKTO_CMD_def
        empty_kernel_def)

text \<open>The second \<open>malloc\<close> of a receive round is not checked: when it fails, the thread writes
  through a null pointer.\<close>

theorem unchecked_node_malloc:
  assumes "list_all (\<lambda>r. recv_returns r \<and> recvd r \<noteq> [] \<and> NL \<notin> set (recvd r) \<and> temp_alloc r \<and> node_alloc r) before"
    and "recv_returns r" and "recvd r \<noteq> []" and "temp_alloc r" and "\<not> node_alloc r"
  shows "processClientConnection ops (before @ r # after) d = None"
proof -
  have "recv_loop (before @ r # after) nodes = None" for nodes
    using assms by (induction before arbitrary: nodes) auto
  then show ?thesis by (simp add: processClientConnection_def)
qed

theorem unchecked_node_malloc_witness:
  "processClientConnection (aesd_ops arena_kernel)
     (sample_rounds [[97]] @ \<lparr>recv_returns = True, recvd = [98, 10], temp_alloc = True, node_alloc = False\<rparr> # []) full_driver = None"
  by (rule unchecked_node_malloc) (simp_all add: sample_rounds_def)

section \<open>Any number of clients\<close>

text \<open>C27: whatever the interleaving of the client threads, at most one of them is between the lock
  and the unlock of \<open>file_mutex\<close>.\<close>

theorem file_mutex_excludes:
  assumes "server_reach ops msgs (server_start C d) s"
    and "in_section (phase s a)" and "in_section (phase s b)"
  shows "a = b"
  using reach_exclusive [OF assms(1)] assms(2,3) by (auto simp: exclusive_def)

text \<open>One thread with one buffer: a run of the whole system, step by step.\<close>

definition one_msg :: "nat \<Rightarrow> byte list list" where
  "one_msg c = (if c = 0 then [[97, 10]] else [])"

lemma one_msg_0 [simp]: "one_msg 0 = [[97, 10]]"
  by (simp add: one_msg_def)

lemma one_msg_lengths:
  "\<forall>c. newline_last (one_msg c) \<and> list_all (\<lambda>node. length node < 2 ^ 31) (one_msg c)"
  by (simp add: one_msg_def newline_last_def)

lemma one_msg_command: "findCommand (one_msg c) (Some AESDCHAR_IOCSEEKTO_CMD) = Some None"
  using findCommand_seek_line [of "one_msg c"]
  by (auto simp: one_msg_def newline_last_def line_of_def seek_line_def AESDCHAR_IOCSEEKTO_CMD_def)

lemma one_write: "\<exists>d'. dev_write (aesd_ops arena_kernel) [97, 10] sample_file fresh_driver
    = Some (2, sample_file, d')"
  by (simp add: fresh_driver_def zero_dev_def write_eval aesd_ops_def user_ret_def sample_file_def)

lemma one_run:
  "\<exists>s. server_reach (aesd_ops arena_kernel) one_msg (server_start {0} fresh_driver) s
     \<and> holder s = None \<and> all_stored s \<and> order s = [0] \<and> phase s 0 = Replying (Some sample_file)"
proof -
  let ?ops = "aesd_ops arena_kernel"
  let ?s0 = "server_start {0} fresh_driver :: (driver, kfile) server"
  obtain d' where d': "dev_write ?ops [97, 10] sample_file fresh_driver = Some (2, sample_file, d')"
    using one_write by blast
  define s1 where "s1 = set_phase 0 (Deciding (Some sample_file)) ?s0
    \<lparr>holder := Some 0, sdev := fresh_driver, order := order ?s0 @ [0]\<rparr>"
  define s2 where "s2 = set_phase 0 (Writing [[97, 10]] (Some sample_file)) s1"
  define s3 where "s3 = set_phase 0 (Writing [] (Some sample_file)) s2\<lparr>sdev := d',
    written := written s2 @ [[97, 10]], all_stored := (all_stored s2 \<and> 2 = (of_nat (length [97 :: byte, 10]) :: ssize_t))\<rparr>"
  define s4 where "s4 = set_phase 0 (Leaving (Some sample_file)) s3"
  define s5 where "s5 = set_phase 0 (Replying (Some sample_file)) s4\<lparr>holder := None\<rparr>"
  have "server_step ?ops one_msg ?s0 s1"
    unfolding s1_def by (rule server_step.enter) (simp_all add: server_start_def opened_file)
  moreover have "server_step ?ops one_msg s1 s2"
    unfolding s2_def using server_step.no_seek [where msgs = one_msg and c = 0 and s = s1]
      one_msg_command [of 0] by (simp add: s1_def)
  moreover have "server_step ?ops one_msg s2 s3"
    unfolding s3_def by (rule server_step.write_node) (use d' in \<open>simp_all add: s2_def s1_def\<close>)
  moreover have "server_step ?ops one_msg s3 s4"
    unfolding s4_def by (rule server_step.write_end [where nodes = "[]"]) (simp_all add: s3_def)
  moreover have "server_step ?ops one_msg s4 s5"
    unfolding s5_def by (rule server_step.leave) (simp add: s4_def)
  ultimately have "server_reach ?ops one_msg ?s0 s5"
    by (meson server_reach.intros)
  then show ?thesis
    by (intro exI [of _ s5]) (simp add: s5_def s4_def s3_def s2_def s1_def server_start_def)
qed

theorem file_mutex_excludes_witness:
  "\<exists>s. server_reach (aesd_ops arena_kernel) one_msg (server_start {0} fresh_driver) s \<and> in_section (phase s 0)
     \<and> (\<forall>b. in_section (phase s b) \<longrightarrow> 0 = b)"
proof -
  let ?s1 = "set_phase 0 (Deciding (Some sample_file)) (server_start {0} fresh_driver)
    \<lparr>holder := Some 0, sdev := fresh_driver, order := order (server_start {0} fresh_driver :: (driver, kfile) server) @ [0]\<rparr>"
  have "server_step (aesd_ops arena_kernel) one_msg (server_start {0} fresh_driver) ?s1"
    by (rule server_step.enter) (simp_all add: server_start_def opened_file)
  then have r: "server_reach (aesd_ops arena_kernel) one_msg (server_start {0} fresh_driver) ?s1"
    by (meson server_reach.intros)
  moreover have "in_section (phase ?s1 0)" by simp
  ultimately show ?thesis using file_mutex_excludes [OF r] by blast
qed

text \<open>C21: the commands of the clients are never mixed: whenever the lock is free and no write has
  failed, the device holds what the clients' whole messages, each written at once, in the
  order in which the clients took the lock, leave there.\<close>

theorem messages_in_lock_order:
  assumes "dev_good K d0"
    and "\<forall>c. newline_last (msgs c) \<and> list_all (\<lambda>node. length node < 2 ^ 31) (msgs c)"
    and "server_reach (aesd_ops K) msgs (server_start C d0) s" and "holder s = None" and "all_stored s"
  shows "(commands (sdev s), pending (sdev s))
     = fold (\<lambda>c. spec_write (concat (to_write msgs c))) (order s) (commands d0, pending d0)"
proof -
  have len: "\<And>c node. node \<in> set (msgs c) \<Longrightarrow> length node < 2 ^ 31"
    using assms(2) by (auto simp: list_all_iff)
  have inv: "dev.run_inv K msgs d0 s" by (rule dev.reach_run_inv [OF assms(1) len assms(3)])
  then have w: "written s = concat (map (to_write msgs) (order s))"
    using assms(4) by (simp add: dev.run_inv_def in_order_def)
  have nl: "newline_last (to_write msgs c)" for c
    using assms(2) by (simp add: to_write_def newline_last_def)
  have "spec_writes (concat (map (to_write msgs) cs)) x
      = fold (\<lambda>c. spec_write (concat (to_write msgs c))) cs x" for cs x
  proof (induction cs arbitrary: x)
    case (Cons c cs)
    then show ?case using spec_writes_concat [OF nl] by (simp add: spec_writes_def)
  qed (simp add: spec_writes_def)
  with w inv assms(5) show ?thesis by (simp add: dev.run_inv_def)
qed

theorem messages_in_lock_order_witness:
  "\<exists>s. server_reach (aesd_ops arena_kernel) one_msg (server_start {0} fresh_driver) s \<and> order s = [0]
     \<and> commands (sdev s) = [[97, 10]]"
proof -
  obtain s where s: "server_reach (aesd_ops arena_kernel) one_msg (server_start {0} fresh_driver) s"
    "holder s = None" "all_stored s" "order s = [0]" using one_run by blast
  from messages_in_lock_order [OF fresh_good [OF arena_kernel_ok] one_msg_lengths s(1-3)] s
  show ?thesis
    using one_msg_command [of 0] by (auto simp: to_write_def spec_write_def fresh_driver_inv)
qed

text \<open>C22: any finite number of clients is served to the end: no run of their threads goes on for
  ever (the replies do not chase a growing device), whatever has happened (failed writes
  included), and a run comes to a stop only when the thread of every client has finished.\<close>

theorem server_runs_finish:
  assumes "dev_good K d0" and "finite C"
    and "\<forall>c. newline_last (msgs c) \<and> list_all (\<lambda>node. length node < 2 ^ 31) (msgs c)"
  shows "\<not> (\<exists>run. run 0 = server_start C d0 \<and> (\<forall>i. server_step (aesd_ops K) msgs (run i) (run (Suc i))))
     \<and> (\<forall>s. server_reach (aesd_ops K) msgs (server_start C d0) s \<and> (\<nexists>t. server_step (aesd_ops K) msgs s t) \<longrightarrow>
          (\<forall>c\<in>C. phase s c = Finished))"
proof -
  have len: "\<And>c node. node \<in> set (msgs c) \<Longrightarrow> length node < 2 ^ 31"
    using assms(3) by (auto simp: list_all_iff)
  have nl: "\<And>c. newline_last (msgs c)" using assms(3) by simp
  have "False" if "run 0 = server_start C d0" "\<forall>i. server_step (aesd_ops K) msgs (run i) (run (Suc i))" for run
    by (rule dev.no_infinite_run [OF assms(1) len assms(2), where f = run]) (use that in auto)
  moreover have "phase s c = Finished"
    if "server_reach (aesd_ops K) msgs (server_start C d0) s" "\<nexists>t. server_step (aesd_ops K) msgs s t" "c \<in> C" for s c
    by (rule dev.stuck_finished [OF assms(1) len nl that(1)]) (use that in auto)
  ultimately show ?thesis by blast
qed

theorem server_runs_finish_witness:
  "\<not> (\<exists>run. run 0 = server_start {0} fresh_driver
        \<and> (\<forall>i. server_step (aesd_ops arena_kernel) one_msg (run i) (run (Suc i))))
   \<and> (\<exists>s t. server_reach (aesd_ops arena_kernel) one_msg (server_start {0} fresh_driver) s
        \<and> order s = [0] \<and> server_step (aesd_ops arena_kernel) one_msg s t)"
proof -
  obtain s where s: "server_reach (aesd_ops arena_kernel) one_msg (server_start {0} fresh_driver) s"
    "order s = [0]" "phase s 0 = Replying (Some sample_file)" using one_run by blast
  from server_runs_finish [OF fresh_good [OF arena_kernel_ok] _ one_msg_lengths, of "{0}"] s show ?thesis
    by force
qed

text \<open>C28: the reply is read outside the lock at a byte offset: when another client's command
  displaces the oldest one meanwhile, the rest of the reply skips as many bytes as that
  command had.\<close>

theorem reply_skips_bytes:
  assumes "dev_good K d" and "length data < 2 ^ 31" and "NL \<in> set data" and "length (commands d) = 10"
    and "dev_write (aesd_ops K) data \<lparr>private_data = AesdDevice, f_pos = gpos\<rparr> d
           = Some (of_nat (length data), \<lparr>private_data = AesdDevice, f_pos = gpos\<rparr>, d')"
    and "unat fpos + length (hd (commands d)) \<le> length (concat (commands d))"
  shows "\<exists>chunks f'. read_back (aesd_ops K) \<lparr>private_data = AesdDevice, f_pos = fpos\<rparr> d' = Some (chunks, f', d')
     \<and> concat chunks = drop (unat fpos + length (hd (commands d))) (concat (commands d)) @ pending d @ data"
  using dev.displaced_read [OF assms(1) _ _ assms(2,5,4,3), of "\<lparr>private_data = AesdDevice, f_pos = fpos\<rparr>"]
    assms(6) by (simp add: file_usable_def file_pos_def)

text \<open>A write to the full example driver succeeds.\<close>

lemma write_not_enomem:
  assumes "fst (kmalloc K (heap d) count) \<noteq> NULL" and "count \<noteq> - ENOMEM"
    and "\<And>h. fst (krealloc K h (buffptr (new_entry (device d))) (esize (new_entry (device d)) + count)) \<noteq> NULL"
  shows "aesd_write K cs (Some fl) (Some data) count (Some pos) d \<noteq> Some (Returns (- ENOMEM), d')"
proof -
  have "append_pending K kbuf count (mutex_locked (d\<lparr>heap := h\<rparr>)) \<noteq> Some (False, x)" for h x kbuf
    using assms(3) [of h] by (auto simp: append_pending_def do_krealloc_def Let_def mutex_locked_def
        upd_dev_def split: if_splits Option.bind_splits prod.splits)
  with assms(1,2) show ?thesis
    by (auto simp: aesd_write_def Let_def errno_defs split: if_splits Option.bind_splits prod.splits)
qed

lemma full_driver_write: "\<exists>d'. dev_write (aesd_ops arena_kernel) [122, 10]
    \<lparr>private_data = AesdDevice, f_pos = 0\<rparr> full_driver
    = Some (of_nat (length [122 :: byte, 10]), \<lparr>private_data = AesdDevice, f_pos = 0\<rparr>, d')"
proof -
  let ?f = "\<lparr>private_data = AesdDevice, f_pos = 0\<rparr>"
  have "fst (kmalloc arena_kernel (heap full_driver) 2) \<noteq> NULL"
    by (simp add: arena_kernel_def arena_alloc_def KMALLOC_MAX_def arena_eq full_driver_def)
  moreover have "fst (krealloc arena_kernel h (buffptr (new_entry (device full_driver)))
      (esize (new_entry (device full_driver)) + 2)) \<noteq> NULL" for h
    by (simp add: arena_kernel_def full_driver_def KMALLOC_MAX_def no_block_def)
  ultimately have n: "aesd_write arena_kernel 0 (Some ?f) (Some [122, 10]) 2 (Some 0) full_driver
      \<noteq> Some (Returns (- ENOMEM), d')" for d'
    by (intro write_not_enomem) (simp_all add: ENOMEM_def)
  have "\<exists>d'. aesd_write arena_kernel 0 (Some ?f) (Some [122, 10]) 2 (Some 0) full_driver
      = Some (Returns 2, d')"
  proof (rule aesd_write_cases [OF arena_kernel_ok full_driver_inv, of ?f "[122, 10]" 2 0 0])
  qed (use n in \<open>simp_all (no_asm_use)\<close>, blast+)
  then show ?thesis by (auto simp: aesd_ops_def user_ret_def)
qed

theorem reply_skips_bytes_witness:
  "\<exists>d' chunks f'. dev_write (aesd_ops arena_kernel) [122, 10] \<lparr>private_data = AesdDevice, f_pos = 0\<rparr> full_driver
       = Some (2, \<lparr>private_data = AesdDevice, f_pos = 0\<rparr>, d')
     \<and> read_back (aesd_ops arena_kernel) \<lparr>private_data = AesdDevice, f_pos = 24\<rparr> d' = Some (chunks, f', d')
     \<and> concat chunks = [97, 98, 10] @ [121, 122, 10]"
proof -
  obtain d' where w: "dev_write (aesd_ops arena_kernel) [122, 10] \<lparr>private_data = AesdDevice, f_pos = 0\<rparr> full_driver
    = Some (of_nat (length [122 :: byte, 10]), \<lparr>private_data = AesdDevice, f_pos = 0\<rparr>, d')"
    using full_driver_write by blast
  from reply_skips_bytes [OF full_good [OF arena_kernel_ok] _ _ _ w, of 24] w
  show ?thesis by (simp add: full_driver_commands)
qed

end
