(* ===== verification/Server_Serial.thy ===== *)
theory Server_Serial
  imports Server_Properties
begin

text \<open>
  The two models of a client's thread agree: the function \<open>processClientConnection\<close> is the
  run of the step relation in which one thread takes all its steps, and serving clients one
  after the other with the function is a run of all of them. Any device will do: nothing here
  needs its contract.
\<close>

section \<open>Runs of one thread\<close>

text \<open>\<open>solo c s t\<close>: a run in which only thread \<open>c\<close> has moved.\<close>

definition solo :: "('d, 'f) dev_ops \<Rightarrow> (nat \<Rightarrow> byte list list) \<Rightarrow> nat \<Rightarrow>
    ('d, 'f) server \<Rightarrow> ('d, 'f) server \<Rightarrow> bool" where
  "solo ops msgs c s t \<longleftrightarrow> server_reach ops msgs s t
     \<and> (\<forall>b. b \<noteq> c \<longrightarrow> phase t b = phase s b \<and> replies t b = replies s b)"

lemma reach_trans [trans]:
  assumes "server_reach ops msgs s t" and "server_reach ops msgs t u"
  shows "server_reach ops msgs s u"
  using assms(2,1) by (induction rule: server_reach.induct) (auto intro: server_reach.run)

lemma solo_refl: "solo ops msgs c s s"
  by (simp add: solo_def server_reach.start)

lemma solo_trans [trans]: "solo ops msgs c s t \<Longrightarrow> solo ops msgs c t u \<Longrightarrow> solo ops msgs c s u"
  using reach_trans [of ops msgs s t u] by (simp add: solo_def)

lemma solo_step:
  assumes "server_step ops msgs s t" and "\<And>b. b \<noteq> c \<Longrightarrow> phase t b = phase s b \<and> replies t b = replies s b"
  shows "solo ops msgs c s t"
  unfolding solo_def using server_reach.run [OF server_reach.start assms(1)] assms(2) by blast

lemma solo_writes:
  "write_loop ops nodes f d = Some (n, f', d') \<Longrightarrow> phase s c = Writing nodes (Some f) \<Longrightarrow> sdev s = d \<Longrightarrow>
     \<exists>t. solo ops msgs c s t \<and> phase t c = Writing [] (Some f') \<and> sdev t = d'
       \<and> holder t = holder s \<and> replies t c = replies s c"
proof (induction nodes arbitrary: f d n s)
  case Nil
  then show ?case using solo_refl [of ops msgs c s] by auto
next
  case (Cons node nodes)
  from Cons.prems(1) obtain r f1 d1 m where w: "dev_write ops node f d = Some (r, f1, d1)"
    "write_loop ops nodes f1 d1 = Some (m, f', d')"
    by (auto split: Option.bind_splits simp: bind_eq_Some_conv)
  let ?s1 = "set_phase c (Writing nodes (Some f1)) s\<lparr>sdev := d1,
       written := written s @ [node], all_stored := (all_stored s \<and> r = of_nat (length node))\<rparr>"
  have st: "server_step ops msgs s ?s1"
    by (rule server_step.write_node [where f = f]) (use Cons.prems w in simp_all)
  have "solo ops msgs c s ?s1" by (rule solo_step [OF st]) simp
  moreover obtain t where "solo ops msgs c ?s1 t" "phase t c = Writing [] (Some f')" "sdev t = d'"
    "holder t = holder s" "replies t c = replies s c"
    using Cons.IH [OF w(2), of ?s1] by auto
  ultimately show ?case using solo_trans by metis
qed

text \<open>The read-back loop, by the induction rule of the partial function.\<close>

definition can_reply :: "(nat \<Rightarrow> byte list list) \<Rightarrow> nat \<Rightarrow> ('d, 'f) dev_ops \<Rightarrow> 'f \<Rightarrow> 'd \<Rightarrow>
    byte list list \<times> 'f \<times> 'd \<Rightarrow> bool" where
  "can_reply msgs c ops f d y \<longleftrightarrow> (case y of (chunks, f', d') \<Rightarrow>
     \<forall>s. phase s c = Replying (Some f) \<longrightarrow> sdev s = d \<longrightarrow>
       (\<exists>t. solo ops msgs c s t \<and> phase t c = Finished \<and> sdev t = dev_close ops f' d'
         \<and> holder t = holder s \<and> replies t c = replies s c @ chunks))"

lemma can_reply_step:
  assumes rd: "dev_read ops BUFFER_SIZE f d = Some (r, buf, f1, d1)" and pos: "0 < sint r"
    and rest: "can_reply msgs c ops f1 d1 (chunks, f', d')"
  shows "can_reply msgs c ops f d (take (unat r) buf # chunks, f', d')"
  unfolding can_reply_def
proof (clarsimp)
  fix s :: "('b, 'a) server"
  assume s: "phase s c = Replying (Some f)" "d = sdev s"
  let ?s1 = "set_phase c (Replying (Some f1)) s\<lparr>sdev := d1,
       replies := (replies s)(c := replies s c @ [take (unat r) buf])\<rparr>"
  have "server_step ops msgs s ?s1"
    by (rule server_step.read [where f = f]) (use s rd pos in simp_all)
  then have "solo ops msgs c s ?s1" by (rule solo_step) simp
  moreover obtain t where "solo ops msgs c ?s1 t" "phase t c = Finished" "sdev t = dev_close ops f' d'"
    "holder t = holder s" "replies t c = replies s c @ take (unat r) buf # chunks"
    using rest by (auto simp: can_reply_def dest: spec [of _ ?s1])
  ultimately show "\<exists>t. solo ops msgs c s t \<and> phase t c = Finished \<and> sdev t = dev_close ops f' d'
      \<and> holder t = holder s \<and> replies t c = replies s c @ take (unat r) buf # chunks"
    using solo_trans by metis
qed

lemma can_reply_end:
  assumes rd: "dev_read ops BUFFER_SIZE f d = Some (r, buf, f1, d1)" and nopos: "sint r \<le> 0"
  shows "can_reply msgs c ops f d ([], f1, d1)"
  unfolding can_reply_def
proof (clarsimp)
  fix s :: "('b, 'a) server"
  assume s: "phase s c = Replying (Some f)" "d = sdev s"
  let ?t = "set_phase c Finished s\<lparr>sdev := dev_close ops f1 d1\<rparr>"
  have "server_step ops msgs s ?t"
    by (rule server_step.finish [where f = f]) (use s rd nopos in simp_all)
  then have "solo ops msgs c s ?t" by (rule solo_step) simp
  then show "\<exists>t. solo ops msgs c s t \<and> phase t c = Finished \<and> sdev t = dev_close ops f1 d1
      \<and> holder t = holder s \<and> replies t c = replies s c"
    by (intro exI [of _ ?t]) simp
qed

lemma read_back_can_reply: "read_back ops f d = Some y \<Longrightarrow> can_reply msgs c ops f d y"
proof (erule read_back.raw_induct [where P = "can_reply msgs c", rotated])
  fix rb ops f d y
  assume IH: "\<And>ops f d y. rb ops f d = Some y \<Longrightarrow> can_reply msgs c ops f d y"
    and body: "do { (bytes_read, buf, f1, d1) \<leftarrow> dev_read ops BUFFER_SIZE f d;
          if sint bytes_read \<le> 0 then Some ([], f1, d1)
          else do { (chunks, f2, d2) \<leftarrow> rb ops f1 d1;
                    Some (take (unat bytes_read) buf # chunks, f2, d2) } } = Some y"
  from body obtain r buf f1 d1 where rd: "dev_read ops BUFFER_SIZE f d = Some (r, buf, f1, d1)"
    by (auto simp: bind_eq_Some_conv)
  show "can_reply msgs c ops f d y"
  proof (cases "sint r \<le> 0")
    case True
    with body rd can_reply_end [OF rd True] show ?thesis by simp
  next
    case False
    with body rd obtain chunks f' d' where "rb ops f1 d1 = Some (chunks, f', d')"
      and y: "y = (take (unat r) buf # chunks, f', d')" by (auto simp: bind_eq_Some_conv)
    with can_reply_step [OF rd _ IH] False show ?thesis by simp
  qed
qed

section \<open>A whole thread\<close>

text \<open>Thread \<open>c\<close> alone can come from \<open>s\<close> to the given phase, device, lock and replies.\<close>

definition goes :: "('d, 'f) dev_ops \<Rightarrow> (nat \<Rightarrow> byte list list) \<Rightarrow> nat \<Rightarrow> ('d, 'f) server \<Rightarrow>
    'f phase \<Rightarrow> 'd \<Rightarrow> nat option \<Rightarrow> byte list list \<Rightarrow> bool" where
  "goes ops msgs c s ph d h rs \<longleftrightarrow>
     (\<exists>t. solo ops msgs c s t \<and> phase t c = ph \<and> sdev t = d \<and> holder t = h \<and> replies t c = rs)"

lemma goes_step:
  assumes "server_step ops msgs s t" and "\<And>b. b \<noteq> c \<Longrightarrow> phase t b = phase s b \<and> replies t b = replies s b"
    and "goes ops msgs c t ph d h rs"
  shows "goes ops msgs c s ph d h rs"
  using assms(3) solo_trans [OF solo_step [OF assms(1,2)]] unfolding goes_def by blast

lemma goes_solo: "solo ops msgs c s t \<Longrightarrow> goes ops msgs c t ph d h rs \<Longrightarrow> goes ops msgs c s ph d h rs"
  using solo_trans unfolding goes_def by blast

lemma goes_reply:
  assumes "phase s c = Leaving fd" and "reply ops fd (sdev s) = Some (chunks, d')"
  shows "goes ops msgs c s Finished d' None (replies s c @ chunks)"
proof (rule goes_step [OF server_step.leave [OF assms(1)]])
  let ?s1 = "set_phase c (Replying fd) s\<lparr>holder := None\<rparr>"
  show "goes ops msgs c ?s1 Finished d' None (replies s c @ chunks)"
  proof (cases fd)
    case None
    show ?thesis
      by (rule goes_step [OF server_step.finish_no_file [of _ c]])
         (use assms None in \<open>auto simp: reply_def goes_def intro!: exI [of _ "set_phase c Finished ?s1"] solo_refl\<close>)
  next
    case (Some f)
    with assms(2) obtain f' d1 where "read_back ops f (sdev s) = Some (chunks, f', d1)"
      and d': "d' = dev_close ops f' d1" by (auto simp: reply_def bind_eq_Some_conv)
    from read_back_can_reply [OF this(1), of msgs c, unfolded can_reply_def, simplified, rule_format, of ?s1]
    show ?thesis using Some d' by (auto simp: goes_def)
  qed
qed simp

lemma goes_decide:
  assumes ph: "phase s c = Deciding fd"
    and cs: "findCommand (msgs c) (Some AESDCHAR_IOCSEEKTO_CMD) = Some found"
    and act: "case fd of None \<Rightarrow> fd' = None \<and> d' = sdev s
       | Some f \<Rightarrow> (case found of
            Some sk \<Rightarrow> \<exists>r f'. dev_ioctl ops sk f (sdev s) = Some (r, f', d') \<and> fd' = Some f'
          | None \<Rightarrow> \<exists>n f'. write_loop ops (msgs c) f (sdev s) = Some (n, f', d') \<and> fd' = Some f')"
    and rp: "reply ops fd' d' = Some (chunks, d'')"
  shows "goes ops msgs c s Finished d'' None (replies s c @ chunks)"
proof (cases found)
  case None
  let ?s1 = "set_phase c (Writing (msgs c) fd) s"
  have "goes ops msgs c ?s1 Finished d'' None (replies s c @ chunks)"
  proof (cases fd)
    case None
    have st: "server_step ops msgs ?s1 (set_phase c (Leaving None) ?s1)"
      by (rule server_step.write_end) (simp_all add: None)
    show ?thesis
      by (rule goes_step [OF st]) (use goes_reply [of "set_phase c (Leaving None) ?s1" c None] act rp None in auto)
  next
    case (Some f)
    with act \<open>found = None\<close> obtain n f' where w: "write_loop ops (msgs c) f (sdev s) = Some (n, f', d')"
      "fd' = Some f'" by auto
    with Some obtain t where t: "solo ops msgs c ?s1 t" "phase t c = Writing [] (Some f')" "sdev t = d'"
      "replies t c = replies s c" using solo_writes [OF w(1), of ?s1 c msgs] by auto
    have st: "server_step ops msgs t (set_phase c (Leaving (Some f')) t)"
      by (rule server_step.write_end [where nodes = "[]"]) (simp_all add: t)
    have "goes ops msgs c t Finished d'' None (replies s c @ chunks)"
      by (rule goes_step [OF st])
         (use goes_reply [of "set_phase c (Leaving (Some f')) t" c "Some f'"] rp t w(2) in auto)
    then show ?thesis by (rule goes_solo [OF t(1)])
  qed
  then show ?thesis by (rule goes_step [OF server_step.no_seek [OF ph], rotated 2]) (use cs None in auto)
next
  case (Some sk)
  show ?thesis
  proof (cases fd)
    case None
    show ?thesis
      by (rule goes_step [OF server_step.seek_no_file [of s c msgs sk]])
         (use goes_reply [of "set_phase c (Leaving None) s" c None] act rp None Some ph cs in auto)
  next
    case (Some f)
    with act \<open>found = Some sk\<close> obtain r f' where i: "dev_ioctl ops sk f (sdev s) = Some (r, f', d')"
      "fd' = Some f'" by auto
    show ?thesis
      by (rule goes_step [OF server_step.seek [of s c f msgs sk ops r f' d']])
         (use goes_reply [of "set_phase c (Leaving (Some f')) s\<lparr>sdev := d'\<rparr>" c "Some f'"] rp Some
            \<open>found = Some sk\<close> ph cs i in auto)
  qed
qed

lemma goes_client:
  assumes run: "processClientConnection ops rounds (sdev s) = Some r"
    and msgs: "recv_loop rounds [] = Some (msgs c)"
    and s: "phase s c = Waiting" "holder s = None"
  shows "goes ops msgs c s Finished (dev_end r) None (replies s c @ sent r)"
proof -
  obtain cr where cr: "critical_section ops (msgs c) (sdev s) = Some cr"
    and rp: "reply ops (file_fd cr) (dev_after cr) = Some (sent r, dev_end r)"
    using run msgs by (auto simp: processClientConnection_def bind_eq_Some_conv)
  from cr obtain fd d1 found where
    op: "(if msgs c \<noteq> [] then dev_open ops (sdev s) else Some (None, sdev s)) = Some (fd, d1)"
    and found: "findCommand (msgs c) (Some AESDCHAR_IOCSEEKTO_CMD) = Some found"
    by (auto simp: critical_section_def bind_eq_Some_conv Let_def split: if_splits)
  let ?s1 = "set_phase c (Deciding fd) s\<lparr>holder := Some c, sdev := d1, order := order s @ [c]\<rparr>"
  have act: "case fd of None \<Rightarrow> file_fd cr = None \<and> dev_after cr = sdev ?s1
       | Some f \<Rightarrow> (case found of
            Some sk \<Rightarrow> \<exists>r f'. dev_ioctl ops sk f (sdev ?s1) = Some (r, f', dev_after cr) \<and> file_fd cr = Some f'
          | None \<Rightarrow> \<exists>n f'. write_loop ops (msgs c) f (sdev ?s1) = Some (n, f', dev_after cr) \<and> file_fd cr = Some f')"
    using cr op found
    by (cases fd; cases found) (auto simp: critical_section_def bind_eq_Some_conv Let_def split: if_splits)
  have g: "goes ops msgs c ?s1 Finished (dev_end r) None (replies s c @ sent r)"
    using goes_decide [where s = ?s1 and c = c and msgs = msgs and fd = fd, OF _ found act rp] by simp
  have "server_step ops msgs s ?s1"
    by (rule server_step.enter [where s = s and c = c and msgs = msgs, OF s op])
  then show ?thesis by (rule goes_step [OF _ _ g]) simp
qed

section \<open>Clients one after the other\<close>

text \<open>The clients \<open>cs\<close> served in turn; \<open>rounds c\<close> is what \<open>recv\<close> gives the thread of \<open>c\<close>.\<close>

fun serve_all :: "('d, 'f) dev_ops \<Rightarrow> (nat \<Rightarrow> recv_round list) \<Rightarrow> nat list \<Rightarrow> 'd \<Rightarrow>
    ((nat \<times> byte list list) list \<times> 'd) option" where
  "serve_all ops rounds [] d = Some ([], d)"
| "serve_all ops rounds (c # cs) d =
     do { r \<leftarrow> processClientConnection ops (rounds c) d;
          (rs, d') \<leftarrow> serve_all ops rounds cs (dev_end r);
          Some ((c, sent r) # rs, d') }"

lemma serve_all_reach:
  "serve_all ops rounds cs (sdev s) = Some (rs, d') \<Longrightarrow> (\<forall>c. recv_loop (rounds c) [] = Some (msgs c)) \<Longrightarrow>
   distinct cs \<Longrightarrow> \<forall>c \<in> set cs. phase s c = Waiting \<and> replies s c = [] \<Longrightarrow> holder s = None \<Longrightarrow>
   \<exists>t. server_reach ops msgs s t \<and> sdev t = d' \<and> holder t = None \<and> map fst rs = cs
     \<and> (\<forall>(c, out) \<in> set rs. phase t c = Finished \<and> replies t c = out)
     \<and> (\<forall>b. b \<notin> set cs \<longrightarrow> phase t b = phase s b \<and> replies t b = replies s b)"
proof (induction cs arbitrary: s rs)
  case Nil
  then show ?case using server_reach.start [of ops msgs s] by auto
next
  case (Cons c cs)
  from Cons.prems(1) obtain r rs' where r: "processClientConnection ops (rounds c) (sdev s) = Some r"
    and rest: "serve_all ops rounds cs (dev_end r) = Some (rs', d')" and rs: "rs = (c, sent r) # rs'"
    by (auto simp: bind_eq_Some_conv)
  have "goes ops msgs c s Finished (dev_end r) None (replies s c @ sent r)"
    by (rule goes_client [OF r]) (use Cons.prems in auto)
  then obtain u where u: "solo ops msgs c s u" "phase u c = Finished" "sdev u = dev_end r" "holder u = None"
    "replies u c = sent r" using Cons.prems(4) by (auto simp: goes_def)
  have "\<forall>b \<in> set cs. phase u b = Waiting \<and> replies u b = []"
    using u(1) Cons.prems(3,4) by (auto simp: solo_def)
  with Cons.IH [of u rs'] u rest Cons.prems(2,3) obtain t where t: "server_reach ops msgs u t"
    "sdev t = d'" "holder t = None" "map fst rs' = cs"
    "\<forall>(c, out) \<in> set rs'. phase t c = Finished \<and> replies t c = out"
    "\<forall>b. b \<notin> set cs \<longrightarrow> phase t b = phase u b \<and> replies t b = replies u b" by auto
  have "server_reach ops msgs s t" using u(1) reach_trans [OF _ t(1)] by (simp add: solo_def)
  moreover have "c \<notin> set cs" using Cons.prems(3) by simp
  ultimately show ?case
    using t u rs by (intro exI [of _ t]) (auto simp: solo_def)
qed

text \<open>C24: The two models of the client threads agree: whatever \<open>processClientConnection\<close> does
  to the device and sends when clients are served one after the other, in any order, is an
  execution of the interleaving model, for every device.\<close>
theorem serial_service_is_a_run:
  assumes "serve_all ops rounds cs d = Some (rs, d')" and "distinct cs"
    and "set cs \<subseteq> C" and "\<forall>c. recv_loop (rounds c) [] = Some (msgs c)"
  shows "\<exists>t. server_reach ops msgs (server_start C d) t \<and> sdev t = d' \<and> holder t = None
     \<and> map fst rs = cs \<and> (\<forall>(c, out) \<in> set rs. phase t c = Finished \<and> replies t c = out)"
proof -
  have "\<forall>c \<in> set cs. phase (server_start C d) c = Waiting \<and> replies (server_start C d) c = []"
    using assms(3) by (auto simp: server_start_def)
  with serve_all_reach [of ops rounds cs "server_start C d" rs d' msgs] assms show ?thesis
    by (auto simp: server_start_def)
qed

theorem serial_service_is_a_run_witness:
  "\<exists>rs d' t. serve_all (aesd_ops arena_kernel) (\<lambda>c. sample_rounds (one_msg c)) [0] fresh_driver = Some (rs, d')
     \<and> server_reach (aesd_ops arena_kernel) one_msg (server_start {0} fresh_driver) t \<and> sdev t = d'
     \<and> map fst rs = [0] \<and> phase t 0 = Finished"
proof -
  let ?ops = "aesd_ops arena_kernel" and ?rounds = "\<lambda>c. sample_rounds (one_msg c)"
  have "dev_sound arena_kernel fresh_driver"
    using fresh_good [OF arena_kernel_ok] by (simp add: dev_good_def)
  moreover have "recv_loop (?rounds 0) [] = Some [[97, 10]]" by (simp add: sample_rounds_def)
  ultimately obtain r where "processClientConnection ?ops (?rounds 0) fresh_driver = Some r"
    using dev.process_total [of arena_kernel fresh_driver "?rounds 0"] by (auto simp: sample_rounds_def)
  then have s: "serve_all ?ops ?rounds [0] fresh_driver = Some ([(0, sent r)], dev_end r)" by simp
  have "\<forall>c. recv_loop (?rounds c) [] = Some (one_msg c)"
    by (simp add: one_msg_def sample_rounds_def)
  from serial_service_is_a_run [OF s _ _ this, of "{0}"] s show ?thesis by auto
qed

end
