(* ===== verification/Socket_Threads.thy ===== *)
theory Socket_Threads
  imports Aesd_Base "HOL-Library.Multiset"
begin

text \<open>
  The main thread of \<^verbatim>\<open>server/aesdsocket.c\<close>: the linked list of client threads that
  \<open>acceptClientConnection\<close> appends to and reaps from, over an explicit store of its nodes
  (the list is mutated through pointers), the signal handler, and the accept loop of
  \<open>main\<close>. Following a pointer that is not allocated is undefined (\<open>None\<close>), and so is a
  loop that does not end.
\<close>

section \<open>Data\<close>

text \<open>\<open>ThreadArg\<close>; \<open>next\<close> is \<open>next_node\<close> here.\<close>

record thread_arg =
  client_fd :: int
  client_addr :: uint32_t
  thread :: nat
  is_done :: bool
  next_node :: addr

type_synonym thread_store = "addr \<rightharpoonup> thread_arg"

text \<open>The address of the global \<open>dummyNode\<close>, the head of the list.\<close>

definition DUMMY :: addr where "DUMMY = 64"

text \<open>
  \<open>unowned\<close> are the open descriptors of client connections that no thread has been given:
  \<open>accept\<close> adds one, starting a thread hands it over (the thread closes it when it ends),
  and closing it here would take it away. \<open>created\<close> and \<open>joined\<close> are histories: the
  threads \<open>pthread_create\<close> has started and those \<open>pthread_join\<close> has waited for.
\<close>

record main_state =
  store :: thread_store
  exit_requested :: bool
  unowned :: "int multiset"
  created :: "nat list"
  joined :: "nat list"

text \<open>The program's start: no client, and \<open>dummyNode\<close> is zero like every global.\<close>

definition main_start :: main_state where
  "main_start = \<lparr>store = [DUMMY \<mapsto> \<lparr>client_fd = 0, client_addr = 0, thread = 0, is_done = False,
       next_node = NULL\<rparr>], exit_requested = False, unowned = {#}, created = [], joined = []\<rparr>"

text \<open>
  What the system answers in one round of the accept loop: the signals that arrive before
  the loop tests \<open>exit_requested\<close> and before it is tested after \<open>accept\<close>; the results of
  \<open>accept\<close>, \<open>malloc\<close> and \<open>pthread_create\<close>; and which threads have set their \<open>isDone\<close> by the
  time it is read.
\<close>

record accept_round =
  signals_head :: "int list"
  signals_accept :: "int list"
  accepted :: int
  peer :: uint32_t
  arg_ptr :: addr
  create_rc :: int
  new_thread :: nat
  seen_done :: "addr \<Rightarrow> bool"

section \<open>Operations\<close>

definition SIGINT :: int where "SIGINT = 2"
definition SIGTERM :: int where "SIGTERM = 15"

definition signalHandler :: "int \<Rightarrow> main_state \<Rightarrow> main_state" where
  "signalHandler signo s =
     (if signo = SIGINT \<or> signo = SIGTERM then s\<lparr>exit_requested := True\<rparr> else s)"

text \<open>The walk to the last node of the list.\<close>

partial_function (option) last_node :: "thread_store \<Rightarrow> addr \<Rightarrow> addr option" where
  "last_node st var =
     do { n \<leftarrow> st var;
          if next_node n \<noteq> NULL then last_node st (next_node n) else Some var }"

text \<open>The loop that joins and frees every thread that is done.\<close>

partial_function (option) reap_loop :: "(addr \<Rightarrow> bool) \<Rightarrow> addr \<Rightarrow> addr \<Rightarrow> main_state \<Rightarrow> main_state option" where
  "reap_loop seen prev current s =
     (if current = NULL then Some s
      else do {
        c \<leftarrow> store s current;
        if is_done c \<or> seen current
        then do {
          p \<leftarrow> store s prev;
          let st1 = (store s)(prev \<mapsto> p\<lparr>next_node := next_node c\<rparr>);
          temp \<leftarrow> st1 current;
          reap_loop seen prev (next_node temp)
            (s\<lparr>store := st1(current := None), joined := joined s @ [thread temp]\<rparr>)
        }
        else reap_loop seen current (next_node c) s
      })"

definition acceptClientConnection :: "accept_round \<Rightarrow> main_state \<Rightarrow> (int \<times> main_state) option" where
  "acceptClientConnection a s0 =
     (let s = fold signalHandler (signals_accept a)
            (s0\<lparr>unowned := unowned s0 + (if accepted a < 0 then {#} else {#accepted a#})\<rparr>)
      in if exit_requested s then Some (0, s)
         else if accepted a < 0 then Some (- 1, s)
         else if arg_ptr a = NULL then None  \<comment> \<open>the result of \<open>malloc\<close> is not checked\<close>
         else do {
           let arg = \<lparr>client_fd = accepted a, client_addr = peer a, thread = 0, is_done = False,
                      next_node = NULL\<rparr>;
           let s1 = s\<lparr>store := (store s)(arg_ptr a \<mapsto> arg)\<rparr>;
           if create_rc a \<noteq> 0 then Some (1, s1)
           else do {
             let s2 = s1\<lparr>store := (store s1)(arg_ptr a \<mapsto> arg\<lparr>thread := new_thread a\<rparr>),
                         unowned := unowned s1 - {#accepted a#},
                         created := created s1 @ [new_thread a]\<rparr>;
             var \<leftarrow> last_node (store s2) DUMMY;
             v \<leftarrow> store s2 var;
             let s3 = s2\<lparr>store := (store s2)(var \<mapsto> v\<lparr>next_node := arg_ptr a\<rparr>)\<rparr>;
             d \<leftarrow> store s3 DUMMY;
             s4 \<leftarrow> reap_loop (seen_done a) DUMMY (next_node d) s3;
             Some (0, s4)
           }
         })"

text \<open>
  The accept loop of \<open>main\<close>. The first component says whether the loop has been left. When
  the rounds run out it has been left if the flag is set, and waits in \<open>accept\<close> otherwise.
\<close>

fun accept_loop :: "accept_round list \<Rightarrow> main_state \<Rightarrow> (bool \<times> main_state) option" where
  "accept_loop [] s = Some (exit_requested s, s)"
| "accept_loop (a # as) s0 =
     (let s = fold signalHandler (signals_head a) s0
      in if exit_requested s then Some (True, s)
         else do {
           (client_status, s') \<leftarrow> acceptClientConnection a s;
           if client_status = - 1 then Some (True, s') else accept_loop as s'
         })"

section \<open>The list in the store\<close>

fun chain :: "thread_store \<Rightarrow> addr \<Rightarrow> addr list \<Rightarrow> bool" where
  "chain st p [] = (p = NULL)"
| "chain st p (q # qs) = (p = q \<and> p \<noteq> NULL \<and> (\<exists>n. st p = Some n \<and> chain st (next_node n) qs))"

definition list_inv :: "thread_store \<Rightarrow> addr list \<Rightarrow> bool" where
  "list_inv st ps \<longleftrightarrow> distinct (DUMMY # ps) \<and> (\<exists>d. st DUMMY = Some d \<and> chain st (next_node d) ps)"

definition thread_of :: "thread_store \<Rightarrow> addr \<Rightarrow> nat" where
  "thread_of st p = thread (the (st p))"

definition node_done :: "(addr \<Rightarrow> bool) \<Rightarrow> thread_store \<Rightarrow> addr \<Rightarrow> bool" where
  "node_done seen st p \<longleftrightarrow> is_done (the (st p)) \<or> seen p"

lemma chain_live: "chain st p ps \<Longrightarrow> q \<in> set ps \<Longrightarrow> q \<noteq> NULL \<and> st q \<noteq> None"
  by (induction ps arbitrary: p) auto

lemma chain_frame: "chain st p ps \<Longrightarrow> (\<And>q. q \<in> set ps \<Longrightarrow> st' q = st q) \<Longrightarrow> chain st' p ps"
proof (induction ps arbitrary: p)
  case (Cons q qs)
  then show ?case by auto
qed simp

text \<open>Segments: from \<open>p\<close> along \<open>ps\<close> to the node \<open>q\<close>.\<close>

lemma last_node_chain:
  assumes "st p = Some n" and "chain st (next_node n) ps"
  shows "last_node st p = Some (last (p # ps))"
  using assms
proof (induction ps arbitrary: p n)
  case Nil
  then show ?case by (subst last_node.simps) simp
next
  case (Cons q qs)
  then obtain m where m: "next_node n = q" "q \<noteq> NULL" "st q = Some m" "chain st (next_node m) qs" by auto
  have "last_node st p = last_node st q"
    using Cons.prems(1) m by (subst last_node.simps) simp
  also have "\<dots> = Some (last (q # qs))" by (rule Cons.IH [OF m(3,4)])
  finally show ?case by simp
qed

text \<open>Appending a node behind the last one.\<close>

lemma chain_append:
  assumes "st p = Some n" and "chain st (next_node n) ps" and "distinct (p # ps)"
    and "st a = Some m" and "next_node m = NULL" and "a \<notin> set (p # ps)" and "a \<noteq> NULL"
    and "st (last (p # ps)) = Some l"
    and "st' = st(last (p # ps) \<mapsto> l\<lparr>next_node := a\<rparr>)"
  shows "\<exists>n'. st' p = Some n' \<and> chain st' (next_node n') (ps @ [a])"
  using assms
proof (induction ps arbitrary: p n)
  case Nil
  then show ?case by auto
next
  case (Cons q qs)
  then obtain k where k: "next_node n = q" "q \<noteq> NULL" "st q = Some k" "chain st (next_node k) qs" by auto
  have "last (p # q # qs) = last (q # qs)" by simp
  with Cons.IH [OF k(3,4)] Cons.prems obtain n' where
    "st' q = Some n'" "chain st' (next_node n') (qs @ [a])" by auto
  moreover have "p \<noteq> last (q # qs)" using Cons.prems(3) by (metis distinct.simps(2) last_in_set list.simps(3))
  then have "st' p = Some n" using Cons.prems(1,9) by simp
  ultimately show ?case using k by auto
qed

section \<open>Reaping\<close>

text \<open>A node keeps everything but its link.\<close>

definition relinked :: "thread_store \<Rightarrow> thread_store \<Rightarrow> addr \<Rightarrow> bool" where
  "relinked st st' q \<longleftrightarrow> (\<exists>m nx. st q = Some m \<and> st' q = Some (m\<lparr>next_node := nx\<rparr>))"

text \<open>What reaping the chain \<open>ps\<close> behind \<open>prev\<close> does: done nodes are joined in order and
  freed, the others are linked behind \<open>prev\<close>, nothing else changes.\<close>

definition reaped :: "(addr \<Rightarrow> bool) \<Rightarrow> addr \<Rightarrow> addr list \<Rightarrow> main_state \<Rightarrow> main_state \<Rightarrow> bool" where
  "reaped seen prev ps s s' \<longleftrightarrow>
     relinked (store s) (store s') prev
     \<and> chain (store s') (next_node (the (store s' prev))) (filter (\<lambda>q. \<not> node_done seen (store s) q) ps)
     \<and> joined s' = joined s @ map (thread_of (store s)) (filter (node_done seen (store s)) ps)
     \<and> (\<forall>q \<in> set ps. if node_done seen (store s) q then store s' q = None
                     else relinked (store s) (store s') q)
     \<and> (\<forall>q. q \<notin> set (prev # ps) \<longrightarrow> store s' q = store s q)
     \<and> exit_requested s' = exit_requested s \<and> unowned s' = unowned s \<and> created s' = created s"

lemma reapedD:
  assumes "reaped seen prev ps s s'"
  shows "relinked (store s) (store s') prev"
    "chain (store s') (next_node (the (store s' prev))) (filter (\<lambda>q. \<not> node_done seen (store s) q) ps)"
    "joined s' = joined s @ map (thread_of (store s)) (filter (node_done seen (store s)) ps)"
    "q \<in> set ps \<Longrightarrow> node_done seen (store s) q \<Longrightarrow> store s' q = None"
    "q \<in> set ps \<Longrightarrow> \<not> node_done seen (store s) q \<Longrightarrow> relinked (store s) (store s') q"
    "q \<notin> set (prev # ps) \<Longrightarrow> store s' q = store s q"
    "exit_requested s' = exit_requested s" "unowned s' = unowned s" "created s' = created s"
  using assms by (simp_all add: reaped_def)

lemma relinked_refl:
  fixes st st' :: thread_store
  assumes "st q = Some m" and "st' q = Some m"
  shows "relinked st st' q"
proof -
  have "m = m\<lparr>next_node := next_node m\<rparr>" by simp
  with assms show ?thesis unfolding relinked_def by metis
qed

lemma reap_free:
  assumes prev: "store s prev = Some p" and cur: "store s q = Some c" "q \<noteq> prev"
    and "node_done seen (store s) q" "distinct (prev # q # qs)"
    and s2: "s2 = s\<lparr>store := (store s)(prev \<mapsto> p\<lparr>next_node := next_node c\<rparr>, q := None),
               joined := joined s @ [thread c]\<rparr>"
    and r: "reaped seen prev qs s2 s'"
  shows "reaped seen prev (q # qs) s s'"
proof -
  have eq: "store s2 x = store s x" if "x \<in> set qs" for x using that assms(5) s2 by auto
  have nd: "node_done seen (store s2) x = node_done seen (store s) x" if "x \<in> set qs" for x
    using eq [OF that] by (simp add: node_done_def)
  have f: "filter (\<lambda>x. \<not> node_done seen (store s2) x) qs = filter (\<lambda>x. \<not> node_done seen (store s) x) qs"
    "filter (node_done seen (store s2)) qs = filter (node_done seen (store s)) qs"
    by (intro filter_cong refl; simp only: nd)+
  have t: "map (thread_of (store s2)) (filter (node_done seen (store s)) qs)
       = map (thread_of (store s)) (filter (node_done seen (store s)) qs)"
    by (intro map_cong refl) (simp add: thread_of_def eq)
  obtain m nx where m: "store s2 prev = Some m" "store s' prev = Some (m\<lparr>next_node := nx\<rparr>)"
    using reapedD(1) [OF r] by (auto simp: relinked_def)
  have "m = p\<lparr>next_node := next_node c\<rparr>" using m(1) s2 cur(2) by simp
  then have 1: "relinked (store s) (store s') prev" using prev m(2) by (auto simp: relinked_def)
  have j2: "joined s2 = joined s @ [thread c]" using s2 by simp
  have tq: "thread_of (store s) q = thread c" using cur by (simp add: thread_of_def)
  have 2: "store s' q = None" using reapedD(6) [OF r, of q] s2 assms(5) cur(2) by simp
  have 3: "joined s' = joined s @ map (thread_of (store s)) (filter (node_done seen (store s)) (q # qs))"
    using reapedD(3) [OF r] j2 assms(4) tq unfolding f t by simp
  have 4: "if node_done seen (store s) x then store s' x = None else relinked (store s) (store s') x"
    if "x \<in> set (q # qs)" for x
  proof (cases "x = q")
    case True
    with 2 assms(4) show ?thesis by simp
  next
    case False
    with that have x: "x \<in> set qs" by simp
    then show ?thesis
      using reapedD(4,5) [OF r x] nd [OF x] eq [OF x] by (simp add: relinked_def)
  qed
  have 5: "store s' x = store s x" if "x \<notin> set (prev # q # qs)" for x
    using reapedD(6) [OF r, of x] that s2 by simp
  have 6: "exit_requested s' = exit_requested s \<and> unowned s' = unowned s \<and> created s' = created s"
    using reapedD(7-9) [OF r] s2 by simp
  have 7: "chain (store s') (next_node (the (store s' prev)))
      (filter (\<lambda>x. \<not> node_done seen (store s) x) (q # qs))"
    using reapedD(2) [OF r] assms(4) unfolding f by simp
  show ?thesis unfolding reaped_def using 1 3 4 5 6 7 by blast
qed

lemma reap_keep:
  assumes prev: "store s prev = Some p" and link: "next_node p = q" "q \<noteq> NULL"
    and cur: "store s q = Some c" "\<not> node_done seen (store s) q" "distinct (prev # q # qs)"
    and r: "reaped seen q qs s s'"
  shows "reaped seen prev (q # qs) s s'"
proof -
  have p': "store s' prev = Some p" using r prev cur(3) by (auto simp: reaped_def)
  have "relinked (store s) (store s') q" using r by (simp add: reaped_def)
  moreover have "relinked (store s) (store s') prev" by (rule relinked_refl [where st = "store s" and st' = "store s'", OF prev p'])
  moreover have "store s' q \<noteq> None" using \<open>relinked (store s) (store s') q\<close> by (auto simp: relinked_def)
  ultimately show ?thesis
    using r cur(2) link p' by (auto simp: reaped_def)
qed

lemma reap_loop_chain:
  "store s prev = Some p \<Longrightarrow> next_node p = cur \<Longrightarrow> chain (store s) cur ps \<Longrightarrow> distinct (prev # ps) \<Longrightarrow>
     \<exists>s'. reap_loop seen prev cur s = Some s' \<and> reaped seen prev ps s s'"
proof (induction ps arbitrary: prev p cur s)
  case Nil
  then have "reap_loop seen prev cur s = Some s" by (subst reap_loop.simps) simp
  with Nil relinked_refl [where st = "store s" and st' = "store s", OF Nil(1,1)] show ?case by (auto simp: reaped_def)
next
  case (Cons q qs)
  then obtain c where c: "cur = q" "q \<noteq> NULL" "store s q = Some c" "chain (store s) (next_node c) qs" by auto
  have ne: "q \<noteq> prev" using Cons.prems(4) by auto
  show ?case
  proof (cases "is_done c \<or> seen q")
    case True
    let ?s2 = "s\<lparr>store := (store s)(prev \<mapsto> p\<lparr>next_node := next_node c\<rparr>, q := None),
               joined := joined s @ [thread c]\<rparr>"
    have st: "reap_loop seen prev cur s = reap_loop seen prev (next_node c) ?s2"
      using Cons.prems(1) c True ne by (subst reap_loop.simps) (simp add: Let_def)
    have "chain (store ?s2) (next_node c) qs"
      using Cons.prems(4) by (intro chain_frame [OF c(4)]) auto
    moreover have "store ?s2 prev = Some (p\<lparr>next_node := next_node c\<rparr>)" "distinct (prev # qs)"
      using Cons.prems(4) ne by auto
    ultimately obtain s' where
      s': "reap_loop seen prev (next_node c) ?s2 = Some s'" "reaped seen prev qs ?s2 s'"
      using Cons.IH [of ?s2 prev "p\<lparr>next_node := next_node c\<rparr>" "next_node c"] by (simp del: fun_upd_apply) blast
    have "node_done seen (store s) q" using True c by (simp add: node_done_def)
    from reap_free [OF Cons.prems(1) c(3) ne this Cons.prems(4) refl s'(2)] s'(1) st show ?thesis by auto
  next
    case False
    have st: "reap_loop seen prev cur s = reap_loop seen q (next_node c) s"
      using c False by (subst reap_loop.simps) simp
    obtain s' where s': "reap_loop seen q (next_node c) s = Some s'" "reaped seen q qs s s'"
      using Cons.IH [OF c(3) refl c(4)] Cons.prems(4) by auto
    have "\<not> node_done seen (store s) q" using False c by (simp add: node_done_def)
    with reap_keep [OF Cons.prems(1) _ c(2,3) this Cons.prems(4) s'(2)] Cons.prems(2) c(1) s'(1) st
    show ?thesis by auto
  qed
qed

section \<open>One round of the accept loop\<close>

lemma signalHandler_frame [simp]:
  "store (signalHandler n s) = store s" "unowned (signalHandler n s) = unowned s"
  "created (signalHandler n s) = created s" "joined (signalHandler n s) = joined s"
  "exit_requested s \<Longrightarrow> exit_requested (signalHandler n s)"
  by (simp_all add: signalHandler_def)

lemma signals_frame [simp]:
  "store (fold signalHandler ns s) = store s" "unowned (fold signalHandler ns s) = unowned s"
  "created (fold signalHandler ns s) = created s" "joined (fold signalHandler ns s) = joined s"
  by (induction ns arbitrary: s) simp_all

lemma signals_exit:
  "exit_requested (fold signalHandler ns s) \<longleftrightarrow> exit_requested s \<or> SIGINT \<in> set ns \<or> SIGTERM \<in> set ns"
  by (induction ns arbitrary: s) (auto simp: signalHandler_def)

text \<open>The node that a new client gets, and the queue of nodes with it.\<close>

definition new_arg :: "accept_round \<Rightarrow> thread_arg" where
  "new_arg a = \<lparr>client_fd = accepted a, client_addr = peer a, thread = new_thread a,
     is_done = False, next_node = NULL\<rparr>"

text \<open>
  The store as the reaping loop finds it: the nodes of \<open>ps\<close>, then the new one. \<open>st\<close> is the
  store before.
\<close>

definition with_new :: "accept_round \<Rightarrow> thread_store \<Rightarrow> thread_store" where
  "with_new a st = st(arg_ptr a \<mapsto> new_arg a)"

lemma list_invD:
  assumes "list_inv st ps"
  shows "distinct (DUMMY # ps)" "\<exists>d. st DUMMY = Some d \<and> chain st (next_node d) ps"
  using assms by (simp_all add: list_inv_def)

lemma list_inv_live: "list_inv st ps \<Longrightarrow> q \<in> set (DUMMY # ps) \<Longrightarrow> \<exists>n. st q = Some n"
  using chain_live [of st _ ps q] by (auto simp: list_inv_def)

lemma append_new:
  assumes inv: "list_inv st ps" and fresh: "a \<noteq> NULL" "st a = None" and m: "next_node m = NULL"
    and st1: "st1 = st(a \<mapsto> m)"
  obtains var l where "last_node st1 DUMMY = Some var" and "st1 var = Some l"
    and "list_inv (st1(var \<mapsto> l\<lparr>next_node := a\<rparr>)) (ps @ [a])" and "var \<in> set (DUMMY # ps)"
proof -
  obtain d where d: "st DUMMY = Some d" "chain st (next_node d) ps" using list_invD(2) [OF inv] by blast
  have na: "a \<notin> set (DUMMY # ps)"
  proof
    assume "a \<in> set (DUMMY # ps)"
    from list_inv_live [OF inv this] fresh(2) show False by simp
  qed
  have d1: "st1 DUMMY = Some d" "chain st1 (next_node d) ps"
    using d na by (auto simp: st1 intro!: chain_frame [OF d(2)])
  have sa: "st1 a = Some m" by (simp add: st1)
  have lst: "last (DUMMY # ps) \<in> set (DUMMY # ps)" by (rule last_in_set) simp
  obtain l where "st (last (DUMMY # ps)) = Some l" using list_inv_live [OF inv lst] by blast
  then have l: "st1 (last (DUMMY # ps)) = Some l" using lst na by (auto simp: st1)
  have "last_node st1 DUMMY = Some (last (DUMMY # ps))" by (rule last_node_chain [OF d1])
  moreover have "list_inv (st1(last (DUMMY # ps) \<mapsto> l\<lparr>next_node := a\<rparr>)) (ps @ [a])"
    using chain_append [OF d1 list_invD(1) [OF inv] sa m na fresh(1) l refl] na list_invD(1) [OF inv]
    unfolding list_inv_def by auto
  ultimately show thesis using l lst that by blast
qed


lemma relinked_trans: "relinked st1 st2 q \<Longrightarrow> relinked st2 st3 q \<Longrightarrow> relinked st1 st3 q"
  by (auto simp: relinked_def)

lemma relinked_fields:
  assumes "relinked st st' q"
  shows "thread_of st' q = thread_of st q" "node_done seen st' q = node_done seen st q"
  using assms by (auto simp: relinked_def thread_of_def node_done_def)

lemma relinked_upd:
  fixes st :: thread_store
  assumes "st p = Some l" and "st q = Some m"
  shows "relinked st (st(p \<mapsto> l\<lparr>next_node := a\<rparr>)) q"
  using assms relinked_refl [of st q m st] by (cases "q = p") (auto simp: relinked_def)

text \<open>
  What one round that gets a client does to the list, in terms of the store before it: the
  new node is queued behind the others, then every node of the queue whose thread is done is
  joined, in the queue's order, and freed.
\<close>

definition queued :: "accept_round \<Rightarrow> addr list \<Rightarrow> addr list" where
  "queued a ps = ps @ [arg_ptr a]"

definition finished :: "accept_round \<Rightarrow> main_state \<Rightarrow> addr \<Rightarrow> bool" where
  "finished a s = node_done (seen_done a) (with_new a (store s))"

definition served :: "accept_round \<Rightarrow> addr list \<Rightarrow> main_state \<Rightarrow> main_state \<Rightarrow> bool" where
  "served a ps s s' \<longleftrightarrow>
     list_inv (store s') (filter (\<lambda>q. \<not> finished a s q) (queued a ps))
     \<and> joined s' = joined s @ map (thread_of (with_new a (store s))) (filter (finished a s) (queued a ps))
     \<and> created s' = created s @ [new_thread a] \<and> unowned s' = unowned s
     \<and> (\<forall>q \<in> set (queued a ps). if finished a s q then store s' q = None
                             else relinked (with_new a (store s)) (store s') q)
     \<and> (\<forall>q. q \<notin> set (DUMMY # queued a ps) \<longrightarrow> store s' q = store s q)
     \<and> \<not> exit_requested s'"

lemma reaped_list:
  assumes inv: "list_inv (store s) ps" and r: "reaped seen DUMMY ps s s'"
  shows "list_inv (store s') (filter (\<lambda>q. \<not> node_done seen (store s) q) ps)"
proof -
  have "\<exists>d. store s' DUMMY = Some d" using reapedD(1) [OF r] by (auto simp: relinked_def)
  then show ?thesis
    using reapedD(2) [OF r] list_invD(1) [OF inv] by (auto simp: list_inv_def)
qed

lemma accept_serves:
  assumes inv: "list_inv (store s) ps" and fresh: "arg_ptr a \<noteq> NULL" "store s (arg_ptr a) = None"
    and run: "\<not> exit_requested (fold signalHandler (signals_accept a) s)"
    and ok: "0 \<le> accepted a" "create_rc a = 0"
  shows "\<exists>s'. acceptClientConnection a s = Some (0, s') \<and> served a ps s s'"
proof -
  let ?s = "fold signalHandler (signals_accept a) (s\<lparr>unowned := unowned s + {#accepted a#}\<rparr>)"
  let ?w = "with_new a (store s)" and ?q = "queued a ps" and ?g = "arg_ptr a"
  have run': "\<not> exit_requested ?s" using run by (simp add: signals_exit)
  have nn: "next_node (new_arg a) = NULL" by (simp add: new_arg_def)
  obtain var l where l: "last_node ?w DUMMY = Some var" "?w var = Some l"
    "list_inv (?w(var \<mapsto> l\<lparr>next_node := ?g\<rparr>)) ?q" "var \<in> set (DUMMY # ps)"
    unfolding queued_def by (rule append_new [OF inv fresh nn with_new_def])
  define s3 where "s3 = ?s\<lparr>unowned := unowned s, created := created s @ [new_thread a], store := ?w(var \<mapsto> l\<lparr>next_node := ?g\<rparr>)\<rparr>"
  have st3: "store s3 = ?w(var \<mapsto> l\<lparr>next_node := ?g\<rparr>)" by (simp add: s3_def)
  have inv3: "list_inv (store s3) ?q" using l(3) unfolding st3 .
  from l(3) obtain d where d: "store s3 DUMMY = Some d" "chain (store s3) (next_node d) ?q"
    "distinct (DUMMY # ?q)" by (auto simp: list_inv_def st3)
  obtain s' where s': "reap_loop (seen_done a) DUMMY (next_node d) s3 = Some s'"
    "reaped (seen_done a) DUMMY ?q s3 s'"
    using reap_loop_chain [OF d(1) refl d(2,3)] by blast
  have "acceptClientConnection a s = Some (0, s')"
    using run' ok fresh(1) l(1,2) d(1) s'(1)
    by (simp add: acceptClientConnection_def Let_def with_new_def new_arg_def s3_def del: fun_upd_apply)
  moreover have "served a ps s s'"
  proof -
    have live: "\<exists>m. ?w q = Some m" if "q \<in> set ?q" for q
      using that list_inv_live [OF inv, of q] by (auto simp: queued_def with_new_def)
    have rl: "relinked ?w (store s3) q" if "q \<in> set ?q" for q
      unfolding st3 using live [OF that] relinked_upd [where st = ?w and p = var and l = l, OF l(2)] by blast
    note same = relinked_fields [OF rl]
    have f: "filter (finished a s) ?q = filter (node_done (seen_done a) (store s3)) ?q"
      "filter (\<lambda>q. \<not> finished a s q) ?q = filter (\<lambda>q. \<not> node_done (seen_done a) (store s3) q) ?q"
      by (intro filter_cong refl; simp add: finished_def same)+
    have t: "map (thread_of ?w) (filter (finished a s) ?q) = map (thread_of (store s3)) (filter (finished a s) ?q)"
      by (intro map_cong refl) (simp add: same)
    have 1: "list_inv (store s') (filter (\<lambda>q. \<not> finished a s q) ?q)"
      unfolding f using reaped_list [OF inv3 s'(2)] .
    have 2: "joined s' = joined s @ map (thread_of ?w) (filter (finished a s) ?q)"
    proof -
      have "joined s3 = joined s" by (simp add: s3_def)
      then show ?thesis unfolding t using reapedD(3) [OF s'(2)] unfolding f(1) by simp
    qed
    have 3: "if finished a s q then store s' q = None else relinked ?w (store s') q" if "q \<in> set ?q" for q
      using reapedD(4,5) [OF s'(2) that] relinked_trans [OF rl [OF that]] same [OF that]
      by (auto simp: finished_def)
    have 4: "store s' q = store s q" if "q \<notin> set (DUMMY # ?q)" for q
      using reapedD(6) [OF s'(2) that] that l(4) by (auto simp: st3 with_new_def queued_def)
    have 5: "created s' = created s @ [new_thread a] \<and> unowned s' = unowned s \<and> \<not> exit_requested s'"
      using reapedD(7-9) [OF s'(2)] run' by (simp add: s3_def)
    show ?thesis unfolding served_def using 1 2 3 4 5 by blast
  qed
  ultimately show ?thesis by blast
qed

section \<open>Every thread is accounted for\<close>

text \<open>\<open>ps\<close> are the nodes of the list; a created thread is joined or its node is in the list.\<close>

definition accounted :: "main_state \<Rightarrow> addr list \<Rightarrow> bool" where
  "accounted s ps \<longleftrightarrow> list_inv (store s) ps
     \<and> mset (created s) = mset (joined s) + mset (map (thread_of (store s)) ps)"

lemma mset_map_partition:
  "mset (map f (filter P xs)) + mset (map f (filter (\<lambda>x. \<not> P x) xs)) = mset (map f xs)"
  by (induction xs) auto

lemma thread_of_new [simp]: "thread_of (with_new a st) (arg_ptr a) = new_thread a"
  by (simp add: thread_of_def with_new_def new_arg_def)

lemma fresh_not_listed:
  assumes "list_inv st ps" and "st a = None"
  shows "a \<notin> set (DUMMY # ps)"
  using list_inv_live [OF assms(1), of a] assms(2) by auto

lemma threads_frame: "a \<notin> set ps \<Longrightarrow> map (thread_of (st(a \<mapsto> m))) ps = map (thread_of st) ps"
  by (auto simp: thread_of_def)

lemma list_inv_frame:
  assumes inv: "list_inv st ps" and a: "a \<notin> set (DUMMY # ps)"
  shows "list_inv (st(a \<mapsto> m)) ps"
proof -
  obtain d where d: "st DUMMY = Some d" "chain st (next_node d) ps" using list_invD(2) [OF inv] by blast
  have "chain (st(a \<mapsto> m)) (next_node d) ps" by (rule chain_frame [OF d(2)]) (use a in auto)
  with d(1) a list_invD(1) [OF inv] show ?thesis by (auto simp: list_inv_def)
qed

lemma served_accounted:
  assumes acc: "accounted s ps" and fresh: "store s (arg_ptr a) = None" and sv: "served a ps s s'"
  shows "accounted s' (filter (\<lambda>q. \<not> finished a s q) (queued a ps))"
proof -
  let ?w = "with_new a (store s)" and ?q = "queued a ps"
  let ?live = "filter (\<lambda>q. \<not> finished a s q) ?q" and ?fin = "filter (finished a s) ?q"
  have inv: "list_inv (store s) ps" using acc by (simp add: accounted_def)
  have "map (thread_of ?w) ps = map (thread_of (store s)) ps"
    unfolding with_new_def by (rule threads_frame) (use fresh_not_listed [OF inv fresh] in simp)
  then have q: "mset (map (thread_of ?w) ?q) = mset (map (thread_of (store s)) ps) + {#new_thread a#}"
    by (simp add: queued_def del: map_eq_conv mset_map)
  have l: "map (thread_of (store s')) ?live = map (thread_of ?w) ?live"
    by (intro map_cong refl) (use sv relinked_fields(1) in \<open>auto simp: served_def split: if_splits\<close>)
  have "mset (created s') = mset (created s) + {#new_thread a#}" using sv by (simp add: served_def)
  also have "\<dots> = mset (joined s) + mset (map (thread_of ?w) ?q)"
    using acc q by (simp add: accounted_def)
  also have "\<dots> = mset (joined s') + mset (map (thread_of (store s')) ?live)"
    unfolding l using sv mset_map_partition [of "thread_of ?w" "finished a s" ?q]
    by (simp add: served_def add.assoc del: mset_map mset_filter map_eq_conv)
  finally show ?thesis using sv by (simp add: served_def accounted_def)
qed

text \<open>The rounds that serve nobody.\<close>

definition got :: "accept_round \<Rightarrow> main_state \<Rightarrow> main_state" where
  "got a s = s\<lparr>unowned := unowned s + (if accepted a < 0 then {#} else {#accepted a#})\<rparr>"

lemma accept_exit:
  "exit_requested (fold signalHandler (signals_accept a) s) \<Longrightarrow>
     acceptClientConnection a s = Some (0, fold signalHandler (signals_accept a) (got a s))"
  by (simp add: acceptClientConnection_def got_def signals_exit Let_def)

lemma signals_none: "\<not> exit_requested (fold signalHandler ns s) \<Longrightarrow> fold signalHandler ns s' = s'"
  by (induction ns arbitrary: s s') (auto simp: signalHandler_def signals_exit)

lemma signals_state:
  "fold signalHandler ns s
     = (if SIGINT \<in> set ns \<or> SIGTERM \<in> set ns then s\<lparr>exit_requested := True\<rparr> else s)"
  by (induction ns arbitrary: s) (auto simp: signalHandler_def)

lemma accept_fail:
  assumes "\<not> exit_requested (fold signalHandler (signals_accept a) s)" and "accepted a < 0"
  shows "acceptClientConnection a s = Some (- 1, s)"
proof -
  have "\<not> exit_requested s" using assms(1) by (simp add: signals_exit)
  with assms(2) show ?thesis
    by (simp add: acceptClientConnection_def Let_def signals_none [OF assms(1)])
qed

definition unsent_arg :: "accept_round \<Rightarrow> thread_arg" where
  "unsent_arg a = (new_arg a)\<lparr>thread := 0\<rparr>"

lemma create_fail:
  assumes "\<not> exit_requested (fold signalHandler (signals_accept a) s)" and "0 \<le> accepted a"
    and "create_rc a \<noteq> 0" and "arg_ptr a \<noteq> NULL"
  shows "acceptClientConnection a s
     = Some (1, (got a s)\<lparr>store := (store s)(arg_ptr a \<mapsto> unsent_arg a)\<rparr>)"
proof -
  have "\<not> exit_requested s" using assms(1) by (simp add: signals_exit)
  with assms(2-4) show ?thesis
    by (simp add: acceptClientConnection_def Let_def signals_none [OF assms(1)] got_def
        unsent_arg_def new_arg_def)
qed

lemma accept_no_memory:
  assumes "\<not> exit_requested (fold signalHandler (signals_accept a) s)" and "0 \<le> accepted a"
    and "arg_ptr a = NULL"
  shows "acceptClientConnection a s = None"
  using assms by (simp add: acceptClientConnection_def Let_def signals_exit)

lemma accept_accounted:
  assumes acc: "accounted s ps" and fresh: "arg_ptr a \<noteq> NULL \<Longrightarrow> store s (arg_ptr a) = None"
  shows "acceptClientConnection a s = None \<and> arg_ptr a = NULL
     \<or> (\<exists>r s' ps'. acceptClientConnection a s = Some (r, s') \<and> accounted s' ps')"
proof -
  consider (ex) "exit_requested (fold signalHandler (signals_accept a) s)"
    | (bad) "\<not> exit_requested (fold signalHandler (signals_accept a) s)" "accepted a < 0"
    | (null) "\<not> exit_requested (fold signalHandler (signals_accept a) s)" "0 \<le> accepted a" "arg_ptr a = NULL"
    | (full) "\<not> exit_requested (fold signalHandler (signals_accept a) s)" "0 \<le> accepted a"
        "create_rc a \<noteq> 0" "arg_ptr a \<noteq> NULL"
    | (ok) "\<not> exit_requested (fold signalHandler (signals_accept a) s)" "0 \<le> accepted a"
        "create_rc a = 0" "arg_ptr a \<noteq> NULL"
    by linarith
  then show ?thesis
  proof cases
    case ex
    have "accounted (fold signalHandler (signals_accept a) (got a s)) ps"
      using acc by (simp add: accounted_def got_def)
    with accept_exit [OF ex] show ?thesis by blast
  next
    case bad
    with accept_fail [OF bad] acc show ?thesis by blast
  next
    case null
    with accept_no_memory show ?thesis by blast
  next
    case full
    have inv: "list_inv (store s) ps" using acc by (simp add: accounted_def)
    have n: "arg_ptr a \<notin> set (DUMMY # ps)" by (rule fresh_not_listed [OF inv fresh [OF full(4)]])
    from list_inv_frame [OF inv n] have "list_inv ((store s)(arg_ptr a \<mapsto> unsent_arg a)) ps" .
    with acc n have "accounted ((got a s)\<lparr>store := (store s)(arg_ptr a \<mapsto> unsent_arg a)\<rparr>) ps"
      by (simp add: accounted_def got_def threads_frame)
    with create_fail [OF full] show ?thesis by blast
  next
    case ok
    have "list_inv (store s) ps" using acc by (simp add: accounted_def)
    from accept_serves [OF this ok(4) fresh [OF ok(4)] ok(1-3)] served_accounted [OF acc fresh [OF ok(4)]]
    show ?thesis by blast
  qed
qed

text \<open>
  What \<open>malloc\<close> promises along a run of the loop: it fails, or gives an address that is not
  in use.
\<close>

fun mallocs_fresh :: "accept_round list \<Rightarrow> main_state \<Rightarrow> bool" where
  "mallocs_fresh [] s = True"
| "mallocs_fresh (a # as) s0 =
     (let s = fold signalHandler (signals_head a) s0
      in (arg_ptr a \<noteq> NULL \<longrightarrow> store s (arg_ptr a) = None)
         \<and> (case acceptClientConnection a s of None \<Rightarrow> True | Some (r, s') \<Rightarrow> mallocs_fresh as s'))"

lemma accept_loop_accounted:
  "accounted s ps \<Longrightarrow> mallocs_fresh as s \<Longrightarrow>
     accept_loop as s = None \<and> (\<exists>a \<in> set as. arg_ptr a = NULL)
     \<or> (\<exists>b s' ps'. accept_loop as s = Some (b, s') \<and> accounted s' ps')"
proof (induction as arbitrary: s ps)
  case (Cons a as)
  let ?s = "fold signalHandler (signals_head a) s"
  have acc: "accounted ?s ps" using Cons.prems(1) by (simp add: accounted_def)
  show ?case
  proof (cases "exit_requested ?s")
    case True
    with acc show ?thesis by auto
  next
    case False
    have al: "arg_ptr a \<noteq> NULL \<Longrightarrow> store ?s (arg_ptr a) = None" using Cons.prems(2) by (simp add: Let_def)
    from accept_accounted [OF acc al] show ?thesis
    proof
      assume "acceptClientConnection a ?s = None \<and> arg_ptr a = NULL"
      with False show ?thesis by simp
    next
      assume "\<exists>r s' ps'. acceptClientConnection a ?s = Some (r, s') \<and> accounted s' ps'"
      then obtain r s' ps' where r: "acceptClientConnection a ?s = Some (r, s')" "accounted s' ps'" by blast
      with Cons.prems(2) have "mallocs_fresh as s'" by (simp add: Let_def)
      from Cons.IH [OF r(2) this] r False show ?thesis by auto
    qed
  qed
qed auto

end
