(* ===== verification/Thread_Properties.thy ===== *)
theory Thread_Properties
  imports Socket_Threads
begin

text \<open>
  Properties of the server's main thread (\<^verbatim>\<open>server/aesdsocket.c\<close>): what one round of the
  accept loop does to the list of client threads, what its failures leave behind, that every
  created thread is joined or still listed, and what a termination signal abandons.
\<close>

text \<open>Two clients; when the second arrives, the first one's thread is done.\<close>

definition round1 :: accept_round where
  "round1 = \<lparr>signals_head = [], signals_accept = [], accepted = 4, peer = 16777343, arg_ptr = 128,
     create_rc = 0, new_thread = 1, seen_done = (\<lambda>_. False)\<rparr>"

definition round2 :: accept_round where
  "round2 = round1\<lparr>accepted := 5, arg_ptr := 192, new_thread := 2, seen_done := (\<lambda>p. p = 128)\<rparr>"

definition after1 :: main_state where
  "after1 = \<lparr>store = [DUMMY \<mapsto> \<lparr>client_fd = 0, client_addr = 0, thread = 0, is_done = False,
       next_node = 128\<rparr>, 128 \<mapsto> new_arg round1], exit_requested = False, unowned = {#}, created = [1],
     joined = []\<rparr>"

lemmas round_defs = round1_def round2_def after1_def main_start_def DUMMY_def new_arg_def

lemma after1_inv: "list_inv (store after1) [128]"
  by (simp add: list_inv_def round_defs)

text \<open>C30: When a client is accepted and its thread started, its node is queued behind the
  others; then exactly the queued nodes whose thread is done are joined, in the queue's order,
  and freed, the list holds the rest in order with their contents, and no other memory
  changes.\<close>
theorem accept_queues_then_reaps:
  assumes inv: "list_inv (store s) ps"
    and malloc: "arg_ptr a \<noteq> NULL" "store s (arg_ptr a) = None"
    and no_signal: "\<not> exit_requested s" "SIGINT \<notin> set (signals_accept a)" "SIGTERM \<notin> set (signals_accept a)"
    and ok: "0 \<le> accepted a" "create_rc a = 0"
  shows "\<exists>s'. acceptClientConnection a s = Some (0, s')
     \<and> (let st = (store s)(arg_ptr a \<mapsto> new_arg a); queue = ps @ [arg_ptr a];
            fin = node_done (seen_done a) st
        in list_inv (store s') (filter (\<lambda>q. \<not> fin q) queue)
           \<and> joined s' = joined s @ map (thread_of st) (filter fin queue)
           \<and> (\<forall>q. q \<in> set queue \<and> fin q \<longrightarrow> store s' q = None)
           \<and> (\<forall>q. q \<in> set queue \<and> \<not> fin q \<longrightarrow> (\<exists>n nx. st q = Some n \<and> store s' q = Some (n\<lparr>next_node := nx\<rparr>)))
           \<and> (\<forall>q. q \<notin> set (DUMMY # queue) \<longrightarrow> store s' q = store s q)
           \<and> created s' = created s @ [new_thread a])"
proof -
  have "\<not> exit_requested (fold signalHandler (signals_accept a) s)"
    using no_signal by (simp add: signals_exit)
  from accept_serves [OF inv malloc this ok] obtain s' where
    s': "acceptClientConnection a s = Some (0, s')" "served a ps s s'" by blast
  show ?thesis
    by (rule exI [of _ s'])
       (use s' in \<open>auto simp: served_def queued_def finished_def with_new_def relinked_def Let_def split: if_splits\<close>)
qed

theorem accept_queues_then_reaps_witness:
  "list_inv (store after1) [128] \<and> (\<exists>s'. acceptClientConnection round2 after1 = Some (0, s')
     \<and> list_inv (store s') [192] \<and> joined s' = [1] \<and> store s' 128 = None \<and> created s' = [1, 2])"
proof -
  have "\<exists>s'. acceptClientConnection round2 after1 = Some (0, s')
     \<and> (let st = (store after1)(arg_ptr round2 \<mapsto> new_arg round2); queue = [128] @ [arg_ptr round2];
            fin = node_done (seen_done round2) st
        in list_inv (store s') (filter (\<lambda>q. \<not> fin q) queue)
           \<and> joined s' = joined after1 @ map (thread_of st) (filter fin queue)
           \<and> (\<forall>q. q \<in> set queue \<and> fin q \<longrightarrow> store s' q = None)
           \<and> (\<forall>q. q \<in> set queue \<and> \<not> fin q \<longrightarrow> (\<exists>n nx. st q = Some n \<and> store s' q = Some (n\<lparr>next_node := nx\<rparr>)))
           \<and> (\<forall>q. q \<notin> set (DUMMY # queue) \<longrightarrow> store s' q = store after1 q)
           \<and> created s' = created after1 @ [new_thread round2])"
    by (rule accept_queues_then_reaps [OF after1_inv]) (simp_all add: round_defs)
  then show ?thesis
    using after1_inv by (auto simp: node_done_def thread_of_def round_defs Let_def)
qed

text \<open>A failed \<open>accept\<close> returns -1 and changes nothing; a failed \<open>pthread_create\<close>
  returns 1 with the client's node still allocated but in no list, and its connection open.\<close>
theorem accept_failures_leak:
  assumes "\<not> exit_requested s" and "SIGINT \<notin> set (signals_accept a)" and "SIGTERM \<notin> set (signals_accept a)"
    and "accepted a < 0 \<or> create_rc a \<noteq> 0 \<and> arg_ptr a \<noteq> NULL"
  shows "acceptClientConnection a s =
     (if accepted a < 0 then Some (- 1, s)
      else Some (1, s\<lparr>unowned := unowned s + {#accepted a#},
                      store := (store s)(arg_ptr a \<mapsto> (new_arg a)\<lparr>thread := 0\<rparr>)\<rparr>))"
proof -
  have run: "\<not> exit_requested (fold signalHandler (signals_accept a) s)"
    using assms(1-3) by (simp add: signals_exit)
  show ?thesis
    using accept_fail [OF run] create_fail [OF run] assms(4)
    by (auto simp: got_def unsent_arg_def)
qed

theorem accept_failures_leak_witness:
  "acceptClientConnection (round2\<lparr>create_rc := 11\<rparr>) main_start
     = Some (1, main_start\<lparr>unowned := {#5#},
         store := (store main_start)(192 \<mapsto> (new_arg round2)\<lparr>thread := 0\<rparr>)\<rparr>)"
  by (subst accept_failures_leak) (simp_all add: round_defs)

text \<open>C31: However connections, failures and signals come, as long as \<open>malloc\<close> does not fail the
  accept loop never follows a bad pointer, its list stays well formed, and every thread it
  created is joined exactly once or is in the list. It is undefined only after a \<open>malloc\<close> that
  failed, whose result the code does not check.\<close>
theorem threads_joined_or_listed:
  assumes "mallocs_fresh as main_start"
  shows "case accept_loop as main_start of
      None \<Rightarrow> (\<exists>a \<in> set as. arg_ptr a = NULL)
    | Some (left, s') \<Rightarrow> (\<exists>ps. list_inv (store s') ps
        \<and> mset (created s') = mset (joined s') + mset (map (thread_of (store s')) ps))"
proof -
  have "accounted main_start []" by (simp add: accounted_def list_inv_def main_start_def)
  from accept_loop_accounted [OF this assms] show ?thesis by (auto simp: accounted_def)
qed

lemma accept_round1: "acceptClientConnection round1 main_start = Some (0, after1)"
proof -
  have [simp]: "last_node [64 \<mapsto> n, 128 \<mapsto> m] 64 = Some 64" if "next_node n = NULL" for n m
    using that by (subst last_node.simps) simp
  have [simp]: "reap_loop (\<lambda>_. False) 128 0 s = Some s" for s by (subst reap_loop.simps) simp
  have [simp]: "reap_loop (\<lambda>_. False) 64 128 s = Some s"
    if "store s 128 = Some m" "\<not> is_done m" "next_node m = NULL" for s m
    using that by (subst reap_loop.simps) simp
  show ?thesis by (simp add: acceptClientConnection_def round_defs Let_def fun_upd_twist)
qed

theorem threads_joined_or_listed_witness:
  "mallocs_fresh [round1, round2] main_start
     \<and> (\<exists>left s' ps. accept_loop [round1, round2] main_start = Some (left, s') \<and> list_inv (store s') ps
        \<and> mset (created s') = mset (joined s') + mset (map (thread_of (store s')) ps))"
proof -
  have "fold signalHandler (signals_head round1) main_start = main_start"
    "fold signalHandler (signals_head round2) after1 = after1" by (simp_all add: round_defs)
  then have a: "mallocs_fresh [round1, round2] main_start"
    using accept_round1 by (auto simp: Let_def round_defs split: option.splits prod.splits)
  have "arg_ptr round1 \<noteq> NULL" "arg_ptr round2 \<noteq> NULL" by (simp_all add: round_defs)
  with threads_joined_or_listed [OF a] a show ?thesis
    by (auto simp del: accept_loop.simps split: option.splits)
qed

text \<open>C35: A termination signal, before the loop's test or before the one after \<open>accept\<close>, ends the
  loop: nothing else of the state changes, so no thread of the list is joined or freed; and a
  connection that \<open>accept\<close> has just returned stays open without a thread that would serve or
  close it.\<close>
theorem signal_abandons_clients:
  assumes "\<not> exit_requested s"
    and "SIGINT \<in> set (signals_head a) \<or> SIGTERM \<in> set (signals_head a)
         \<or> SIGINT \<in> set (signals_accept a) \<or> SIGTERM \<in> set (signals_accept a)"
  shows "accept_loop (a # as) s = Some (True, s\<lparr>exit_requested := True,
     unowned := unowned s + (if SIGINT \<in> set (signals_head a) \<or> SIGTERM \<in> set (signals_head a) \<or> accepted a < 0
                             then {#} else {#accepted a#})\<rparr>)"
proof (cases "SIGINT \<in> set (signals_head a) \<or> SIGTERM \<in> set (signals_head a)")
  case True
  then show ?thesis by (auto simp: signals_state Let_def)
next
  case False
  with assms have "exit_requested (fold signalHandler (signals_accept a) s)" by (simp add: signals_exit)
  from accept_exit [OF this] False assms show ?thesis
    by (cases as) (auto simp: signals_state Let_def got_def)
qed

theorem signal_abandons_clients_witness:
  "accept_loop [round2\<lparr>signals_accept := [SIGTERM]\<rparr>] after1
     = Some (True, after1\<lparr>exit_requested := True, unowned := {#5#}\<rparr>)
   \<and> joined after1 = [] \<and> created after1 = [1]"
  using signal_abandons_clients [of after1 "round2\<lparr>signals_accept := [SIGTERM]\<rparr>" "[]"]
  by (auto simp: round_defs SIGTERM_def SIGINT_def)

end
