(* ===== verification/Socket_Setup.thy ===== *)
theory Socket_Setup
  imports Socket_Threads Char_Device
begin

text \<open>
  The rest of \<^verbatim>\<open>server/aesdsocket.c\<close>: creating the listening socket, becoming a daemon,
  \<open>main\<close>, and the timer that appends time stamps (compiled, but only armed when the server
  is built without the character device). What the system calls return is an argument; the
  process is the set of its descriptors and what the calls change of it.
\<close>

section \<open>The socket's address\<close>

record sockaddr_in =
  sin_family :: "16 word"
  sin_port :: "16 word"
  sin_addr :: uint32_t

definition AF_INET :: "16 word" where "AF_INET = 2"
definition INADDR_ANY :: uint32_t where "INADDR_ANY = 0"
definition PORT :: "16 word" where "PORT = 9000"
definition FOLDER_PATH :: string where "FOLDER_PATH = ''/var/tmp''"

text \<open>\<open>htons\<close> on a little-endian machine.\<close>

definition htons :: "16 word \<Rightarrow> 16 word" where
  "htons w = push_bit 8 (take_bit 8 w) + drop_bit 8 w"

definition server_addr :: sockaddr_in where
  "server_addr = \<lparr>sin_family = AF_INET, sin_port = htons PORT, sin_addr = INADDR_ANY\<rparr>"

section \<open>The process\<close>

record process_state =
  open_fds :: "int set"
  session_leader :: bool
  file_mask :: int
  cwd :: string
  bound :: "(int \<times> sockaddr_in) option"
  listening :: "int option"

record setup_os =
  socket_rc :: int
  setsockopt_rc :: int
  bind_rc :: int
  fork_rc :: int
  setsid_rc :: int
  chdir_rc :: int
  listen_rc :: int

datatype outcome = Return_rc int | Process_exit int

definition close_all :: "int set \<Rightarrow> process_state \<Rightarrow> process_state" where
  "close_all F p = p\<lparr>open_fds := open_fds p - F\<rparr>"

definition createDaemon :: "setup_os \<Rightarrow> process_state \<Rightarrow> outcome \<times> process_state" where
  "createDaemon OS p =
     (if fork_rc OS < 0 then (Return_rc (- 1), p)
      else if 0 < fork_rc OS then (Process_exit 0, p)
      else if setsid_rc OS = - 1 then (Return_rc (- 1), p)
      else let p1 = p\<lparr>session_leader := True, file_mask := 0\<rparr>;
               p2 = (if chdir_rc OS = 0 then p1\<lparr>cwd := FOLDER_PATH\<rparr> else p1)
           in (Return_rc 0, close_all {0, 1, 2} p2))"

text \<open>\<open>listen\<close> fails on a descriptor that is not open.\<close>

definition createSocket :: "setup_os \<Rightarrow> bool \<Rightarrow> process_state \<Rightarrow> outcome \<times> process_state" where
  "createSocket OS daemon_mode p =
     (let sockfd = socket_rc OS
      in if sockfd < 0 then (Return_rc (- 1), p)
         else let p1 = p\<lparr>open_fds := insert sockfd (open_fds p)\<rparr>
         in if setsockopt_rc OS \<noteq> 0 then (Return_rc (- 1), p1)
         else if bind_rc OS < 0 then (Return_rc (- 1), p1)
         else let p2 = p1\<lparr>bound := Some (sockfd, server_addr)\<rparr>;
                  (r, p3) = (if daemon_mode then createDaemon OS p2 else (Return_rc 0, p2))
         in (case r of
               Process_exit code \<Rightarrow> (Process_exit code, p3)
             | Return_rc v \<Rightarrow>
                 if v < 0 then (Return_rc (- 1), p3)
                 else if listen_rc OS < 0 \<or> sockfd \<notin> open_fds p3 then (Return_rc (- 1), p3)
                 else (Return_rc sockfd, p3\<lparr>listening := Some sockfd\<rparr>)))"

section \<open>\<open>main\<close>\<close>

text \<open>The program has ended, or it waits for the next client.\<close>

datatype main_result = Ended outcome | Serving

definition server_main :: "setup_os \<Rightarrow> string list \<Rightarrow> accept_round list \<Rightarrow> process_state \<Rightarrow>
    (main_result \<times> process_state \<times> main_state) option" where
  "server_main OS argv rounds p =
     (let daemon_mode = (length argv = 2 \<and> argv ! 1 = ''-d'')
      in case createSocket OS daemon_mode p of
           (Process_exit code, p1) \<Rightarrow> Some (Ended (Process_exit code), p1, main_start)
         | (Return_rc sock_fd, p1) \<Rightarrow>
             if sock_fd < 0 then Some (Ended (Return_rc (- 1)), p1, main_start)
             else do { (left, s) \<leftarrow> accept_loop rounds main_start;
                       if left then Some (Ended (Return_rc 0), close_all {sock_fd} p1, s)
                       else Some (Serving, p1, s) })"

section \<open>The timer\<close>

text \<open>
  \<open>file_mutex\<close> held by another thread means that the call does not return. \<open>lost\<close> are files
  that nobody closes any more.
\<close>

record ('d, 'f) timer_state =
  file_mutex :: bool
  lost :: "'f list"
  target :: 'd

definition timestamp_line :: "byte list \<Rightarrow> byte list" where
  "timestamp_line timestamp =
     [116, 105, 109, 101, 115, 116, 97, 109, 112, 58] @ timestamp @ [NL]"

definition timer_handler :: "('d, 'f) dev_ops \<Rightarrow> byte list \<Rightarrow> ('d, 'f) timer_state \<Rightarrow>
    ('d, 'f) timer_state option" where
  "timer_handler ops timestamp s =
     (if file_mutex s then None
      else let line = timestamp_line timestamp; s1 = s\<lparr>file_mutex := True\<rparr>
      in do { (fd, d1) \<leftarrow> dev_open ops (target s1);
              case fd of
                None \<Rightarrow> Some (s1\<lparr>file_mutex := False, target := d1\<rparr>)
              | Some writefile \<Rightarrow>
                  do { (bytes_written, f1, d2) \<leftarrow> dev_write ops line writefile d1;
                       if sint bytes_written < 0
                       then Some (s1\<lparr>file_mutex := False, lost := lost s1 @ [f1], target := d2\<rparr>)
                       else Some (s1\<lparr>file_mutex := False, target := dev_close ops f1 d2\<rparr>) } })"

text \<open>First expiry and period in seconds; no timer, a timer that is not armed, or one that is.\<close>

definition timerInit :: "int \<Rightarrow> int \<Rightarrow> (nat \<times> nat) option option" where
  "timerInit timer_create_rc timer_settime_rc =
     (if timer_create_rc = - 1 then None
      else if timer_settime_rc = - 1 then Some None
      else Some (Some (10, 10)))"

text \<open>Under the device's contract a tick adds one command.\<close>

context char_device
begin

lemma timer_tick:
  assumes "good (target s)" and "\<not> file_mutex s" and "length timestamp < 64" and "NL \<notin> set timestamp"
  shows "\<exists>s'. timer_handler ops timestamp s = Some s' \<and> \<not> file_mutex s' \<and> sound (target s')
     \<and> (lost s' = lost s \<and> (cmds (target s'), pend (target s'))
            = spec_write (timestamp_line timestamp) (cmds (target s), pend (target s))
        \<or> length (lost s') = Suc (length (lost s)) \<and> cmds (target s') = cmds (target s))"
proof -
  let ?d = "target s" and ?l = "timestamp_line timestamp"
  have len: "length ?l < 2 ^ 31" using assms(3) by (simp add: timestamp_line_def)
  obtain f where f: "dev_open ops ?d = Some (Some f, ?d)" "usable f"
    using open_law [OF good_sound [OF assms(1)]] by blast
  obtain r d' where w: "dev_write ops ?l f ?d = Some (r, f, d')" "sound d'"
    "r \<in> {of_nat (length ?l), - 1}" "r = - 1 \<longrightarrow> cmds d' = cmds ?d"
    using write_defined [OF good_sound [OF assms(1)] f(2) len] by blast
  show ?thesis
  proof (cases "r = - 1")
    case True
    with f w assms(2) show ?thesis by (auto simp: timer_handler_def)
  next
    case False
    with w(3) have r: "r = of_nat (length ?l)" by blast
    have "\<not> sint r < 0" unfolding r using len by (simp add: sint_small)
    moreover have "(cmds d', pend d') = spec_write ?l (cmds ?d, pend ?d)"
      using write_law [OF assms(1) f(2) len] w(1) unfolding r by blast
    ultimately show ?thesis using f w assms(2) close_law [OF w(2)] by (auto simp: timer_handler_def)
  qed
qed

end

section \<open>Starting the server\<close>

text \<open>When the steps of the set-up succeed, and when the parent of a daemon ends.\<close>

definition setup_done :: "setup_os \<Rightarrow> bool \<Rightarrow> bool" where
  "setup_done OS daemon \<longleftrightarrow>
     0 \<le> socket_rc OS \<and> setsockopt_rc OS = 0 \<and> 0 \<le> bind_rc OS \<and> 0 \<le> listen_rc OS
     \<and> (daemon \<longrightarrow> fork_rc OS = 0 \<and> setsid_rc OS \<noteq> - 1 \<and> 2 < socket_rc OS)"

definition parent_done :: "setup_os \<Rightarrow> bool \<Rightarrow> bool" where
  "parent_done OS daemon \<longleftrightarrow>
     0 \<le> socket_rc OS \<and> setsockopt_rc OS = 0 \<and> 0 \<le> bind_rc OS \<and> daemon \<and> 0 < fork_rc OS"

lemma createSocket_failed:
  assumes "\<not> setup_done OS daemon" and "\<not> parent_done OS daemon"
  shows "fst (createSocket OS daemon p) = Return_rc (- 1)"
  using assms
  by (auto simp: createSocket_def createDaemon_def close_all_def setup_done_def parent_done_def Let_def)

lemma createSocket_parent: "parent_done OS daemon \<Longrightarrow> fst (createSocket OS daemon p) = Process_exit 0"
  by (simp add: createSocket_def createDaemon_def parent_done_def Let_def)

lemma createSocket_ready:
  assumes "setup_done OS daemon"
  shows "\<exists>p'. createSocket OS daemon p = (Return_rc (socket_rc OS), p')
     \<and> listening p' = Some (socket_rc OS) \<and> bound p' = Some (socket_rc OS, server_addr)
     \<and> socket_rc OS \<in> open_fds p' \<and> (daemon \<longrightarrow> session_leader p' \<and> open_fds p' \<inter> {0, 1, 2} = {})"
  using assms
  by (cases daemon) (auto simp: createSocket_def createDaemon_def close_all_def setup_done_def Let_def)

text \<open>C32: Started with any arguments, \<open>main\<close> does this: the parent of a daemon exits with 0;
  a failed step of the set-up ends the program with -1; otherwise the server listens on its
  port and runs the accept loop, and as soon as that has been left, and not before, it closes
  the socket and returns 0. As a daemon it leads its own session without standard descriptors,
  and it cannot start when one of these was closed and the socket took its number.\<close>
theorem server_main_outcomes:
  fixes argv :: "string list"
  assumes l: "accept_loop rounds main_start = Some (left, s)"
  defines "daemon \<equiv> length argv = 2 \<and> argv ! 1 = ''-d''"
  shows "\<exists>p'.
     if 0 \<le> socket_rc OS \<and> setsockopt_rc OS = 0 \<and> 0 \<le> bind_rc OS \<and> daemon \<and> 0 < fork_rc OS
     then server_main OS argv rounds p = Some (Ended (Process_exit 0), p', main_start)
     else if 0 \<le> socket_rc OS \<and> setsockopt_rc OS = 0 \<and> 0 \<le> bind_rc OS \<and> 0 \<le> listen_rc OS
          \<and> (daemon \<longrightarrow> fork_rc OS = 0 \<and> setsid_rc OS \<noteq> - 1 \<and> 2 < socket_rc OS)
     then server_main OS argv rounds p = Some (if left then Ended (Return_rc 0) else Serving, p', s)
          \<and> listening p' = Some (socket_rc OS) \<and> bound p' = Some (socket_rc OS, server_addr)
          \<and> (socket_rc OS \<in> open_fds p' \<longleftrightarrow> \<not> left)
          \<and> (daemon \<longrightarrow> session_leader p' \<and> open_fds p' \<inter> {0, 1, 2} = {})
     else server_main OS argv rounds p = Some (Ended (Return_rc (- 1)), p', main_start)"
proof -
  let ?main = "server_main OS argv rounds p" and ?cs = "createSocket OS daemon p"
  note m = server_main_def [of OS argv rounds p, folded daemon_def, unfolded Let_def]
  consider (parent) "parent_done OS daemon" | (ready) "\<not> parent_done OS daemon" "setup_done OS daemon"
    | (failed) "\<not> parent_done OS daemon" "\<not> setup_done OS daemon" by blast
  then show ?thesis
  proof cases
    case parent
    obtain p1 where "?cs = (Process_exit 0, p1)"
      using createSocket_parent [OF parent, of p] by (cases ?cs) simp
    then have "?main = Some (Ended (Process_exit 0), p1, main_start)"
      by (simp add: m)
    with parent show ?thesis by (simp add: parent_done_def)
  next
    case failed
    obtain p1 where "?cs = (Return_rc (- 1), p1)"
      using createSocket_failed [OF failed(2,1), of p] by (cases ?cs) simp
    then have "?main = Some (Ended (Return_rc (- 1)), p1, main_start)"
      by (simp add: m)
    with failed show ?thesis by (simp add: parent_done_def setup_done_def)
  next
    case ready
    obtain p1 where p1: "?cs = (Return_rc (socket_rc OS), p1)"
      "listening p1 = Some (socket_rc OS)" "bound p1 = Some (socket_rc OS, server_addr)"
      "socket_rc OS \<in> open_fds p1" "daemon \<longrightarrow> session_leader p1 \<and> open_fds p1 \<inter> {0, 1, 2} = {}"
      using createSocket_ready [OF ready(2), of p] by blast
    have "\<not> socket_rc OS < 0" using ready(2) by (simp add: setup_done_def)
    with p1(1) l have "?main = Some (if left then Ended (Return_rc 0) else Serving,
        if left then close_all {socket_rc OS} p1 else p1, s)"
      by (simp add: m)
    with p1 ready show ?thesis
      by (intro exI [of _ "if left then close_all {socket_rc OS} p1 else p1"])
         (auto simp: parent_done_def setup_done_def close_all_def)
  qed
qed

definition all_fine :: setup_os where
  "all_fine = \<lparr>socket_rc = 3, setsockopt_rc = 0, bind_rc = 0, fork_rc = 0, setsid_rc = 7, chdir_rc = 0,
     listen_rc = 0\<rparr>"

definition from_shell :: process_state where
  "from_shell = \<lparr>open_fds = {0, 1, 2}, session_leader = False, file_mask = 18, cwd = ''/root'',
     bound = None, listening = None\<rparr>"

definition interrupted_round :: accept_round where
  "interrupted_round = \<lparr>signals_head = [SIGTERM], signals_accept = [], accepted = 0, peer = 0,
     arg_ptr = NULL, create_rc = 0, new_thread = 0, seen_done = (\<lambda>_. False)\<rparr>"

theorem server_main_outcomes_witness:
  "(\<exists>p'. server_main all_fine [''aesdsocket'', ''-d''] [] from_shell = Some (Serving, p', main_start)
     \<and> listening p' = Some 3 \<and> open_fds p' \<inter> {0, 1, 2} = {} \<and> 3 \<in> open_fds p')
   \<and> (\<exists>p' s. server_main all_fine [''aesdsocket''] [interrupted_round] from_shell
        = Some (Ended (Return_rc 0), p', s) \<and> 3 \<notin> open_fds p')"
proof -
  have 1: "accept_loop [] main_start = Some (False, main_start)" by (simp add: main_start_def)
  have 2: "accept_loop [interrupted_round] main_start = Some (True, main_start\<lparr>exit_requested := True\<rparr>)"
    by (simp add: interrupted_round_def signalHandler_def SIGTERM_def)
  show ?thesis
    using server_main_outcomes [OF 1, where argv = "[''aesdsocket'', ''-d'']" and OS = all_fine and p = from_shell]
      server_main_outcomes [OF 2, where argv = "[''aesdsocket'']" and OS = all_fine and p = from_shell]
    by (auto simp: all_fine_def)
qed

text \<open>
  A tick of the timer on the character device: the time stamp becomes the newest command, or
  the write fails, the commands stay and the open file is lost.
\<close>

theorem timer_appends_timestamp:
  fixes s :: "(driver, kfile) timer_state"
  assumes "dev_good K (target s)" and "\<not> file_mutex s" and "pending (target s) = []"
    and "length timestamp < 64" and "NL \<notin> set timestamp"
  shows "\<exists>s'. timer_handler (aesd_ops K) timestamp s = Some s' \<and> \<not> file_mutex s' \<and> drv_inv (target s')
     \<and> (lost s' = lost s \<and> commands (target s') = last_n 10 (commands (target s) @ [timestamp_line timestamp])
        \<or> length (lost s') = Suc (length (lost s)) \<and> commands (target s') = commands (target s))"
proof -
  have "NL \<in> set (timestamp_line timestamp)" by (simp add: timestamp_line_def)
  with dev.timer_tick [OF assms(1,2,4,5)] assms(3) show ?thesis
    by (auto simp: spec_write_def dev_sound_def)
qed

end
