(* ===== verification/System_Calls.thy ===== *)
theory System_Calls
  imports Aesd_Base
begin

text \<open>
  \<^verbatim>\<open>examples/systemcalls/systemcalls.c\<close>: \<open>do_system\<close>, \<open>do_exec\<close> and
  \<open>do_exec_redirect\<close>. The operating system is an argument: which of \<open>fork\<close>, \<open>waitpid\<close>,
  \<open>open\<close> and \<open>dup2\<close> succeed, and how a program ends when it is executed. What the child
  process does before it ends is a trace of events, so that the properties can say which
  program runs with which descriptors, and what reaches which file.
\<close>

section \<open>How a process ends\<close>

text \<open>By \<open>exit\<close> with a code, or killed by a signal (with or without a core dump).\<close>

datatype child_end = Exited int | Killed nat bool

text \<open>The status that \<open>wait\<close> stores, and the two macros that read it.\<close>

definition wait_status :: "child_end \<Rightarrow> 32 word" where
  "wait_status e = (case e of
       Exited code \<Rightarrow> push_bit 8 (take_bit 8 (word_of_int code))
     | Killed signo core \<Rightarrow> (if core then of_nat signo + 128 else of_nat signo))"

definition WIFEXITED :: "32 word \<Rightarrow> bool" where
  "WIFEXITED st \<longleftrightarrow> take_bit 7 st = 0"

definition WEXITSTATUS :: "32 word \<Rightarrow> 32 word" where
  "WEXITSTATUS st = take_bit 8 (drop_bit 8 st)"

definition EXIT_FAILURE :: int where "EXIT_FAILURE = 1"

definition STDOUT_FILENO :: int where "STDOUT_FILENO = 1"

section \<open>Processes\<close>

text \<open>
  What the descriptors of a process refer to (a file or terminal by its name), and what
  \<open>printf\<close> has left in the buffer of \<open>stdout\<close>. \<open>fork\<close> copies both.
\<close>

type_synonym fd_table = "int \<rightharpoonup> string"

record process =
  fds :: fd_table
  stdout_buf :: string

datatype event =
    Truncated string
  | Executed "string option" "string option list" fd_table
  | Flushed "string option" string

text \<open>
  \<open>execv_end path argv fds\<close> is how the executed program ends, nothing when \<open>execv\<close> fails;
  \<open>open_fd\<close> is the result of \<open>open\<close>.
\<close>

record os =
  fork_ok :: bool
  waitpid_ok :: bool
  open_fd :: int
  dup2_ok :: bool
  execv_end :: "string option \<Rightarrow> string option list \<Rightarrow> fd_table \<Rightarrow> child_end option"

text \<open>\<open>exit\<close> writes out what \<open>stdout\<close> still buffers.\<close>

definition child_exit :: "int \<Rightarrow> process \<Rightarrow> 32 word \<times> event list" where
  "child_exit code p =
     (wait_status (Exited code),
      if stdout_buf p = [] then [] else [Flushed (fds p STDOUT_FILENO) (stdout_buf p)])"

definition close_fd :: "int \<Rightarrow> process \<Rightarrow> process" where
  "close_fd fd p = p\<lparr>fds := (fds p)(fd := None)\<rparr>"

definition dup2 :: "int \<Rightarrow> int \<Rightarrow> process \<Rightarrow> process" where
  "dup2 old new p = p\<lparr>fds := (fds p)(new := fds p old)\<rparr>"

section \<open>\<open>do_system\<close>\<close>

datatype message = PerrorSystem | ExitedNormally "32 word" | NotExitedNormally

definition do_system :: "(string \<Rightarrow> 32 word) \<Rightarrow> string option \<Rightarrow> bool \<times> message list" where
  "do_system system cmd = (case cmd of
       None \<Rightarrow> (False, [])
     | Some c \<Rightarrow>
         let status = system c
         in if status = - 1 then (False, [PerrorSystem])
            else if WIFEXITED status
            then let exit_status = WEXITSTATUS status
                 in if exit_status = 0 then (True, [ExitedNormally exit_status])
                    else (False, [ExitedNormally exit_status, NotExitedNormally])
            else (False, [NotExitedNormally]))"

section \<open>\<open>do_exec\<close> and \<open>do_exec_redirect\<close>\<close>

text \<open>
  The loop that copies the variable arguments, and the array with its terminating \<open>NULL\<close>.
  An array without elements, an overflowing size and too few arguments are undefined.
\<close>

fun copy_args :: "nat \<Rightarrow> string option list \<Rightarrow> string option list option" where
  "copy_args 0 va = Some []"
| "copy_args (Suc n) [] = None"
| "copy_args (Suc n) (a # va) = map_option ((#) a) (copy_args n va)"

definition command_array :: "int \<Rightarrow> string option list \<Rightarrow> string option list option" where
  "command_array count va =
     (if count + 1 \<le> 0 \<or> 2 ^ 31 \<le> count + 1 then None
      else map_option (\<lambda>args. args @ [None]) (copy_args (nat count) va))"

text \<open>\<open>argv\<close> ends at its first \<open>NULL\<close>.\<close>

definition argv_of :: "string option list \<Rightarrow> string option list" where
  "argv_of command = takeWhile (\<lambda>a. a \<noteq> None) command"

definition exec_child :: "os \<Rightarrow> string option list \<Rightarrow> process \<Rightarrow> 32 word \<times> event list" where
  "exec_child OS command p =
     (case execv_end OS (command ! 0) (argv_of command) (fds p) of
        Some e \<Rightarrow> (wait_status e, [Executed (command ! 0) (argv_of command) (fds p)])
      | None \<Rightarrow> child_exit EXIT_FAILURE p)"

text \<open>The parent's part.\<close>

definition await_child :: "os \<Rightarrow> 32 word \<Rightarrow> bool" where
  "await_child OS status =
     (if \<not> waitpid_ok OS then False
      else if WIFEXITED status \<and> WEXITSTATUS status = 0 then True
      else False)"

definition do_exec :: "os \<Rightarrow> int \<Rightarrow> string option list \<Rightarrow> process \<Rightarrow> (bool \<times> event list) option" where
  "do_exec OS count va p =
     do { command \<leftarrow> command_array count va;
          Some (if \<not> fork_ok OS then (False, [])
                else let (status, events) = exec_child OS command p
                     in (await_child OS status, events)) }"

definition redirect_child :: "os \<Rightarrow> string \<Rightarrow> string option list \<Rightarrow> process \<Rightarrow> 32 word \<times> event list" where
  "redirect_child OS outputfile command p =
     (let fd = open_fd OS
      in if fd < 0 then child_exit EXIT_FAILURE p
         else let p1 = p\<lparr>fds := (fds p)(fd \<mapsto> outputfile)\<rparr>
              in if \<not> dup2_ok OS
                 then let (status, events) = child_exit EXIT_FAILURE (close_fd fd p1)
                      in (status, Truncated outputfile # events)
                 else let (status, events) = exec_child OS command (close_fd fd (dup2 fd STDOUT_FILENO p1))
                      in (status, Truncated outputfile # events))"

definition do_exec_redirect :: "os \<Rightarrow> string \<Rightarrow> int \<Rightarrow> string option list \<Rightarrow> process \<Rightarrow>
    (bool \<times> event list) option" where
  "do_exec_redirect OS outputfile count va p =
     do { command \<leftarrow> command_array count va;
          Some (if \<not> fork_ok OS then (False, [])
                else let (status, events) = redirect_child OS outputfile command p
                     in (await_child OS status, events)) }"

section \<open>Reading the status\<close>

lemma wait_exited [simp]:
  "WIFEXITED (wait_status (Exited code))"
  "WEXITSTATUS (wait_status (Exited code)) = take_bit 8 (word_of_int code)"
  unfolding WIFEXITED_def WEXITSTATUS_def wait_status_def
  by (simp_all, (rule bit_word_eqI, auto simp: bit_simps)+)

lemma exit_code_zero: "take_bit 8 (word_of_int code :: 32 word) = 0 \<longleftrightarrow> code mod 256 = 0"
proof -
  have "take_bit 8 (word_of_int code :: 32 word) = word_of_int (code mod 256)"
    by (rule trans [OF take_bit_of_int]) (simp only: take_bit_eq_mod, simp)
  moreover have "(word_of_int (code mod 256) :: 32 word) = 0 \<longleftrightarrow> code mod 256 = 0"
    using zdvd_not_zless [of "code mod 256" "2 ^ 32"] pos_mod_bound [of 256 code] pos_mod_sign [of 256 code]
    by (auto simp: word_of_int_eq_0_iff)
  ultimately show ?thesis by simp
qed

lemma killed_low_bits:
  assumes "signo < 128"
  shows "take_bit 7 (wait_status (Killed signo core)) = of_nat signo"
proof -
  have "take_bit 7 (of_nat (signo + (if core then 128 else 0)) :: 32 word) = of_nat signo"
    using assms by (simp only: take_bit_of_nat) (auto simp: take_bit_eq_mod)
  then show ?thesis by (cases core) (simp_all add: wait_status_def)
qed

lemma of_nat_low: "n < 2 ^ 32 \<Longrightarrow> unat (of_nat n :: 32 word) = n"
  by (simp add: unat_of_nat take_bit_nat_eq_self)

lemma wait_killed [simp]:
  assumes "0 < signo" and "signo < 127"
  shows "\<not> WIFEXITED (wait_status (Killed signo core))"
proof -
  have "(of_nat signo :: 32 word) \<noteq> 0" using of_nat_low [of signo] assms by force
  then show ?thesis using killed_low_bits [of signo core] assms by (simp add: WIFEXITED_def)
qed

text \<open>The endings that a status can hold, and that no status is \<open>system\<close>'s error value.\<close>

fun real_end :: "child_end \<Rightarrow> bool" where
  "real_end (Exited code) = True"
| "real_end (Killed signo core) = (0 < signo \<and> signo < 127)"

lemma minus_one_low_bits: "take_bit 7 (- 1 :: 32 word) = of_nat 127"
  by (simp add: take_bit_minus_one_eq_mask mask_eq_exp_minus_1)

lemma wait_status_not_error: "real_end e \<Longrightarrow> wait_status e \<noteq> - 1"
proof (cases e)
  case (Exited code)
  have "\<not> WIFEXITED (- 1)" unfolding WIFEXITED_def minus_one_low_bits by simp
  then show ?thesis using wait_exited(1) [of code] Exited by force
next
  case (Killed signo core)
  assume "real_end e"
  with Killed have s: "0 < signo" "signo < 127" by simp_all
  have "(of_nat signo :: 32 word) \<noteq> of_nat 127"
  proof
    assume "(of_nat signo :: 32 word) = of_nat 127"
    then have "unat (of_nat signo :: 32 word) = unat (of_nat 127 :: 32 word)" by (rule arg_cong)
    then show False using of_nat_low [of signo] of_nat_low [of 127] s by simp
  qed
  then show ?thesis using killed_low_bits [of signo core] minus_one_low_bits s Killed by auto
qed

text \<open>Success is to exit with a code whose low eight bits are zero.\<close>

fun succeeds :: "child_end \<Rightarrow> bool" where
  "succeeds (Exited code) = (code mod 256 = 0)"
| "succeeds (Killed signo core) = False"

lemma status_ok:
  "real_end e \<Longrightarrow> (WIFEXITED (wait_status e) \<and> WEXITSTATUS (wait_status e) = 0) = succeeds e"
  by (cases e) (simp_all add: exit_code_zero)

lemma await_child_iff: "real_end e \<Longrightarrow> await_child OS (wait_status e) = (waitpid_ok OS \<and> succeeds e)"
  using status_ok [of e] by (auto simp: await_child_def)

section \<open>The argument array\<close>

lemma copy_args_take: "copy_args n va = (if n \<le> length va then Some (take n va) else None)"
  by (induction n va rule: copy_args.induct) auto

lemma command_array_ok:
  assumes "0 < length va" and "length va < 2 ^ 31 - 1"
  shows "command_array (int (length va)) va = Some (va @ [None])"
  using assms by (simp add: command_array_def copy_args_take)

lemma argv_of_all: "None \<notin> set va \<Longrightarrow> argv_of (va @ [None]) = va"
  by (induction va) (auto simp: argv_of_def intro: option.exhaust_sel)

section \<open>Properties\<close>

text \<open>What \<open>system\<close> documents: its own error value, or the status of the shell.\<close>

definition system_status :: "child_end option \<Rightarrow> 32 word" where
  "system_status r = (case r of None \<Rightarrow> - 1 | Some e \<Rightarrow> wait_status e)"

text \<open>C39: \<open>do_system\<close> is true exactly when the command exits with status 0 (modulo 256); a
  command that exits with another status is reported both as exited normally and as not.\<close>
theorem do_system_outcomes:
  assumes "\<And>e. run cmd = Some e \<Longrightarrow> real_end e"
  shows "do_system (\<lambda>c. system_status (run c)) (Some cmd) =
    (case run cmd of
       None \<Rightarrow> (False, [PerrorSystem])
     | Some (Killed signo core) \<Rightarrow> (False, [NotExitedNormally])
     | Some (Exited code) \<Rightarrow>
         if code mod 256 = 0 then (True, [ExitedNormally 0])
         else (False, [ExitedNormally (take_bit 8 (word_of_int code)), NotExitedNormally]))"
proof (cases "run cmd")
  case None
  then show ?thesis by (simp add: do_system_def system_status_def)
next
  case (Some e)
  then have e: "real_end e" using assms by blast
  from wait_status_not_error [OF this] e Some show ?thesis
    by (cases e) (simp_all add: do_system_def system_status_def exit_code_zero Let_def)
qed

theorem do_system_outcomes_witness:
  "real_end (Exited 256)
   \<and> do_system (\<lambda>c. system_status (Some (Exited 256))) (Some ''true'') = (True, [ExitedNormally 0])
   \<and> do_system (\<lambda>c. system_status (Some (Exited 3))) (Some ''ls'')
       = (False, [ExitedNormally (take_bit 8 3), NotExitedNormally])"
  using do_system_outcomes [of "\<lambda>_. Some (Exited 256)" "''true''"]
    do_system_outcomes [of "\<lambda>_. Some (Exited 3)" "''ls''"] by simp

text \<open>The value of a call whose child has run the command.\<close>

definition exec_value :: "os \<Rightarrow> child_end option \<Rightarrow> bool" where
  "exec_value OS r \<longleftrightarrow> waitpid_ok OS \<and> (\<exists>e. r = Some e \<and> succeeds e)"

lemma await_exit_failure [simp]: "\<not> await_child OS (wait_status (Exited EXIT_FAILURE))"
  using await_child_iff [of "Exited EXIT_FAILURE" OS] by (simp add: EXIT_FAILURE_def)

lemma exec_child_cases:
  assumes "\<And>e. execv_end OS (Some path) (Some path # va) (fds p) = Some e \<Longrightarrow> real_end e"
    and "None \<notin> set va"
  shows "\<exists>status events. exec_child OS (Some path # va @ [None]) p = (status, events)
     \<and> await_child OS status = exec_value OS (execv_end OS (Some path) (Some path # va) (fds p))
     \<and> (execv_end OS (Some path) (Some path # va) (fds p) \<noteq> None \<longrightarrow>
          events = [Executed (Some path) (Some path # va) (fds p)])"
proof -
  have "argv_of (Some path # va @ [None]) = Some path # va"
    using argv_of_all [of "Some path # va"] assms(2) by simp
  then show ?thesis
    using assms(1) by (cases "execv_end OS (Some path) (Some path # va) (fds p)")
      (simp_all add: exec_child_def exec_value_def child_exit_def await_child_iff)
qed

text \<open>C34: \<open>do_exec\<close> executes the command with exactly the given arguments and the
  caller's descriptors, and is true exactly when \<open>fork\<close>, \<open>execv\<close> and \<open>waitpid\<close> succeed
  and the command exits with status 0.\<close>
theorem do_exec_runs_command:
  fixes path :: string and va :: "string option list"
  defines "argv \<equiv> Some path # va"
  assumes "None \<notin> set va" and "length va < 2 ^ 31 - 2"
    and "\<And>e. execv_end OS (Some path) argv (fds p) = Some e \<Longrightarrow> real_end e"
  shows "\<exists>events. do_exec OS (int (length argv)) argv p
       = Some (fork_ok OS \<and> waitpid_ok OS
               \<and> (\<exists>e. execv_end OS (Some path) argv (fds p) = Some e \<and> succeeds e), events)
     \<and> (fork_ok OS \<and> execv_end OS (Some path) argv (fds p) \<noteq> None \<longrightarrow>
          events = [Executed (Some path) argv (fds p)])"
proof -
  have "command_array (int (length argv)) argv = Some (Some path # va @ [None])"
    using command_array_ok [of argv] assms(3) by (simp add: argv_def)
  moreover obtain status events where
    "exec_child OS (Some path # va @ [None]) p = (status, events)"
    "await_child OS status = exec_value OS (execv_end OS (Some path) argv (fds p))"
    "execv_end OS (Some path) argv (fds p) \<noteq> None \<Longrightarrow> events = [Executed (Some path) argv (fds p)]"
    using exec_child_cases [of OS path va p] assms(2,4) unfolding argv_def by metis
  ultimately show ?thesis by (auto simp: do_exec_def exec_value_def)
qed


text \<open>A system in which every program runs and exits with the number of its arguments.\<close>

definition counting_os :: os where
  "counting_os = \<lparr>fork_ok = True, waitpid_ok = True, open_fd = 3, dup2_ok = True,
     execv_end = (\<lambda>path argv t. if path = Some ''/bin/no'' then None
                                 else Some (Exited (int (length argv) - 1)))\<rparr>"

definition shell_process :: process where
  "shell_process = \<lparr>fds = [0 \<mapsto> ''tty'', 1 \<mapsto> ''tty'', 2 \<mapsto> ''tty''], stdout_buf = ''hi''\<rparr>"

theorem do_exec_runs_command_witness:
  "(\<exists>events. do_exec counting_os 1 [Some ''/bin/ls''] shell_process = Some (True, events)
       \<and> events = [Executed (Some ''/bin/ls'') [Some ''/bin/ls''] (fds shell_process)])
   \<and> (\<exists>events. do_exec counting_os 2 [Some ''/bin/ls'', Some ''x''] shell_process = Some (False, events))"
  using do_exec_runs_command [of "[]" counting_os "''/bin/ls''" shell_process]
    do_exec_runs_command [of "[Some ''x'']" counting_os "''/bin/ls''" shell_process]
  by (auto simp: counting_os_def)

text \<open>C33: \<open>do_exec_redirect\<close> truncates the file and executes the command with standard
  output on it and every other descriptor as the caller's, with \<open>do_exec\<close>'s result.\<close>
theorem do_exec_redirect_redirects:
  fixes path :: string and va :: "string option list"
  defines "argv \<equiv> Some path # va"
  assumes "None \<notin> set va" and "length va < 2 ^ 31 - 2"
    and fresh: "0 \<le> open_fd OS" "fds p (open_fd OS) = None" "open_fd OS \<noteq> STDOUT_FILENO"
    and "\<And>e. execv_end OS (Some path) argv ((fds p)(STDOUT_FILENO \<mapsto> outputfile)) = Some e \<Longrightarrow> real_end e"
    and "fork_ok OS" and "dup2_ok OS"
  shows "\<exists>events. do_exec_redirect OS outputfile (int (length argv)) argv p
       = Some (waitpid_ok OS \<and> (\<exists>e. execv_end OS (Some path) argv ((fds p)(STDOUT_FILENO \<mapsto> outputfile)) = Some e
                                    \<and> succeeds e), Truncated outputfile # events)
     \<and> (execv_end OS (Some path) argv ((fds p)(STDOUT_FILENO \<mapsto> outputfile)) \<noteq> None \<longrightarrow>
          events = [Executed (Some path) argv ((fds p)(STDOUT_FILENO \<mapsto> outputfile))])"
proof -
  let ?fd = "open_fd OS"
  let ?p = "p\<lparr>fds := (fds p)(STDOUT_FILENO \<mapsto> outputfile)\<rparr>"
  have "command_array (int (length argv)) argv = Some (Some path # va @ [None])"
    using command_array_ok [of argv] assms(3) by (simp add: argv_def)
  moreover have "\<And>e. execv_end OS (Some path) (Some path # va) (fds ?p) = Some e \<Longrightarrow> real_end e"
    using assms(7) by (simp add: argv_def)
  from exec_child_cases [of OS path va ?p, OF this assms(2)] obtain status events where
    "exec_child OS (Some path # va @ [None]) ?p = (status, events)"
    "await_child OS status = exec_value OS (execv_end OS (Some path) argv (fds ?p))"
    "execv_end OS (Some path) argv (fds ?p) \<noteq> None \<Longrightarrow> events = [Executed (Some path) argv (fds ?p)]"
    unfolding argv_def by blast
  moreover have "close_fd ?fd (dup2 ?fd STDOUT_FILENO (p\<lparr>fds := (fds p)(?fd \<mapsto> outputfile)\<rparr>)) = ?p"
    using fresh by (auto simp: close_fd_def dup2_def fun_eq_iff)
  ultimately show ?thesis
    using assms(8,9) fresh(1) by (auto simp: do_exec_redirect_def redirect_child_def exec_value_def Let_def)
qed

theorem do_exec_redirect_redirects_witness:
  "\<exists>events. do_exec_redirect counting_os ''out'' 1 [Some ''/bin/ls''] shell_process
       = Some (True, Truncated ''out'' # events)
     \<and> events = [Executed (Some ''/bin/ls'') [Some ''/bin/ls''] ((fds shell_process)(1 \<mapsto> ''out''))]"
  using do_exec_redirect_redirects [of "[]" counting_os shell_process "''/bin/ls''" "''out''"]
  by (auto simp: counting_os_def shell_process_def STDOUT_FILENO_def)

text \<open>C38: When the caller's standard output is closed, \<open>open\<close> gives the file its number and
  the cleanup closes it again: the command runs without standard output. And when the
  command cannot be executed, what the caller had printed but not flushed is written into
  the output file.\<close>
theorem redirect_loses_or_pollutes_output:
  assumes "dup2_ok OS" and "fork_ok OS" and "0 \<le> open_fd OS" and "fds p (open_fd OS) = None"
    and "command_array count va = Some command"
  shows "\<exists>r events. do_exec_redirect OS outputfile count va p = Some (r, events)
     \<and> (open_fd OS = STDOUT_FILENO \<and> execv_end OS (command ! 0) (argv_of command) (fds p) \<noteq> None \<longrightarrow>
          events = [Truncated outputfile, Executed (command ! 0) (argv_of command) (fds p)])
     \<and> (open_fd OS \<noteq> STDOUT_FILENO \<and> stdout_buf p \<noteq> []
          \<and> execv_end OS (command ! 0) (argv_of command) ((fds p)(STDOUT_FILENO \<mapsto> outputfile)) = None \<longrightarrow>
          \<not> r \<and> events = [Truncated outputfile, Flushed (Some outputfile) (stdout_buf p)])"
proof -
  let ?fd = "open_fd OS"
  let ?c = "close_fd ?fd (dup2 ?fd STDOUT_FILENO (p\<lparr>fds := (fds p)(?fd \<mapsto> outputfile)\<rparr>))"
  have 1: "?c = p" if "?fd = STDOUT_FILENO"
  proof -
    have "fds ?c = fds p" using that assms(4) by (auto simp: close_fd_def dup2_def fun_eq_iff)
    then show ?thesis by (simp add: close_fd_def dup2_def)
  qed
  have 2: "?c = p\<lparr>fds := (fds p)(STDOUT_FILENO \<mapsto> outputfile)\<rparr>" if "?fd \<noteq> STDOUT_FILENO"
    using that assms(4) by (auto simp: close_fd_def dup2_def fun_eq_iff)
  show ?thesis
  proof (cases "?fd = STDOUT_FILENO")
    case True
    with 1 [OF True] assms show ?thesis
      by (auto simp: do_exec_redirect_def redirect_child_def exec_child_def Let_def split: prod.split)
  next
    case False
    with 2 [OF False] assms show ?thesis
      by (auto simp: do_exec_redirect_def redirect_child_def exec_child_def child_exit_def Let_def split: prod.split)
  qed
qed

theorem redirect_loses_or_pollutes_output_witness:
  "(\<exists>r. do_exec_redirect (counting_os\<lparr>open_fd := 1\<rparr>) ''out'' 1 [Some ''/bin/ls'']
       (shell_process\<lparr>fds := [0 \<mapsto> ''tty'']\<rparr>)
     = Some (r, [Truncated ''out'', Executed (Some ''/bin/ls'') [Some ''/bin/ls''] [0 \<mapsto> ''tty'']]))
   \<and> do_exec_redirect counting_os ''out'' 1 [Some ''/bin/no''] shell_process
     = Some (False, [Truncated ''out'', Flushed (Some ''out'') ''hi''])"
  using redirect_loses_or_pollutes_output [of "counting_os\<lparr>open_fd := 1\<rparr>" "shell_process\<lparr>fds := [0 \<mapsto> ''tty'']\<rparr>"
      1 "[Some ''/bin/ls'']" "[Some ''/bin/ls'', None]" "''out''"]
    redirect_loses_or_pollutes_output [of counting_os shell_process 1 "[Some ''/bin/no'']"
      "[Some ''/bin/no'', None]" "''out''"]
  by (auto simp: counting_os_def shell_process_def STDOUT_FILENO_def command_array_def argv_of_def)

end
