(* ===== verification/Writer.thy ===== *)
theory Writer
  imports Aesd_Base
begin

text \<open>
  \<^verbatim>\<open>finder-app/writer.c\<close>: the command that writes a string to a file. The file system is
  a map from paths to contents; what \<open>open\<close>, \<open>write\<close> and \<open>close\<close> return is an argument.
  The result is the exit status and the file system; logging is omitted.
\<close>

record writer_os =
  open_rc :: int
  write_rc :: ssize_t
  close_rc :: int

record exit_state =
  exit_code :: int
  files :: "string \<rightharpoonup> string"

text \<open>\<open>open\<close> with \<open>O_CREAT | O_TRUNC\<close>, and the first \<open>n\<close> bytes of a string stored in a file.\<close>

definition truncate_file :: "string \<Rightarrow> (string \<rightharpoonup> string) \<Rightarrow> (string \<rightharpoonup> string)" where
  "truncate_file path fs = fs(path \<mapsto> [])"

definition store_bytes :: "string \<Rightarrow> string \<Rightarrow> ssize_t \<Rightarrow> (string \<rightharpoonup> string) \<Rightarrow> (string \<rightharpoonup> string)" where
  "store_bytes path s n fs = (if sint n < 0 then fs else fs(path \<mapsto> take (unat n) s))"

definition writer_main :: "writer_os \<Rightarrow> string list \<Rightarrow> (string \<rightharpoonup> string) \<Rightarrow> exit_state" where
  "writer_main OS argv fs =
     (if length argv \<noteq> 3 then \<lparr>exit_code = 1, files = fs\<rparr>
      else let writefile = argv ! 1; writestr = argv ! 2; fd = open_rc OS
      in if fd = - 1 then \<lparr>exit_code = 1, files = fs\<rparr>
         else let fs1 = truncate_file writefile fs;
                  writestr_len = (of_nat (length writestr) :: ssize_t);
                  bytes_written = write_rc OS;
                  fs2 = store_bytes writefile writestr bytes_written fs1
              in if bytes_written = - 1 \<or> bytes_written \<noteq> writestr_len
                 then \<lparr>exit_code = 1, files = fs2\<rparr>
                 else if close_rc OS = - 1
                 then \<lparr>exit_code = 1, files = fs2\<rparr>
                 else \<lparr>exit_code = 0, files = fs2\<rparr>)"

text \<open>C36: \<open>writer\<close> exits with 0 or 1, and with 0 exactly when it has two arguments, the file
  could be opened, the whole string was written in one call and the file could be closed; then
  the file holds the string. When it exits with 1 although the file was opened, the file holds
  a prefix of the string (all of it when only \<open>close\<close> failed). No other file changes.\<close>
theorem writer_exit_status:
  fixes OS :: writer_os and argv :: "string list" and fs :: "string \<rightharpoonup> string"
  assumes len: "length (argv ! 2) < 2 ^ 63"
  defines "r \<equiv> writer_main OS argv fs"
  shows "exit_code r \<in> {0, 1}
     \<and> (exit_code r = 0 \<longleftrightarrow> length argv = 3 \<and> open_rc OS \<noteq> - 1
          \<and> write_rc OS = of_nat (length (argv ! 2)) \<and> close_rc OS \<noteq> - 1)
     \<and> (exit_code r = 0 \<longrightarrow> files r (argv ! 1) = Some (argv ! 2))
     \<and> (exit_code r = 1 \<and> length argv = 3 \<and> open_rc OS \<noteq> - 1 \<longrightarrow>
          (\<exists>s. files r (argv ! 1) = Some s \<and> prefix s (argv ! 2)))
     \<and> (\<forall>path. path \<noteq> argv ! 1 \<longrightarrow> files r path = fs path)"
proof -
  let ?n = "of_nat (length (argv ! 2)) :: ssize_t"
  have n: "unat ?n = length (argv ! 2)" "\<not> sint ?n < 0" "?n \<noteq> - 1"
    using len by (simp_all add: sint_small of_nat_not_minus_one)
  show ?thesis
    using n unfolding r_def
    by (auto simp: writer_main_def store_bytes_def truncate_file_def Let_def take_is_prefix)
qed

theorem writer_exit_status_witness:
  "exit_code (writer_main \<lparr>open_rc = 3, write_rc = 2, close_rc = 0\<rparr> [''writer'', ''/f'', ''hi''] Map.empty) = 0
   \<and> files (writer_main \<lparr>open_rc = 3, write_rc = 2, close_rc = 0\<rparr> [''writer'', ''/f'', ''hi''] Map.empty) ''/f''
       = Some ''hi''"
  using writer_exit_status [of "[''writer'', ''/f'', ''hi'']" "\<lparr>open_rc = 3, write_rc = 2, close_rc = 0\<rparr>" Map.empty]
  by auto

end
