(* ===== verification/Threading.thy ===== *)
theory Threading
  imports Aesd_Base
begin

text \<open>
  \<^verbatim>\<open>examples/threading/threading.c\<close>: a thread that sleeps, takes a mutex, sleeps and gives
  it back, and the function that starts it. What \<open>malloc\<close>, \<open>pthread_create\<close> and the mutex
  calls return is an argument; the thread's calls are a trace. The product in the argument
  of \<open>usleep\<close> is computed in \<open>int\<close>: an overflow is undefined.
\<close>

record thread_data =
  mutex :: addr
  wait_to_obtain_ms :: int
  wait_to_release_ms :: int
  thread_complete_success :: bool

type_synonym data_heap = "addr \<rightharpoonup> thread_data"

datatype call = Usleep uint32_t | Locked addr | Unlocked addr

definition int_times :: "int \<Rightarrow> int \<Rightarrow> int option" where
  "int_times a b = (if - (2 ^ 31) \<le> a * b \<and> a * b < 2 ^ 31 then Some (a * b) else None)"

definition threadfunc :: "int \<Rightarrow> int \<Rightarrow> thread_data \<Rightarrow> (call list \<times> thread_data) option" where
  "threadfunc lock_rc unlock_rc d =
     do { us \<leftarrow> int_times (wait_to_obtain_ms d) 1000;
          if lock_rc \<noteq> 0 then Some ([Usleep (word_of_int us)], d)
          else do {
            us' \<leftarrow> int_times (wait_to_release_ms d) 1000;
            let calls = [Usleep (word_of_int us), Locked (mutex d), Usleep (word_of_int us')];
            if unlock_rc \<noteq> 0 then Some (calls, d)
            else Some (calls @ [Unlocked (mutex d)], d\<lparr>thread_complete_success := True\<rparr>) } }"

text \<open>
  \<open>ptr\<close>, \<open>rc\<close> and \<open>tid\<close> are the results of \<open>malloc\<close> and \<open>pthread_create\<close> and the identifier
  that the latter stores in \<open>*thread\<close>. The second component of the result is the thread that
  was started: its identifier and its argument.
\<close>

definition start_thread_obtaining_mutex :: "addr \<Rightarrow> int \<Rightarrow> nat \<Rightarrow> addr \<Rightarrow> int \<Rightarrow> int \<Rightarrow> data_heap \<Rightarrow>
    bool \<times> (nat \<times> addr) option \<times> data_heap" where
  "start_thread_obtaining_mutex ptr rc tid m obtain_ms release_ms h =
     (if ptr = NULL then (False, None, h)
      else let h1 = h(ptr \<mapsto> \<lparr>mutex = m, wait_to_obtain_ms = obtain_ms,
                       wait_to_release_ms = release_ms, thread_complete_success = False\<rparr>)
           in if rc \<noteq> 0 then (False, None, h1(ptr := None))
              else (True, Some (tid, ptr), h1))"

lemma int_times_ms: "int_times a 1000 = (if \<bar>a\<bar> \<le> 2147483 then Some (a * 1000) else None)"
proof -
  have "- (2 ^ 31) \<le> a * 1000 \<and> a * 1000 < 2 ^ 31 \<longleftrightarrow> \<bar>a\<bar> \<le> 2147483"
    by (simp only: abs_le_iff) (simp, presburger)
  then show ?thesis by (simp add: int_times_def)
qed

text \<open>C37: Starting a thread either fails and leaves the heap as it was, or returns true with the
  thread's identifier and hands the thread a new block with its parameters. The thread then,
  with waits that fit, sleeps for the first wait, locks the mutex, sleeps for the second,
  unlocks it and only then marks its block as successful; when the lock fails it leaves mutex
  and block alone, and when the unlock fails it does not mark the block.\<close>
theorem started_thread_completes:
  assumes "h ptr = None" and "\<bar>obtain_ms\<bar> \<le> 2147483" and "\<bar>release_ms\<bar> \<le> 2147483"
  shows "case start_thread_obtaining_mutex ptr rc tid m obtain_ms release_ms h of
      (False, started, h') \<Rightarrow> (ptr = NULL \<or> rc \<noteq> 0) \<and> started = None \<and> h' = h
    | (True, started, h') \<Rightarrow> ptr \<noteq> NULL \<and> rc = 0 \<and> started = Some (tid, ptr)
        \<and> (\<forall>p. p \<noteq> ptr \<longrightarrow> h' p = h p)
        \<and> (\<exists>d. h' ptr = Some d \<and> mutex d = m \<and> wait_to_obtain_ms d = obtain_ms
             \<and> wait_to_release_ms d = release_ms \<and> \<not> thread_complete_success d
             \<and> threadfunc lock_rc unlock_rc d = Some
                 (if lock_rc \<noteq> 0 then ([Usleep (word_of_int (obtain_ms * 1000))], d)
                  else if unlock_rc \<noteq> 0
                  then ([Usleep (word_of_int (obtain_ms * 1000)), Locked m,
                         Usleep (word_of_int (release_ms * 1000))], d)
                  else ([Usleep (word_of_int (obtain_ms * 1000)), Locked m,
                         Usleep (word_of_int (release_ms * 1000)), Unlocked m],
                        d\<lparr>thread_complete_success := True\<rparr>)))"
proof -
  have fits: "int_times obtain_ms 1000 = Some (obtain_ms * 1000)"
    "int_times release_ms 1000 = Some (release_ms * 1000)"
    using assms(2,3) by (simp_all add: int_times_ms)
  have "h(ptr := None) = h" using assms(1) by (simp add: fun_upd_idem)
  with fits show ?thesis
    by (auto simp: start_thread_obtaining_mutex_def threadfunc_def Let_def)
qed

theorem started_thread_completes_witness:
  "(\<exists>h' d. start_thread_obtaining_mutex 64 0 7 8 10 20 Map.empty = (True, Some (7, 64), h')
      \<and> h' 64 = Some d \<and> threadfunc 0 0 d = Some ([Usleep 10000, Locked 8, Usleep 20000, Unlocked 8],
          d\<lparr>thread_complete_success := True\<rparr>))
   \<and> (\<exists>h'. start_thread_obtaining_mutex 64 11 7 8 10 20 Map.empty = (False, None, h') \<and> h' = Map.empty)"
  using started_thread_completes [where h = Map.empty and ptr = 64 and obtain_ms = 10 and release_ms = 20
      and unlock_rc = 0 and rc = 0 and m = 8 and lock_rc = 0 and tid = 7]
    started_thread_completes [where h = Map.empty and ptr = 64 and obtain_ms = 10 and release_ms = 20
      and unlock_rc = 0 and rc = 11 and m = 8 and lock_rc = 0 and tid = 7]
  by (auto simp: start_thread_obtaining_mutex_def Let_def)

text \<open>C40: A wait of more than 2147483 ms overflows the argument of \<open>usleep\<close>: the thread's
  behaviour is undefined, after it has taken the mutex when it is the second wait.\<close>
theorem long_wait_undefined:
  "threadfunc lock_rc unlock_rc d = None \<longleftrightarrow>
     2147483 < \<bar>wait_to_obtain_ms d\<bar> \<or> lock_rc = 0 \<and> 2147483 < \<bar>wait_to_release_ms d\<bar>"
  by (cases "\<bar>wait_to_obtain_ms d\<bar> \<le> 2147483"; cases "\<bar>wait_to_release_ms d\<bar> \<le> 2147483")
     (simp_all add: threadfunc_def int_times_ms Let_def)

end
