(* ===== verification/Spec2Isabelle.thy ===== *)
theory Spec2Isabelle
  imports Driver_Properties Server_Properties Server_Serial Thread_Properties Socket_Setup
    System_Calls Writer Threading
begin

text \<open>
  A verification of the C programs of this repository: the Linux character driver
  \<^verbatim>\<open>aesd-char-driver\<close>, the socket server \<^verbatim>\<open>server/aesdsocket.c\<close> that stores what its clients
  send in that driver's device, and the smaller programs \<^verbatim>\<open>finder-app/writer.c\<close>,
  \<^verbatim>\<open>examples/systemcalls/systemcalls.c\<close> and \<^verbatim>\<open>examples/threading/threading.c\<close>.

  Conventions (theory \<open>Aesd_Base\<close>). Machine integers are words of their LP64 width, signed
  ones read with \<open>sint\<close>; an \<open>int\<close> whose arithmetic cannot overflow is an \<open>int\<close>, and where
  it can the overflow is written out. A function whose code can run into undefined behaviour
  or can fail to return gives an \<open>option\<close> whose \<open>None\<close> is that, so a theorem that says
  \<open>f x = Some y\<close> says that the code is defined, returns, and returns \<open>y\<close>. What the kernel,
  the C library and other processes answer (allocation, interrupted waits, faults in user
  memory, \<open>recv\<close>, \<open>accept\<close>, \<open>fork\<close>, signals) are arguments of the definitions, and what is
  relied on of them is a named hypothesis (\<open>kernel_ok\<close>, \<open>rounds_ok\<close>, \<open>mallocs_fresh\<close>,
  \<open>real_end\<close>).
  Logging is left out everywhere.

  The driver.
  \<^item> \<open>Bounded_Log\<close>: the locale of a log of bounded length that hands displaced entries back.
  \<^item> \<open>Circular_Buffer\<close>: \<^verbatim>\<open>aesd-circular-buffer.c\<close>, function by function; the entries in use as a
    list, the equations of every function on it, and the interpretation of the locale.
  \<^item> \<open>Kernel_Memory\<close>: the heap with \<open>kmalloc\<close>, \<open>krealloc\<close>, \<open>kfree\<close> as parameters.
  \<^item> \<open>Char_Driver\<close>: the handlers of \<^verbatim>\<open>main.c\<close> with \<^verbatim>\<open>aesdchar.h\<close> and \<^verbatim>\<open>aesd_ioctl.h\<close>: open,
    release, read, write, llseek, ioctl, module init and exit.
  \<^item> \<open>Driver_Correct\<close>, \<open>Driver_Write\<close>, \<open>Driver_Seek\<close>: the device's invariant, its abstraction to
    a list of commands with a pending command, and the refinement of \<open>spec_write\<close>,
    \<open>spec_read\<close> and \<open>seek_spec\<close> by the handlers; sequences of calls.
  \<^item> \<open>Driver_Examples\<close>, \<open>Driver_Properties\<close>: concrete devices, and the properties.

  The server.
  \<^item> \<open>Char_Device\<close>: the system calls on the device as a record of operations, their contract as
    the locales \<open>seek_device\<close> and \<open>char_device\<close>, and their interpretation by the driver
    behind \<open>aesd_fops\<close>; through it every theorem about the server holds of the real driver.
  \<^item> \<open>Socket_Command\<close>: \<open>findCommand\<close>, and the set of lines it accepts.
  \<^item> \<open>Socket_Client\<close>: \<open>processClientConnection\<close>: receiving, the critical section, the reply.
  \<^item> \<open>Server_Interleaving\<close>: any number of client threads as a step relation at the granularity of
    the device calls and of \<open>file_mutex\<close>; mutual exclusion, the order of the messages,
    progress. \<open>Server_Termination\<close>: a variant that every step of finitely many clients
    decreases. \<open>Server_Serial\<close>: the function and the step relation agree.
  \<^item> \<open>Socket_Threads\<close>: the main thread: \<open>signalHandler\<close>, \<open>acceptClientConnection\<close> with its linked
    list over an explicit store of nodes, the accept loop. \<open>Socket_Setup\<close>: \<open>createSocket\<close>,
    \<open>createDaemon\<close>, \<open>main\<close>, \<open>timer_handler\<close>, \<open>timerInit\<close>.
  \<^item> \<open>Server_Properties\<close>, \<open>Thread_Properties\<close>: the properties.

  The smaller programs: \<open>System_Calls\<close> (\<open>do_system\<close>, \<open>do_exec\<close>, \<open>do_exec_redirect\<close> with the child
  as a trace of events), \<open>Writer\<close> (\<open>main\<close> over a map of file contents), \<open>Threading\<close>
  (\<open>threadfunc\<close> and \<open>start_thread_obtaining_mutex\<close>). Each holds its own properties.

  Loops. There is no fuel: loops over arrays are recursive functions with a measure, loops
  that may not end (\<open>read_back\<close>, \<open>last_node\<close>, \<open>reap_loop\<close>) are partial functions, and their
  termination is part of the theorems about them. The accept loop consumes a list of rounds of
  any length; when the list ends with no signal the server waits in \<open>accept\<close>. A \<open>recv\<close> that
  waits for a silent client for ever is a round that does not return.

  What the properties show. The driver refines its list specification, is safe under any
  sequence of calls (a read with a null position pointer excepted) and conserves its memory up
  to the leaks that are stated; the server stores whole messages in the order of the lock,
  echoes the device, answers seeks, serves any finite number of clients to the end, and, while
  \<open>malloc\<close> does not fail, accounts for every thread it creates; \<open>main\<close> serves until the accept
  loop is left or ends with the status that is stated; the small programs succeed exactly when
  all their steps do. Where the code
  deviates from what it means to do, a property states what it does.

  Not modelled. The example \<^verbatim>\<open>examples/autotest-validate\<close> (functions that return constants) and
  the student test on the Unity framework; shell scripts and build files. Of the modelled
  programs: log output; the formatting of the time in \<open>timer_handler\<close> (an argument); the
  configuration of the server without the character device, which differs in the file's name,
  the timer and the removal of the file; the unsynchronised read of \<open>isDone\<close>, which the
  model takes to see the write or not; a signal that arrives between the test of
  \<open>exit_requested\<close> and the start of \<open>accept\<close>, which in the model, as in the code, is noticed
  only when \<open>accept\<close> returns.
\<close>

end
